(* ===== verification/Prelude.thy ===== *)
theory Prelude
  imports Main "HOL-Library.Word" "HOL-Library.Sublist"
begin

text \<open>
  Shared vocabulary of the ssearcher development.

  C code is translated to total functions whose result type \<open>'a res\<close> is either a value or a
  \<open>cerror\<close>: every behaviour the C standard leaves undefined (an access outside an object, a
  signed overflow, an overlapping \<open>memcpy\<close>, a read of an indeterminate value, a null
  dereference, a double free) and every way the program stops itself (\<open>assert\<close>, \<open>exit\<close>) is a
  constructor of \<open>cerror\<close>, so a lemma that a call returns \<open>Inr\<close> is a memory-safety statement.

  Machine integers are \<open>nat\<close> or \<open>int\<close> with the wrap-around written out: \<open>szadd\<close>, \<open>szsub\<close> for
  \<open>size_t\<close> (64 bits), \<open>u32\<close> for \<open>uint32_t\<close>, \<open>inc_nat\<close>/\<open>inc_int\<close> for the increment of a
  C \<open>int\<close>, whose overflow is undefined.  Characters are bytes, \<open>8 word\<close>.
\<close>

section \<open>Errors as values\<close>

datatype cerror =
    OutOfBounds       \<comment> \<open>access outside an array, an allocated block or a mapping\<close>
  | NullDeref         \<comment> \<open>dereference of NULL, also the result of a failed malloc\<close>
  | UseAfterFree      \<comment> \<open>access to, or free of, a block that is not allocated\<close>
  | SignedOverflow    \<comment> \<open>overflow of a signed \<open>int\<close>\<close>
  | Overlap           \<comment> \<open>\<open>memcpy\<close>/\<open>strcpy\<close> between overlapping objects\<close>
  | Indeterminate     \<comment> \<open>read of an uninitialised variable\<close>
  | BadFormat         \<comment> \<open>a conversion with no matching argument\<close>
  | AssertFail        \<comment> \<open>a failed \<open>assert\<close>\<close>
  | NoReturn          \<comment> \<open>a loop that never ends\<close>
  | OutOfFuel         \<comment> \<open>the recursion bound of the model was too small\<close>
  | ExitWith int      \<comment> \<open>\<open>exit(n)\<close>\<close>

type_synonym 'a res = "cerror + 'a"

text \<open>
  \<open>ceval\<close> collects the unfolding rules that evaluate a closed call of the model in the kernel.
\<close>

named_theorems ceval

definition rbind :: "'a res \<Rightarrow> ('a \<Rightarrow> 'b res) \<Rightarrow> 'b res" where
  "rbind m f = (case m of Inl e \<Rightarrow> Inl e | Inr x \<Rightarrow> f x)"

definition guard :: "bool \<Rightarrow> cerror \<Rightarrow> unit res" where
  "guard b e = (if b then Inr () else Inl e)"

lemma rbind_Inl [simp]: "rbind (Inl e) f = Inl e"
  by (simp add: rbind_def)

lemma rbind_Inr [simp]: "rbind (Inr x) f = f x"
  by (simp add: rbind_def)

lemma rbind_eq_Inr_iff: "rbind m f = Inr y \<longleftrightarrow> (\<exists>x. m = Inr x \<and> f x = Inr y)"
  by (cases m) simp_all

lemma rbind_InrE:
  assumes "rbind m f = Inr y"
  obtains x where "m = Inr x" and "f x = Inr y"
  using assms by (auto simp: rbind_eq_Inr_iff)

lemma rbind_assoc: "rbind (rbind m f) g = rbind m (\<lambda>x. rbind (f x) g)"
  by (cases m) simp_all

lemma rbind_cong [fundef_cong]:
  assumes "m = m'" and "\<And>x. m' = Inr x \<Longrightarrow> f x = f' x"
  shows "rbind m f = rbind m' f'"
  using assms by (cases m') simp_all

lemma guard_simps [simp]:
  "guard True e = Inr ()" "guard False e = Inl e"
  by (simp_all add: guard_def)

lemma guard_eq_Inr_iff: "guard b e = Inr u \<longleftrightarrow> b"
  by (cases b) simp_all

text \<open>A loop over an array whose body updates a state.\<close>

fun for_each :: "('a \<Rightarrow> 's \<Rightarrow> 's res) \<Rightarrow> 'a list \<Rightarrow> 's \<Rightarrow> 's res" where
  "for_each f [] s = Inr s"
| "for_each f (x # xs) s = rbind (f x s) (for_each f xs)"

lemma for_each_map: "for_each f (map g xs) s = for_each (\<lambda>x. f (g x)) xs s"
  by (induction xs arbitrary: s) (simp_all cong: rbind_cong)

lemma for_each_cong:
  "(\<And>x s. x \<in> set xs \<Longrightarrow> f x s = g x s) \<Longrightarrow> for_each f xs s = for_each g xs s"
  by (induction xs arbitrary: s) (simp_all cong: rbind_cong)

section \<open>Machine integers\<close>

text \<open>\<open>int\<close> has 32 bits, \<open>size_t\<close> has 64.\<close>

definition INT_MAX :: nat where
  "INT_MAX = 2147483647"

definition SIZE_MOD :: nat where
  "SIZE_MOD = 18446744073709551616"

definition U32_MOD :: nat where
  "U32_MOD = 4294967296"

lemmas int_limits = INT_MAX_def SIZE_MOD_def U32_MOD_def

declare int_limits [ceval]

definition szadd :: "nat \<Rightarrow> nat \<Rightarrow> nat" where
  "szadd a b = (a + b) mod SIZE_MOD"

definition szsub :: "nat \<Rightarrow> nat \<Rightarrow> nat" where
  "szsub a b = (a + (SIZE_MOD - b mod SIZE_MOD)) mod SIZE_MOD"

definition u32 :: "nat \<Rightarrow> nat" where
  "u32 a = a mod U32_MOD"

definition inc_nat :: "nat \<Rightarrow> nat res" where
  "inc_nat x = (if x < INT_MAX then Inr (Suc x) else Inl SignedOverflow)"

definition inc_int :: "int \<Rightarrow> int res" where
  "inc_int x = (if x < int INT_MAX then Inr (x + 1) else Inl SignedOverflow)"

text \<open>The conversions between \<open>uint32_t\<close> and \<open>int\<close> (two's complement).\<close>

definition int_of_u32 :: "nat \<Rightarrow> int" where
  "int_of_u32 a = (if a \<le> INT_MAX then int a else int a - int U32_MOD)"

definition u32_of_int :: "int \<Rightarrow> nat" where
  "u32_of_int i = nat (i mod int U32_MOD)"

declare szadd_def [ceval] szsub_def [ceval] u32_def [ceval] inc_nat_def [ceval] inc_int_def [ceval]
  int_of_u32_def [ceval] u32_of_int_def [ceval]

lemma szadd_small [simp]: "a + b < SIZE_MOD \<Longrightarrow> szadd a b = a + b"
  by (simp add: szadd_def)

lemma szadd_bound: "szadd a b < SIZE_MOD"
  by (simp add: szadd_def SIZE_MOD_def)

lemma szsub_small [simp]:
  assumes "b \<le> a" and "a < SIZE_MOD"
  shows "szsub a b = a - b"
proof -
  have eq: "a + (SIZE_MOD - b mod SIZE_MOD) = (a - b) + SIZE_MOD"
    using assms by simp
  have "szsub a b = (a - b) mod SIZE_MOD"
    unfolding szsub_def eq by (rule mod_add_self2)
  then show ?thesis
    using assms by simp
qed

lemma szsub_wrap:
  assumes "a < b" and "b < SIZE_MOD"
  shows "szsub a b = SIZE_MOD - (b - a)"
  using assms by (simp add: szsub_def)

lemma u32_small [simp]: "a < U32_MOD \<Longrightarrow> u32 a = a"
  by (simp add: u32_def)

lemma u32_bound: "u32 a < U32_MOD"
  by (simp add: u32_def U32_MOD_def)

lemma inc_nat_small [simp]: "x < INT_MAX \<Longrightarrow> inc_nat x = Inr (Suc x)"
  by (simp add: inc_nat_def)

lemma inc_int_small [simp]: "x < int INT_MAX \<Longrightarrow> inc_int x = Inr (x + 1)"
  by (simp add: inc_int_def)

lemma inc_nat_eq_Inr_iff: "inc_nat x = Inr y \<longleftrightarrow> x < INT_MAX \<and> y = Suc x"
  by (auto simp: inc_nat_def)

lemma inc_int_eq_Inr_iff: "inc_int x = Inr y \<longleftrightarrow> x < int INT_MAX \<and> y = x + 1"
  by (auto simp: inc_int_def)

lemma int_of_u32_small [simp]: "a \<le> INT_MAX \<Longrightarrow> int_of_u32 a = int a"
  by (simp add: int_of_u32_def)

lemma u32_of_int_of_nat [simp]: "a < U32_MOD \<Longrightarrow> u32_of_int (int a) = a"
  by (simp add: u32_of_int_def)

section \<open>Bytes and checked memory accesses\<close>

type_synonym byte = "8 word"

text \<open>Addresses of heap objects.\<close>

type_synonym addr = nat

definition newline :: byte where
  "newline = 10"

definition bytes :: "string \<Rightarrow> byte list" where
  "bytes s = map of_char s"

lemma length_bytes [simp]: "length (bytes s) = length s"
  by (simp add: bytes_def)

text \<open>The number that a sequence of decimal digits denotes.\<close>

definition dec_value :: "byte list \<Rightarrow> nat" where
  "dec_value ds = foldl (\<lambda>a c. 10 * a + (unat c - 48)) 0 ds"

definition rd :: "'a list \<Rightarrow> nat \<Rightarrow> 'a res" where
  "rd xs i = (if i < length xs then Inr (xs ! i) else Inl OutOfBounds)"

definition wr :: "'a list \<Rightarrow> nat \<Rightarrow> 'a \<Rightarrow> 'a list res" where
  "wr xs i v = (if i < length xs then Inr (xs[i := v]) else Inl OutOfBounds)"

declare newline_def [ceval] rd_def [ceval] wr_def [ceval]

lemma rd_Inr [simp]: "i < length xs \<Longrightarrow> rd xs i = Inr (xs ! i)"
  by (simp add: rd_def)

lemma rd_eq_Inr_iff: "rd xs i = Inr v \<longleftrightarrow> i < length xs \<and> v = xs ! i"
  by (auto simp: rd_def)

lemma wr_Inr [simp]: "i < length xs \<Longrightarrow> wr xs i v = Inr (xs[i := v])"
  by (simp add: wr_def)

lemma wr_eq_Inr_iff: "wr xs i v = Inr ys \<longleftrightarrow> i < length xs \<and> ys = xs[i := v]"
  by (auto simp: wr_def)

lemmas res_iffs =
  rbind_eq_Inr_iff guard_eq_Inr_iff rd_eq_Inr_iff wr_eq_Inr_iff
  inc_nat_eq_Inr_iff inc_int_eq_Inr_iff

lemma takeWhile_full:
  assumes "length xs \<le> length (takeWhile P xs)" and "x \<in> set xs"
  shows "P x"
proof -
  have "takeWhile P xs = xs"
    using assms(1) by (metis takeWhile_eq_take take_all)
  with assms(2) show ?thesis by (metis takeWhile_eq_all_conv)
qed

section \<open>Occurrences of a pattern in a text\<close>

text \<open>\<open>occurs_at p t i\<close>: the bytes of \<open>p\<close> stand in \<open>t\<close> from position \<open>i\<close> on.\<close>

definition occurs_at :: "'a list \<Rightarrow> 'a list \<Rightarrow> nat \<Rightarrow> bool" where
  "occurs_at p t i \<longleftrightarrow> i + length p \<le> length t \<and> take (length p) (drop i t) = p"

lemma occurs_at_nth:
  "occurs_at p t i \<longleftrightarrow> i + length p \<le> length t \<and> (\<forall>j<length p. t ! (i + j) = p ! j)"
  unfolding occurs_at_def by (auto simp: list_eq_iff_nth_eq)

lemma occurs_at_drop:
  assumes "s \<le> length t"
  shows "occurs_at p (drop s t) i \<longleftrightarrow> occurs_at p t (s + i)"
  using assms by (auto simp: occurs_at_def add.commute)

lemma occurs_at_bounds:
  assumes "occurs_at p t i"
  shows "i + length p \<le> length t" and "p \<noteq> [] \<Longrightarrow> i < i + length p" and "p \<noteq> [] \<Longrightarrow> i < length t"
proof -
  show "i + length p \<le> length t" using assms by (simp add: occurs_at_def)
  moreover show "i < i + length p" if "p \<noteq> []" using that by simp
  ultimately show "i < length t" if "p \<noteq> []" using that by linarith
qed

end
