(* ===== verification/Match.thy ===== *)
theory Match
  imports Prelude
begin

text \<open>
  The string matcher, \<open>src/src/match.c\<close>: the table builder \<open>kmp_prepare\<close>, the search loop
  \<open>kmp_match\<close> and \<open>kmp_finish\<close> over the thread-local variables \<open>pat\<close>, \<open>pat_len\<close> and
  \<open>kmp_table\<close>.

  The table that \<open>kmp_prepare\<close> builds holds a border of every prefix of the pattern, though
  not always the longest one, and \<open>kmp_match\<close> follows one table entry and then restarts from
  the beginning of the pattern.  So a reported match is always a real one (soundness), and the
  search finds the first occurrence exactly for the patterns characterised by \<open>kmp_exact\<close>.
\<close>

section \<open>State and operations\<close>

record kmp_state =
  k_pat :: "byte list"            \<comment> \<open>\<open>pat\<close>, the memory the pattern pointer points to\<close>
  k_len :: nat                    \<comment> \<open>\<open>pat_len\<close>\<close>
  k_table :: "nat list option"    \<comment> \<open>\<open>kmp_table\<close>, \<open>None\<close> for \<open>NULL\<close>\<close>

text \<open>The loop of \<open>kmp_prepare\<close> from index \<open>i\<close> on.\<close>

function prepare_loop :: "byte list \<Rightarrow> nat \<Rightarrow> nat list \<Rightarrow> nat \<Rightarrow> nat list res" where
  "prepare_loop pattern len tab i =
     (if i < len then
        rbind (rd tab (i - 1)) (\<lambda>t.
        rbind (rd pattern t) (\<lambda>c.
        rbind (rd pattern i) (\<lambda>d.
        rbind (if c = d then rbind (inc_nat t) (wr tab i) else wr tab i 0) (\<lambda>tab'.
        rbind (inc_nat i) (\<lambda>i'. prepare_loop pattern len tab' i')))))
      else Inr tab)"
  by pat_completeness auto
termination
  by (relation "measure (\<lambda>(pattern, len, tab, i). len - i)") (auto simp: inc_nat_eq_Inr_iff)

declare prepare_loop.simps [simp del, ceval]

text \<open>
  \<open>memalign n\<close> is the block a call of \<open>posix_memalign\<close> for \<open>n\<close> table entries delivers, with its
  indeterminate contents, or \<open>None\<close> when the call fails.  The table is only allocated when there
  is none yet.
\<close>

definition kmp_prepare ::
  "(nat \<Rightarrow> nat list option) \<Rightarrow> byte list \<Rightarrow> nat \<Rightarrow> kmp_state \<Rightarrow> kmp_state res" where
  "kmp_prepare memalign pattern len st =
     rbind (case k_table st of
              Some tab \<Rightarrow> Inr tab
            | None \<Rightarrow> (case memalign len of None \<Rightarrow> Inl (ExitWith (- 1)) | Some tab \<Rightarrow> Inr tab)) (\<lambda>tab.
     rbind (wr tab 0 0) (\<lambda>tab0.
     rbind (prepare_loop pattern len tab0 1) (\<lambda>tab1.
     Inr (st\<lparr>k_pat := pattern, k_len := len, k_table := Some tab1\<rparr>))))"

definition kmp_finish :: "kmp_state \<Rightarrow> kmp_state" where
  "kmp_finish st = (case k_table st of None \<Rightarrow> st | Some tab \<Rightarrow> st\<lparr>k_table := None\<rparr>)"

text \<open>One iteration of the search loop either leaves it through \<open>goto found\<close> or goes on.\<close>

datatype kmp_out =
    Found nat int             \<comment> \<open>\<open>text_pos\<close>, \<open>line_cnt\<close>\<close>
  | Continue nat nat int      \<comment> \<open>\<open>pat_pos\<close>, \<open>text_pos\<close>, \<open>line_cnt\<close>\<close>

definition kmp_hit :: "kmp_state \<Rightarrow> nat \<Rightarrow> nat \<Rightarrow> int \<Rightarrow> kmp_out res" where
  "kmp_hit st pat_pos text_pos line_cnt =
     (if pat_pos = szsub (k_len st) 1 then Inr (Found text_pos line_cnt)
      else rbind (inc_nat pat_pos) (\<lambda>pp. rbind (inc_nat text_pos) (\<lambda>tp.
           Inr (Continue pp tp line_cnt))))"

definition table_entry :: "kmp_state \<Rightarrow> nat \<Rightarrow> nat res" where
  "table_entry st i = (case k_table st of None \<Rightarrow> Inl NullDeref | Some tab \<Rightarrow> rd tab i)"

definition kmp_body :: "kmp_state \<Rightarrow> byte list \<Rightarrow> nat \<Rightarrow> nat \<Rightarrow> int \<Rightarrow> kmp_out res" where
  "kmp_body st text pat_pos text_pos line_cnt0 =
     rbind (rd text text_pos) (\<lambda>c.
     rbind (if c = newline then inc_int line_cnt0 else Inr line_cnt0) (\<lambda>line_cnt.
     rbind (rd (k_pat st) pat_pos) (\<lambda>p.
     if c = p then kmp_hit st pat_pos text_pos line_cnt
     else if pat_pos = 0 then
       rbind (inc_nat text_pos) (\<lambda>tp. Inr (Continue pat_pos tp line_cnt))
     else
       rbind (table_entry st (pat_pos - 1)) (\<lambda>pp.
       rbind (rd (k_pat st) pp) (\<lambda>q.
       if c = q then kmp_hit st pp text_pos line_cnt
       else if pp \<noteq> 0 then Inr (Continue 0 text_pos line_cnt)
       else rbind (inc_nat text_pos) (\<lambda>tp. Inr (Continue pp tp line_cnt)))))))"

text \<open>
  An iteration that goes on either advances in the text, or keeps its place and moves from a
  nonzero position of the pattern to position 0: the loop ends whatever the table holds.
\<close>

lemma kmp_body_progress:
  assumes "kmp_body st text pp tp lc = Inr (Continue pp' tp' lc')"
  shows "tp' = Suc tp \<or> (tp' = tp \<and> pp \<noteq> 0 \<and> pp' = 0)"
  using assms by (auto simp: kmp_body_def kmp_hit_def res_iffs split: if_splits)

function kmp_loop ::
  "kmp_state \<Rightarrow> byte list \<Rightarrow> nat \<Rightarrow> nat \<Rightarrow> nat \<Rightarrow> int \<Rightarrow> (bool \<times> nat \<times> int) res" where
  "kmp_loop st text text_len pat_pos text_pos line_cnt =
     (if text_pos < text_len then
        rbind (kmp_body st text pat_pos text_pos line_cnt) (\<lambda>out.
        case out of
          Found tp lc \<Rightarrow> Inr (True, tp, lc)
        | Continue pp tp lc \<Rightarrow> kmp_loop st text text_len pp tp lc)
      else Inr (False, text_pos, line_cnt))"
  by pat_completeness auto
termination
  by (relation "measures [\<lambda>(st, text, n, pp, tp, lc). n - tp,
                          \<lambda>(st, text, n, pp, tp, lc). if pp = 0 then 0 else 1]")
     (auto dest: kmp_body_progress)

declare kmp_loop.simps [simp del, ceval]

text \<open>The result: whether a match was found, and the new \<open>*linum\<close> and \<open>*matchpos\<close>.\<close>

definition kmp_match ::
  "kmp_state \<Rightarrow> byte list \<Rightarrow> nat \<Rightarrow> nat \<Rightarrow> (bool \<times> nat \<times> nat) res" where
  "kmp_match st text text_len linum =
     rbind (kmp_loop st text text_len 0 0 (int_of_u32 linum)) (\<lambda>(found, text_pos, line_cnt).
     Inr (found, u32_of_int line_cnt,
          if found then u32 (szadd (szsub text_pos (k_len st)) 1) else U32_MOD - 1))"

declare kmp_prepare_def [ceval] kmp_hit_def [ceval] table_entry_def [ceval] kmp_body_def [ceval]
  kmp_match_def [ceval]

section \<open>Borders and the table\<close>

definition border :: "'a list \<Rightarrow> nat \<Rightarrow> nat \<Rightarrow> bool" where
  "border p k b \<longleftrightarrow> b < k \<and> k \<le> length p \<and> (\<forall>j<b. p ! (k - b + j) = p ! j)"

text \<open>The table as a function of the pattern alone.\<close>

fun border_table :: "'a list \<Rightarrow> nat \<Rightarrow> nat" where
  "border_table p 0 = 0"
| "border_table p (Suc i) =
     (if p ! border_table p i = p ! Suc i then Suc (border_table p i) else 0)"

lemma border_zero [simp]: "border p k 0 \<longleftrightarrow> 0 < k \<and> k \<le> length p"
  by (simp add: border_def)

lemma border_less: "border p k b \<Longrightarrow> b < k"
  by (simp add: border_def)

lemma borderI:
  "0 < d \<Longrightarrow> d + b \<le> length p \<Longrightarrow> (\<And>j. j < b \<Longrightarrow> p ! (d + j) = p ! j) \<Longrightarrow> border p (d + b) b"
  by (simp add: border_def)

lemma borderE:
  assumes "border p k b"
  obtains d where "0 < d" "k = d + b" "d + b \<le> length p" "\<And>j. j < b \<Longrightarrow> p ! (d + j) = p ! j"
  using assms that [of "k - b"] by (auto simp: border_def)

lemma border_extend:
  assumes "border p k b" and "k < length p" and "p ! b = p ! k"
  shows "border p (Suc k) (Suc b)"
proof -
  obtain d where d: "0 < d" "k = d + b" "\<And>j. j < b \<Longrightarrow> p ! (d + j) = p ! j"
    using assms(1) by (rule borderE) blast
  then have "border p (d + Suc b) (Suc b)"
    using assms by (intro borderI) (auto simp: less_Suc_eq)
  then show ?thesis by (simp add: d)
qed

lemma border_table_border: "i < length p \<Longrightarrow> border p (Suc i) (border_table p i)"
proof (induction i)
  case 0
  then show ?case by (simp add: Suc_le_eq)
next
  case (Suc i)
  then show ?case by (auto intro: border_extend)
qed

lemma border_table_less: "i < length p \<Longrightarrow> border_table p i \<le> i"
  using border_table_border [of i p] by (simp add: border_def)

text \<open>The loop fills the table from \<open>i\<close> on and leaves nothing else to chance.\<close>

lemma prepare_loop_ok:
  assumes "0 < i" and "i \<le> len" and "len \<le> length pattern" and "len \<le> INT_MAX"
    and "len \<le> length tab" and "\<And>j. j < i \<Longrightarrow> tab ! j = border_table pattern j"
  shows "\<exists>tab'. prepare_loop pattern len tab i = Inr tab' \<and> length tab' = length tab \<and>
           (\<forall>j<len. tab' ! j = border_table pattern j)"
  using assms
proof (induction pattern len tab i rule: prepare_loop.induct)
  case (1 pattern len tab i)
  show ?case
  proof (cases "i < len")
    case False
    then show ?thesis
      using 1 by (subst prepare_loop.simps) auto
  next
    case True
    define t where "t = border_table pattern (i - 1)"
    have bt: "border_table pattern i = (if pattern ! t = pattern ! i then Suc t else 0)"
      using "1.prems"(1) by (cases i) (simp_all add: t_def)
    have t: "t < i" "tab ! (i - 1) = t"
      using "1.prems" True border_table_less [of "i - 1" pattern] by (cases i; simp add: t_def)+
    let ?tab = "tab[i := border_table pattern i]"
    have "\<exists>tab'. prepare_loop pattern len ?tab (Suc i) = Inr tab' \<and> length tab' = length ?tab \<and>
           (\<forall>j<len. tab' ! j = border_table pattern j)"
    proof (rule "1.IH")
      show "(if pattern ! t = pattern ! i then rbind (inc_nat t) (wr tab i) else wr tab i 0)
          = Inr ?tab"
        using t "1.prems" True by (auto simp: bt)
    qed (use "1.prems" True t in \<open>auto simp: less_Suc_eq\<close>)
    then show ?thesis
      using t "1.prems" True by (subst prepare_loop.simps) (auto simp: bt)
  qed
qed

text \<open>A block with fewer than \<open>len\<close> entries is overrun at its end.\<close>

lemma prepare_loop_overrun:
  assumes "0 < i" and "i \<le> length tab" and "length tab < len" and "len \<le> length pattern"
    and "len \<le> INT_MAX" and "\<And>j. j < i \<Longrightarrow> tab ! j = border_table pattern j"
  shows "prepare_loop pattern len tab i = Inl OutOfBounds"
  using assms
proof (induction pattern len tab i rule: prepare_loop.induct)
  case (1 pattern len tab i)
  define t where "t = border_table pattern (i - 1)"
  have i: "i < len" "i - 1 < length pattern" using "1.prems" by auto
  have bt: "border_table pattern i = (if pattern ! t = pattern ! i then Suc t else 0)"
    using "1.prems"(1) by (cases i) (simp_all add: t_def)
  have t: "t < i" "tab ! (i - 1) = t"
    using "1.prems" i border_table_less [of "i - 1" pattern] by (cases i; simp add: t_def)+
  show ?case
  proof (cases "i < length tab")
    case True
    let ?tab = "tab[i := border_table pattern i]"
    have "prepare_loop pattern len ?tab (Suc i) = Inl OutOfBounds"
    proof (rule "1.IH")
      show "(if pattern ! t = pattern ! i then rbind (inc_nat t) (wr tab i) else wr tab i 0)
          = Inr ?tab"
        using t "1.prems" i True by (auto simp: bt)
    qed (use "1.prems" i True t in \<open>auto simp: less_Suc_eq\<close>)
    then show ?thesis
      using t "1.prems" i True by (subst prepare_loop.simps) (auto simp: bt)
  next
    case False
    then show ?thesis
      using t "1.prems" i by (subst prepare_loop.simps) (auto simp: wr_def)
  qed
qed

lemma border_table_take: "i < n \<Longrightarrow> n \<le> length p \<Longrightarrow> border_table (take n p) i = border_table p i"
proof (induction i)
  case 0
  then show ?case by simp
next
  case (Suc i)
  have "border_table p i < n"
    using Suc.prems border_table_less [of i p] by simp
  with Suc show ?case by simp
qed

text \<open>
  The state \<open>kmp_prepare\<close> leaves behind: the pattern in use is \<open>pattern_of st\<close>, and the table
  holds its borders.
\<close>

definition pattern_of :: "kmp_state \<Rightarrow> byte list" where
  "pattern_of st = take (k_len st) (k_pat st)"

definition kmp_ready :: "kmp_state \<Rightarrow> bool" where
  "kmp_ready st \<longleftrightarrow>
     0 < k_len st \<and> k_len st \<le> length (k_pat st) \<and> k_len st \<le> INT_MAX \<and>
     (case k_table st of None \<Rightarrow> False
      | Some tab \<Rightarrow> k_len st \<le> length tab \<and>
          (\<forall>i<k_len st. tab ! i = border_table (pattern_of st) i))"

lemma kmp_prepare_ok:
  assumes "k_table st = None" and "memalign len = Some tab" and "length tab = len"
    and "0 < len" and "len \<le> length pattern" and "len \<le> INT_MAX"
  shows "\<exists>st'. kmp_prepare memalign pattern len st = Inr st' \<and> kmp_ready st' \<and>
           pattern_of st' = take len pattern"
proof -
  have "\<exists>tab'. prepare_loop pattern len (tab[0 := 0]) 1 = Inr tab' \<and>
          length tab' = length (tab[0 := 0]) \<and> (\<forall>i<len. tab' ! i = border_table pattern i)"
    using assms by (intro prepare_loop_ok) auto
  then show ?thesis
    using assms
    by (auto simp: kmp_prepare_def kmp_ready_def pattern_of_def border_table_take)
qed

lemma kmp_readyD:
  assumes "kmp_ready st"
  shows "0 < k_len st" "k_len st \<le> length (k_pat st)" "k_len st \<le> INT_MAX"
    "length (pattern_of st) = k_len st"
  using assms by (auto simp: kmp_ready_def pattern_of_def)

lemma ready_rd_pat:
  assumes "kmp_ready st" and "i < k_len st"
  shows "rd (k_pat st) i = Inr (pattern_of st ! i)"
  using assms by (simp add: kmp_ready_def pattern_of_def)

lemma ready_table_entry:
  assumes "kmp_ready st" and "i < k_len st"
  shows "table_entry st i = Inr (border_table (pattern_of st) i)"
  using assms by (auto simp: kmp_ready_def table_entry_def split: option.splits)

lemma ready_hit:
  assumes "kmp_ready st" and "pp < k_len st" and "tp < INT_MAX"
  shows "kmp_hit st pp tp lc =
    Inr (if Suc pp = k_len st then Found tp lc else Continue (Suc pp) (Suc tp) lc)"
  using kmp_readyD [OF assms(1)] assms(2,3)
  by (auto simp: kmp_hit_def int_limits)

section \<open>The search loop\<close>

text \<open>
  A loop rule: an invariant that every iteration keeps, without an error, gives a result that
  satisfies what the exits establish.
\<close>

lemma kmp_loop_rule:
  assumes "Inv pp tp lc"
    and "\<And>pp tp lc. Inv pp tp lc \<Longrightarrow> tp < n \<Longrightarrow>
      \<exists>out. kmp_body st t pp tp lc = Inr out \<and>
        (case out of Found tp' lc' \<Rightarrow> Q True tp' lc' | Continue pp' tp' lc' \<Rightarrow> Inv pp' tp' lc')"
    and "\<And>pp tp lc. Inv pp tp lc \<Longrightarrow> n \<le> tp \<Longrightarrow> Q False tp lc"
  shows "\<exists>found tp' lc'. kmp_loop st t n pp tp lc = Inr (found, tp', lc') \<and> Q found tp' lc'"
  using assms
proof (induction st t n pp tp lc rule: kmp_loop.induct)
  case (1 st t n pp tp lc)
  show ?case
  proof (cases "tp < n")
    case True
    then obtain out where out: "kmp_body st t pp tp lc = Inr out"
      "case out of Found tp' lc' \<Rightarrow> Q True tp' lc' | Continue pp' tp' lc' \<Rightarrow> Inv pp' tp' lc'"
      using "1.prems"(1,2) by blast
    show ?thesis
    proof (cases out)
      case (Found tp' lc')
      with True out show ?thesis by (subst kmp_loop.simps) auto
    next
      case (Continue pp' tp' lc')
      then have "\<exists>found tp'' lc''. kmp_loop st t n pp' tp' lc' = Inr (found, tp'', lc'')
          \<and> Q found tp'' lc''"
        using "1.IH" [OF True out(1) Continue] out(2) "1.prems"(2,3) by simp
      with True out Continue show ?thesis by (subst kmp_loop.simps) simp
    qed
  next
    case False
    with "1.prems"(1,3) show ?thesis by (subst kmp_loop.simps) auto
  qed
qed

text \<open>
  What holds before every iteration: the last \<open>pp\<close> bytes read are the first \<open>pp\<close> bytes of the
  pattern.
\<close>

definition aligned :: "'a list \<Rightarrow> 'a list \<Rightarrow> nat \<Rightarrow> nat \<Rightarrow> bool" where
  "aligned p t pp tp \<longleftrightarrow>
     pp < length p \<and> pp \<le> tp \<and> tp \<le> length t \<and> (\<forall>j<pp. t ! (tp - pp + j) = p ! j)"

lemma alignedI:
  "pp < length p \<Longrightarrow> s + pp \<le> length t \<Longrightarrow> (\<And>j. j < pp \<Longrightarrow> t ! (s + j) = p ! j)
    \<Longrightarrow> aligned p t pp (s + pp)"
  by (simp add: aligned_def)

lemma alignedE:
  assumes "aligned p t pp tp"
  obtains s where "tp = s + pp" "pp < length p" "s + pp \<le> length t"
    "\<And>j. j < pp \<Longrightarrow> t ! (s + j) = p ! j"
  using assms that [of "tp - pp"] by (auto simp: aligned_def)

lemma aligned_0 [simp]: "aligned p t 0 tp \<longleftrightarrow> p \<noteq> [] \<and> tp \<le> length t"
  by (auto simp: aligned_def)

lemma aligned_Suc:
  assumes "aligned p t pp tp" and "tp < length t" and "t ! tp = p ! pp" and "Suc pp < length p"
  shows "aligned p t (Suc pp) (Suc tp)"
proof -
  obtain s where s: "tp = s + pp" "\<And>j. j < pp \<Longrightarrow> t ! (s + j) = p ! j"
    using assms(1) by (rule alignedE) blast
  then have "aligned p t (Suc pp) (s + Suc pp)"
    using assms by (intro alignedI) (auto simp: less_Suc_eq)
  then show ?thesis by (simp add: s)
qed

lemma aligned_found:
  assumes "aligned p t pp tp" and "tp < length t" and "t ! tp = p ! pp" and "Suc pp = length p"
  shows "tp = (tp - pp) + pp" and "occurs_at p t (tp - pp)"
proof -
  obtain s where s: "tp = s + pp" "\<And>j. j < pp \<Longrightarrow> t ! (s + j) = p ! j"
    using assms(1) by (rule alignedE) blast
  then show "tp = (tp - pp) + pp" by simp
  show "occurs_at p t (tp - pp)"
    using s assms unfolding occurs_at_nth by (auto simp flip: assms(4) simp: less_Suc_eq)
qed

lemma aligned_border:
  assumes "aligned p t pp tp" and "border p pp b"
  shows "aligned p t b tp"
proof -
  obtain s where s: "tp = s + pp" "pp < length p" "s + pp \<le> length t"
    "\<And>j. j < pp \<Longrightarrow> t ! (s + j) = p ! j"
    using assms(1) by (rule alignedE) blast
  obtain d where d: "pp = d + b" "\<And>j. j < b \<Longrightarrow> p ! (d + j) = p ! j"
    using assms(2) by (rule borderE) blast
  have "t ! ((s + d) + j) = p ! j" if "j < b" for j
    using s(4) [of "d + j"] d that by (simp add: add.assoc)
  then have "aligned p t b ((s + d) + b)"
    using s d by (intro alignedI) auto
  then show ?thesis by (simp add: s d add.assoc)
qed

text \<open>The borders that partial matches of the text with itself produce.\<close>

lemma occurs_border:
  assumes "aligned p t pp tp" and "occurs_at p t (tp - b)" and "0 < b" and "b < pp"
  shows "border p pp b"
proof -
  obtain s where s: "tp = s + pp" "pp < length p" "s + pp \<le> length t"
    "\<And>j. j < pp \<Longrightarrow> t ! (s + j) = p ! j"
    using assms(1) by (rule alignedE) blast
  define d where "d = pp - b"
  have d: "pp = d + b" "0 < d" "tp - b = s + d" using assms s by (auto simp: d_def)
  have "p ! (d + j) = p ! j" if "j < b" for j
  proof -
    have "t ! (s + d + j) = p ! j"
      using assms(2) that d s by (simp add: occurs_at_nth)
    moreover have "t ! (s + d + j) = p ! (d + j)"
      using s(4) [of "d + j"] that d by (simp add: add.assoc)
    ultimately show ?thesis by simp
  qed
  then show ?thesis
    using d s by (auto intro: borderI)
qed

section \<open>One iteration, resolved\<close>

definition nlbit :: "byte \<Rightarrow> int" where
  "nlbit c = (if c = newline then 1 else 0)"

definition newlines :: "byte list \<Rightarrow> nat \<Rightarrow> int" where
  "newlines t k = int (count_list (take k t) newline)"

lemma newlines_Suc: "tp < length t \<Longrightarrow> newlines t (Suc tp) = newlines t tp + nlbit (t ! tp)"
  by (simp add: newlines_def nlbit_def take_Suc_conv_app_nth)

lemma newlines_0 [simp]: "newlines t 0 = 0"
  by (simp add: newlines_def)

lemma newlines_mono:
  assumes "j \<le> k"
  shows "newlines t j \<le> newlines t k"
proof -
  have "take k t = take j t @ take (k - j) (drop j t)"
    using take_add [of j "k - j" t] assms by simp
  then show ?thesis by (simp add: newlines_def)
qed

lemma nlbit_nonneg [simp]: "0 \<le> nlbit c"
  by (simp add: nlbit_def)

text \<open>The table entry that an iteration at pattern position \<open>pp > 0\<close> falls back to.\<close>

abbreviation fallback :: "byte list \<Rightarrow> nat \<Rightarrow> nat" where
  "fallback p pp \<equiv> border_table p (pp - 1)"

lemma fallback_border: "0 < pp \<Longrightarrow> pp \<le> length p \<Longrightarrow> border p pp (fallback p pp)"
  using border_table_border [of "pp - 1" p] by simp

definition kmp_next :: "byte list \<Rightarrow> byte \<Rightarrow> nat \<Rightarrow> nat \<Rightarrow> int \<Rightarrow> kmp_out" where
  "kmp_next p c pp tp lc =
     (if c = p ! pp then
        if Suc pp = length p then Found tp lc else Continue (Suc pp) (Suc tp) lc
      else if pp = 0 then Continue 0 (Suc tp) lc
      else if c = p ! fallback p pp then Continue (Suc (fallback p pp)) (Suc tp) lc
      else if fallback p pp \<noteq> 0 then Continue 0 tp lc
      else Continue 0 (Suc tp) lc)"

lemma kmp_body_ready:
  assumes "kmp_ready st" and "pp < k_len st" and "tp < length t" and "tp < INT_MAX"
    and "lc + nlbit (t ! tp) \<le> int INT_MAX"
  shows "kmp_body st t pp tp lc =
    Inr (kmp_next (pattern_of st) (t ! tp) pp tp (lc + nlbit (t ! tp)))"
proof -
  define p where "p = pattern_of st"
  define lc' where "lc' = lc + nlbit (t ! tp)"
  have lc: "(if t ! tp = newline then inc_int lc else Inr lc) = Inr lc'"
    using assms(5) by (auto simp: lc'_def nlbit_def)
  have len: "length p = k_len st"
    unfolding p_def using assms(1) by (rule kmp_readyD)
  have fb: "fallback p pp < pp" if "0 < pp"
    using fallback_border [of pp p] that assms(2) len by (simp add: border_def)
  show ?thesis
    using assms(1-4) fb len unfolding p_def [symmetric] lc'_def [symmetric]
    by (auto simp: kmp_body_def kmp_next_def lc ready_rd_pat ready_table_entry ready_hit p_def)
qed

text \<open>Only the first \<open>text_len\<close> bytes of the text are looked at.\<close>

lemma kmp_loop_take:
  "n \<le> length t \<Longrightarrow> kmp_loop st t n pp tp lc = kmp_loop st (take n t) n pp tp lc"
proof (induction st t n pp tp lc rule: kmp_loop.induct)
  case (1 st t n pp tp lc)
  show ?case
  proof (cases "tp < n")
    case True
    have body: "kmp_body st t pp tp lc = kmp_body st (take n t) pp tp lc"
      using True "1.prems" by (simp add: kmp_body_def rd_def)
    have "(case out of Found tp lc \<Rightarrow> Inr (True, tp, lc) | Continue pp tp lc \<Rightarrow> kmp_loop st t n pp tp lc)
      = (case out of Found tp lc \<Rightarrow> Inr (True, tp, lc)
         | Continue pp tp lc \<Rightarrow> kmp_loop st (take n t) n pp tp lc)"
      if "kmp_body st (take n t) pp tp lc = Inr out" for out
      using "1.IH" [OF True, of out] that body "1.prems" by (cases out) auto
    then show ?thesis
      by (subst (1 2) kmp_loop.simps) (simp add: body True cong: rbind_cong)
  next
    case False
    then show ?thesis by (subst (1 2) kmp_loop.simps) simp
  qed
qed

section \<open>The invariant of the search\<close>

text \<open>
  \<open>kmp_exact p\<close> characterises the patterns on which following one table entry loses nothing:
  whenever the bytes before a mismatch at position \<open>k\<close> also end in a shorter prefix of length
  \<open>b\<close> that is not the table entry, the byte that would continue it is one already ruled out.
\<close>

definition kmp_exact :: "byte list \<Rightarrow> bool" where
  "kmp_exact p \<longleftrightarrow>
     (\<forall>k<length p. \<forall>b<k. 0 < b \<longrightarrow> border p k b \<longrightarrow> b \<noteq> fallback p k \<longrightarrow>
        p ! b = p ! k \<or> (b < fallback p k \<and> p ! b = p ! fallback p k))"

definition no_restart :: "byte list \<Rightarrow> bool" where
  "no_restart p \<longleftrightarrow> p \<noteq> [] \<and> hd p \<notin> set (tl p)"

text \<open>
  A newline is counted once or, when the search restarts at it, twice; it is counted exactly
  once for a pattern whose first byte does not come back.
\<close>

definition lines_ok :: "byte list \<Rightarrow> byte list \<Rightarrow> int \<Rightarrow> nat \<Rightarrow> nat \<Rightarrow> int \<Rightarrow> bool" where
  "lines_ok p t lc0 pp tp lc \<longleftrightarrow>
     lc0 + newlines t tp \<le> lc \<and>
     lc \<le> lc0 + 2 * newlines t tp + (if pp = 0 \<and> tp < length t then nlbit (t ! tp) else 0) \<and>
     (no_restart p \<longrightarrow> lc = lc0 + newlines t tp)"

lemma newlines_nonneg [simp]: "0 \<le> newlines t k"
  by (simp add: newlines_def)

lemma lines_ok_advance:
  "lines_ok p t lc0 pp tp lc \<Longrightarrow> tp < length t \<Longrightarrow> lines_ok p t lc0 pp' (Suc tp) (lc + nlbit (t ! tp))"
  by (cases "t ! tp = newline"; cases "pp = 0") (auto simp: lines_ok_def nlbit_def newlines_Suc)

lemma lines_ok_restart:
  "lines_ok p t lc0 pp tp lc \<Longrightarrow> tp < length t \<Longrightarrow> 0 < pp \<Longrightarrow> \<not> no_restart p \<Longrightarrow>
    lines_ok p t lc0 0 tp (lc + nlbit (t ! tp))"
  by (auto simp: lines_ok_def nlbit_def)

lemma lines_ok_room:
  assumes "lines_ok p t lc0 pp tp lc" and "tp < length t"
    and "lc0 + 2 * newlines t (length t) \<le> int m"
  shows "lc + nlbit (t ! tp) \<le> int m"
  using lines_ok_advance [OF assms(1,2), of 1] assms(3) newlines_mono [of "Suc tp" "length t" t] assms(2)
  by (simp add: lines_ok_def)

definition kmp_inv :: "byte list \<Rightarrow> byte list \<Rightarrow> int \<Rightarrow> nat \<Rightarrow> nat \<Rightarrow> int \<Rightarrow> bool" where
  "kmp_inv p t lc0 pp tp lc \<longleftrightarrow>
     aligned p t pp tp \<and> lines_ok p t lc0 pp tp lc \<and>
     (kmp_exact p \<longrightarrow> (\<forall>s. s + pp < tp \<longrightarrow> \<not> occurs_at p t s))"

lemma occurs_at_continues:
  assumes "occurs_at p t (tp - b)" and "b \<le> tp" and "b < length p"
  shows "t ! tp = p ! b"
proof -
  have "t ! (tp - b + b) = p ! b"
    using assms(1,3) by (simp add: occurs_at_nth)
  with assms(2) show ?thesis by simp
qed

lemma not_occurs_first: "t ! tp \<noteq> p ! 0 \<Longrightarrow> 0 < length p \<Longrightarrow> \<not> occurs_at p t tp"
  by (auto simp: occurs_at_nth dest: spec [of _ 0])

text \<open>After a mismatch, no occurrence starts where the search skips ahead.\<close>

lemma skipped_mismatch:
  assumes "aligned p t pp tp" and "tp < length t" and "t ! tp \<noteq> p ! pp"
    and ex: "kmp_exact p" and none: "\<forall>s. s + pp < tp \<longrightarrow> \<not> occurs_at p t s"
    and new: "s + b < tp" "b \<le> fallback p pp" "0 < pp"
    and cont: "t ! tp = p ! fallback p pp \<Longrightarrow> b = fallback p pp"
  shows "\<not> occurs_at p t s"
proof
  assume occ: "occurs_at p t s"
  define k where "k = tp - s"
  have k: "s = tp - k" "k \<le> tp" "0 < k" "b < k" using new by (auto simp: k_def)
  have pp: "pp < length p" "pp \<le> tp" using assms(1) by (auto simp: aligned_def)
  have "\<not> s + pp < tp" using occ none by blast
  then have "k \<le> pp" using k by linarith
  moreover have tk: "t ! tp = p ! k"
    using occurs_at_continues [of p t tp k] occ k pp calculation by simp
  ultimately have kpp: "k < pp" using assms(3) by (cases "k = pp") auto
  then have bd: "border p pp k"
    using occurs_border [OF assms(1)] occ k by simp
  show False
  proof (cases "k = fallback p pp")
    case True
    with tk cont k show False by simp
  next
    case False
    then have "p ! k = p ! pp \<or> (k < fallback p pp \<and> p ! k = p ! fallback p pp)"
      using ex bd kpp k(3) pp(1) by (auto simp: kmp_exact_def)
    with assms(3) tk cont k show False by auto
  qed
qed

lemma no_restart_nth:
  assumes "no_restart p" and "0 < i" and "i < length p"
  shows "p ! i \<noteq> p ! 0"
  using assms by (cases p) (auto simp: no_restart_def nth_Cons' in_set_conv_nth)

lemma no_restart_table:
  assumes "no_restart p"
  shows "i < length p \<Longrightarrow> border_table p i = 0"
  by (induction i) (use no_restart_nth [OF assms] in \<open>auto, metis zero_less_Suc\<close>)

lemma no_restart_exact: "no_restart p \<Longrightarrow> kmp_exact p"
  unfolding kmp_exact_def
proof (intro allI impI)
  fix k b
  assume nr: "no_restart p" and "k < length p" "b < k" "0 < b" "border p k b"
  then obtain d where "0 < d" "d < length p" "p ! d = p ! 0"
    by (elim borderE) (metis add_0_right less_add_same_cancel1 order_less_le_trans)
  then show "p ! b = p ! k \<or> b < fallback p k \<and> p ! b = p ! fallback p k"
    using no_restart_nth [OF nr] by blast
qed

text \<open>The five ways an iteration goes on, each keeping the invariant.\<close>

lemma kmp_inv_hit:
  assumes inv: "kmp_inv p t lc0 pp tp lc" and "tp < length t" and "t ! tp = p ! pp"
    and "Suc pp < length p"
  shows "kmp_inv p t lc0 (Suc pp) (Suc tp) (lc + nlbit (t ! tp))"
  using assms aligned_Suc [of p t pp tp] lines_ok_advance [of p t lc0 pp tp lc "Suc pp"]
  by (simp add: kmp_inv_def)

lemma kmp_inv_zero:
  assumes inv: "kmp_inv p t lc0 0 tp lc" and "tp < length t" and "t ! tp \<noteq> p ! 0"
  shows "kmp_inv p t lc0 0 (Suc tp) (lc + nlbit (t ! tp))"
proof -
  have "\<not> occurs_at p t s" if "kmp_exact p" "s < Suc tp" for s
  proof (cases "s = tp")
    case True
    then show ?thesis
      using assms by (auto simp: kmp_inv_def occurs_at_nth)
  next
    case False
    with that inv show ?thesis by (simp add: kmp_inv_def)
  qed
  with assms show ?thesis
    by (auto simp: kmp_inv_def intro: lines_ok_advance)
qed

lemma kmp_inv_fallback_none:
  assumes inv: "kmp_inv p t lc0 pp tp lc" and "tp < length t" and "t ! tp \<noteq> p ! pp" and "0 < pp"
    and "s + b < tp" and "b \<le> fallback p pp"
    and "t ! tp = p ! fallback p pp \<Longrightarrow> b = fallback p pp" and "kmp_exact p"
  shows "\<not> occurs_at p t s"
  using assms by (intro skipped_mismatch [of p t pp tp s b]) (auto simp: kmp_inv_def)

lemma kmp_inv_fallback_hit:
  assumes inv: "kmp_inv p t lc0 pp tp lc" and "tp < length t" and "t ! tp \<noteq> p ! pp" and "0 < pp"
    and "t ! tp = p ! fallback p pp"
  shows "kmp_inv p t lc0 (Suc (fallback p pp)) (Suc tp) (lc + nlbit (t ! tp))"
proof -
  have al: "aligned p t pp tp" using inv by (simp add: kmp_inv_def)
  then have bd: "border p pp (fallback p pp)"
    using assms(4) by (intro fallback_border) (auto simp: aligned_def)
  then have "aligned p t (Suc (fallback p pp)) (Suc tp)"
    using aligned_border [OF al bd] assms al
    by (intro aligned_Suc) (auto simp: aligned_def border_def)
  moreover have "\<forall>s. s + Suc (fallback p pp) < Suc tp \<longrightarrow> \<not> occurs_at p t s" if "kmp_exact p"
    using kmp_inv_fallback_none [OF assms(1-4), of _ "fallback p pp"] that by auto
  ultimately show ?thesis
    using inv assms(2,4) by (auto simp: kmp_inv_def intro: lines_ok_advance)
qed

lemma kmp_inv_fallback_restart:
  assumes inv: "kmp_inv p t lc0 pp tp lc" and "tp < length t" and "t ! tp \<noteq> p ! pp" and "0 < pp"
    and "t ! tp \<noteq> p ! fallback p pp" and "fallback p pp \<noteq> 0"
  shows "kmp_inv p t lc0 0 tp (lc + nlbit (t ! tp))"
proof -
  have "\<not> no_restart p"
    using no_restart_table [of p "pp - 1"] assms(6) inv
    by (auto simp: kmp_inv_def aligned_def less_imp_diff_less)
  moreover have "\<forall>s. s < tp \<longrightarrow> \<not> occurs_at p t s" if "kmp_exact p"
    using kmp_inv_fallback_none [OF assms(1-4), of _ 0] that assms(5) by auto
  ultimately show ?thesis
    using inv assms(2,4) by (auto simp: kmp_inv_def aligned_def intro: lines_ok_restart)
qed

lemma kmp_inv_fallback_zero:
  assumes inv: "kmp_inv p t lc0 pp tp lc" and "tp < length t" and "t ! tp \<noteq> p ! pp" and "0 < pp"
    and "t ! tp \<noteq> p ! fallback p pp" and "fallback p pp = 0"
  shows "kmp_inv p t lc0 0 (Suc tp) (lc + nlbit (t ! tp))"
proof -
  have "\<not> occurs_at p t s" if ex: "kmp_exact p" and s: "s < Suc tp" for s
  proof (cases "s = tp")
    case True
    then show ?thesis
      using assms not_occurs_first [of t tp p] order_less_trans [of 0 pp "length p"]
      by (simp add: kmp_inv_def aligned_def)
  next
    case False
    with s ex show ?thesis
      using kmp_inv_fallback_none [OF assms(1-4), of s 0] assms(5) by auto
  qed
  then show ?thesis
    using inv assms(2,4) by (auto simp: kmp_inv_def aligned_def intro: lines_ok_advance)
qed

lemmas kmp_inv_steps =
  kmp_inv_fallback_hit kmp_inv_fallback_restart kmp_inv_fallback_zero

text \<open>What the loop has established when it leaves.\<close>

definition kmp_post :: "byte list \<Rightarrow> byte list \<Rightarrow> int \<Rightarrow> bool \<Rightarrow> nat \<Rightarrow> int \<Rightarrow> bool" where
  "kmp_post p t lc0 found tp lc \<longleftrightarrow>
     lines_ok p t lc0 1 (if found then Suc tp else length t) lc \<and>
      (found \<longrightarrow> tp < length t \<and> (\<exists>s. Suc tp = s + length p \<and> occurs_at p t s \<and>
          (kmp_exact p \<longrightarrow> (\<forall>r < s. \<not> occurs_at p t r)))) \<and>
      (\<not> found \<longrightarrow> kmp_exact p \<longrightarrow> (\<forall>s. \<not> occurs_at p t s))"

lemma kmp_inv_found:
  assumes inv: "kmp_inv p t lc0 pp tp lc" and "tp < length t" and "t ! tp = p ! pp"
    and len: "Suc pp = length p"
  shows "kmp_post p t lc0 True tp (lc + nlbit (t ! tp))"
proof -
  have "aligned p t pp tp" using inv by (simp add: kmp_inv_def)
  note f = aligned_found [OF this assms(2,3) len]
  have "\<exists>s. Suc tp = s + length p \<and> occurs_at p t s \<and>
      (kmp_exact p \<longrightarrow> (\<forall>r < s. \<not> occurs_at p t r))"
    using f len inv by (intro exI [of _ "tp - pp"]) (auto simp: kmp_inv_def)
  then show ?thesis
    using inv assms(2) lines_ok_advance [of p t lc0 pp tp lc 1]
    by (simp add: kmp_post_def kmp_inv_def)
qed

lemma kmp_inv_exit:
  assumes inv: "kmp_inv p t lc0 pp tp lc" and "length t \<le> tp"
  shows "kmp_post p t lc0 False tp lc"
proof -
  have tp: "tp = length t" using assms by (simp add: kmp_inv_def aligned_def)
  have "lines_ok p t lc0 1 (length t) lc"
    using inv by (auto simp: tp kmp_inv_def lines_ok_def)
  with inv tp show ?thesis
    by (auto simp: kmp_post_def kmp_inv_def aligned_def occurs_at_def)
qed

lemma kmp_next_inv:
  assumes inv: "kmp_inv p t lc0 pp tp lc" and tp: "tp < length t"
  shows "case kmp_next p (t ! tp) pp tp (lc + nlbit (t ! tp)) of
      Found tp' lc' \<Rightarrow> kmp_post p t lc0 True tp' lc'
    | Continue pp' tp' lc' \<Rightarrow> kmp_inv p t lc0 pp' tp' lc'"
proof (cases "t ! tp = p ! pp")
  case True
  have "pp < length p" using inv by (simp add: kmp_inv_def aligned_def)
  then show ?thesis
    using kmp_inv_found [OF inv tp True] kmp_inv_hit [OF inv tp True] True
    by (simp add: kmp_next_def)
next
  case False
  show ?thesis
  proof (cases "pp = 0")
    case True
    then show ?thesis
      using kmp_inv_zero [of p t lc0 tp lc] inv tp False by (simp add: kmp_next_def)
  next
    case pp: False
    then show ?thesis
      using kmp_inv_steps [OF inv tp False] False by (simp add: kmp_next_def)
  qed
qed

text \<open>The loop on a prepared state: it runs without error and reaches its postcondition.\<close>

lemma kmp_loop_post:
  assumes rdy: "kmp_ready st" and n: "length t \<le> INT_MAX"
    and room: "lc0 + 2 * newlines t (length t) \<le> int INT_MAX"
  shows "\<exists>found tp lc. kmp_loop st t (length t) 0 0 lc0 = Inr (found, tp, lc) \<and>
           kmp_post (pattern_of st) t lc0 found tp lc"
proof (rule kmp_loop_rule [where Inv = "kmp_inv (pattern_of st) t lc0"])
  let ?p = "pattern_of st"
  note len = kmp_readyD [OF rdy]
  show "kmp_inv ?p t lc0 0 0 lc0"
    using len by (auto simp: kmp_inv_def lines_ok_def)
  show "kmp_post ?p t lc0 False tp lc" if "kmp_inv ?p t lc0 pp tp lc" "length t \<le> tp" for pp tp lc
    using that by (rule kmp_inv_exit)
  fix pp tp lc
  assume inv: "kmp_inv ?p t lc0 pp tp lc" and tp: "tp < length t"
  then have "lc + nlbit (t ! tp) \<le> int INT_MAX" "pp < k_len st"
    using lines_ok_room [OF _ tp room] len by (auto simp: kmp_inv_def aligned_def)
  then have "kmp_body st t pp tp lc = Inr (kmp_next ?p (t ! tp) pp tp (lc + nlbit (t ! tp)))"
    using rdy tp n by (intro kmp_body_ready) auto
  with kmp_next_inv [OF inv tp]
  show "\<exists>out. kmp_body st t pp tp lc = Inr out \<and>
      (case out of Found tp' lc' \<Rightarrow> kmp_post ?p t lc0 True tp' lc'
       | Continue pp' tp' lc' \<Rightarrow> kmp_inv ?p t lc0 pp' tp' lc')"
    by blast
qed

section \<open>What a call of the matcher does\<close>

text \<open>
  The text has at least \<open>n\<close> bytes, \<open>n\<close> fits an \<open>int\<close>, and the line counter cannot overflow.
\<close>

definition match_fits :: "byte list \<Rightarrow> nat \<Rightarrow> nat \<Rightarrow> bool" where
  "match_fits t n linum \<longleftrightarrow>
     n \<le> length t \<and> n \<le> INT_MAX \<and> int linum + 2 * newlines t n \<le> int INT_MAX"

lemma newlines_take: "k \<le> n \<Longrightarrow> newlines (take n t) k = newlines t k"
  by (simp add: newlines_def min_def)

lemma newlines_length: "newlines (take n t) (length (take n t)) = newlines t n"
  by (simp add: newlines_def min_def)

text \<open>The position computed in \<open>size_t\<close> arithmetic, also where the subtraction wraps around.\<close>

lemma match_position:
  assumes "Suc tp = s + m" and "0 < m" and "tp < INT_MAX" and "m \<le> INT_MAX"
  shows "u32 (szadd (szsub tp m) 1) = s"
proof (cases "s = 0")
  case True
  then have "m = Suc tp" using assms(1) by simp
  then have "szsub tp m = SIZE_MOD - 1"
    using assms by (subst szsub_wrap) (auto simp: int_limits)
  then show ?thesis
    using True by (simp add: szadd_def int_limits)
next
  case False
  then have "szsub tp m = s - 1"
    using assms by (subst szsub_small) (auto simp: int_limits)
  then show ?thesis
    using False assms by (simp add: int_limits)
qed

lemma kmp_match_cases:
  assumes rdy: "kmp_ready st" and fits: "match_fits t n linum"
  obtains tp lin where "kmp_match st t n linum = Inr (True, lin, tp)"
      "occurs_at (pattern_of st) (take n t) tp"
      "lines_ok (pattern_of st) (take n t) (int linum) 1 (tp + k_len st) (int lin)"
      "kmp_exact (pattern_of st) \<Longrightarrow> (\<forall>r < tp. \<not> occurs_at (pattern_of st) (take n t) r)"
  | lin where "kmp_match st t n linum = Inr (False, lin, U32_MOD - 1)"
      "lines_ok (pattern_of st) (take n t) (int linum) 1 n (int lin)"
      "kmp_exact (pattern_of st) \<Longrightarrow> (\<forall>r. \<not> occurs_at (pattern_of st) (take n t) r)"
proof -
  let ?p = "pattern_of st" and ?t = "take n t"
  note f = fits [unfolded match_fits_def]
  note len = kmp_readyD [OF rdy]
  have lt: "length ?t = n" using f by simp
  have lin0: "int_of_u32 linum = int linum"
    using f newlines_nonneg [of t n] by (intro int_of_u32_small) linarith
  have "int linum + 2 * newlines ?t (length ?t) \<le> int INT_MAX"
    unfolding newlines_length using f by simp
  then obtain found tp lc where loop: "kmp_loop st ?t n 0 0 (int linum) = Inr (found, tp, lc)"
    and post: "kmp_post ?p ?t (int linum) found tp lc"
    using kmp_loop_post [OF rdy, of ?t "int linum"] lt f by auto
  define lin where "lin = nat lc"
  have "lines_ok ?p ?t (int linum) 1 (if found then Suc tp else n) lc"
    using post unfolding kmp_post_def lt by (rule conjunct1)
  moreover have "newlines ?t (if found then Suc tp else n) \<le> newlines t n"
    using post lt newlines_mono [of "Suc tp" n t]
    by (auto simp: kmp_post_def newlines_take Suc_le_eq)
  ultimately have lc: "0 \<le> lc" "lc \<le> int INT_MAX"
    "lines_ok ?p ?t (int linum) 1 (if found then Suc tp else n) (int lin)"
    using f newlines_nonneg [of ?t "if found then Suc tp else n"]
    by (auto simp: lines_ok_def lin_def)
  then have "lin < U32_MOD" by (simp add: lin_def int_limits)
  then have m: "kmp_match st t n linum = Inr (found, lin,
      if found then u32 (szadd (szsub tp (k_len st)) 1) else U32_MOD - 1)"
    using loop f lc(1) lin0 u32_of_int_of_nat [of lin]
    by (simp add: kmp_match_def kmp_loop_take [of n t] lin_def)
  show thesis
  proof (cases found)
    case False
    with that(2) m lc(3) post show thesis by (simp add: kmp_post_def)
  next
    case True
    then obtain s where s: "Suc tp = s + length ?p" "occurs_at ?p ?t s" "tp < n"
        "kmp_exact ?p \<Longrightarrow> (\<forall>r < s. \<not> occurs_at ?p ?t r)"
      using post lt by (auto simp: kmp_post_def)
    have "u32 (szadd (szsub tp (k_len st)) 1) = s"
      using s len f by (intro match_position) auto
    with that(1) [of lin s] m lc(3) s True len show thesis by simp
  qed
qed

text \<open>Preparing with a fresh table and searching, as every worker thread does.\<close>

definition fresh_kmp :: kmp_state where
  "fresh_kmp = \<lparr>k_pat = [], k_len = 0, k_table = None\<rparr>"

definition memalign_ok :: "(nat \<Rightarrow> nat list option) \<Rightarrow> nat \<Rightarrow> bool" where
  "memalign_ok memalign len \<longleftrightarrow> (case memalign len of None \<Rightarrow> False | Some tab \<Rightarrow> length tab = len)"

lemma kmp_prepare_ready:
  assumes "memalign_ok memalign (length p)" and "p \<noteq> []" and "length p \<le> INT_MAX"
  obtains st where "kmp_prepare memalign p (length p) fresh_kmp = Inr st"
    "kmp_ready st" "pattern_of st = p" "k_len st = length p"
proof -
  obtain tab where "memalign (length p) = Some tab" "length tab = length p"
    using assms(1) by (auto simp: memalign_ok_def split: option.splits)
  then obtain st where st: "kmp_prepare memalign p (length p) fresh_kmp = Inr st"
      "kmp_ready st" "pattern_of st = p"
    using kmp_prepare_ok [of fresh_kmp memalign "length p" tab p] assms(2,3)
    by (auto simp: fresh_kmp_def Suc_le_eq)
  then have "k_len st = length p" using kmp_readyD(4) [of st] by simp
  with st show thesis by (rule that)
qed

section \<open>Properties\<close>

text \<open>
  C32: \<open>kmp_prepare\<close> with a fresh table never touches memory outside the pattern or the table
  and leaves in every entry the length of a border of the corresponding prefix of the pattern
  (a proper prefix of it that is also its suffix), whatever the allocated block contained.
\<close>

theorem kmp_prepare_borders:
  assumes "memalign len = Some tab" and "length tab = len"
    and "0 < len" and "len \<le> length pattern" and "len \<le> INT_MAX"
  shows "\<exists>tab'. kmp_prepare memalign pattern len fresh_kmp
             = Inr \<lparr>k_pat = pattern, k_len = len, k_table = Some tab'\<rparr> \<and>
           length tab' = len \<and> (\<forall>i<len. border pattern (Suc i) (tab' ! i))"
proof -
  have "\<exists>tab'. prepare_loop pattern len (tab[0 := 0]) 1 = Inr tab' \<and>
          length tab' = length (tab[0 := 0]) \<and> (\<forall>i<len. tab' ! i = border_table pattern i)"
    using assms by (intro prepare_loop_ok) auto
  then show ?thesis
    using assms border_table_border [of _ pattern]
    by (fastforce simp: kmp_prepare_def fresh_kmp_def)
qed

theorem kmp_prepare_borders_witness:
  "\<exists>tab'. kmp_prepare (\<lambda>n. Some [9, 9, 9]) [97, 97, 98] 3 fresh_kmp
      = Inr \<lparr>k_pat = [97, 97, 98], k_len = 3, k_table = Some tab'\<rparr> \<and>
    length tab' = 3 \<and> (\<forall>i<3. border ([97, 97, 98] :: byte list) (Suc i) (tab' ! i))"
  by (rule kmp_prepare_borders [where tab = "[9, 9, 9]"]) (simp_all add: INT_MAX_def)

text \<open>
  C12: a search with a prepared pattern runs without undefined behaviour, terminates, and a match
  it reports is an occurrence of the pattern within the \<open>text_len\<close> bytes it was given.
\<close>

theorem kmp_search_sound:
  assumes "memalign_ok memalign (length p)" and "p \<noteq> []" and "length p \<le> INT_MAX"
    and "match_fits t n linum"
  shows "\<exists>found lin pos.
           rbind (kmp_prepare memalign p (length p) fresh_kmp) (\<lambda>st. kmp_match st t n linum)
             = Inr (found, lin, pos) \<and> (found \<longrightarrow> occurs_at p (take n t) pos)"
proof -
  obtain st where st: "kmp_prepare memalign p (length p) fresh_kmp = Inr st" "kmp_ready st"
      "pattern_of st = p"
    using assms(1-3) by (rule kmp_prepare_ready)
  show ?thesis
    by (rule kmp_match_cases [OF st(2) assms(4)]) (auto simp: st)
qed

theorem kmp_search_sound_witness:
  "\<exists>found lin pos.
     rbind (kmp_prepare (\<lambda>n. Some [9, 9]) [97, 98] (length ([97, 98] :: byte list)) fresh_kmp)
       (\<lambda>st. kmp_match st [97, 97, 98] 3 1) = Inr (found, lin, pos) \<and>
     (found \<longrightarrow> occurs_at [97, 98] (take 3 ([97, 97, 98] :: byte list)) pos)"
  by (rule kmp_search_sound)
     (simp_all add: memalign_ok_def match_fits_def newlines_def newline_def INT_MAX_def)

text \<open>
  C11: for a pattern in \<open>kmp_exact\<close>, a search finds the first occurrence of the pattern when there
  is one and reports failure only when there is none.
\<close>

theorem kmp_search_first:
  assumes "memalign_ok memalign (length p)" and "p \<noteq> []" and "length p \<le> INT_MAX"
    and "match_fits t n linum" and "kmp_exact p"
  shows "\<exists>found lin pos.
           rbind (kmp_prepare memalign p (length p) fresh_kmp) (\<lambda>st. kmp_match st t n linum)
             = Inr (found, lin, pos) \<and>
           (found \<longleftrightarrow> (\<exists>i. occurs_at p (take n t) i)) \<and>
           (found \<longrightarrow> pos = (LEAST i. occurs_at p (take n t) i))"
proof -
  obtain st where st: "kmp_prepare memalign p (length p) fresh_kmp = Inr st" "kmp_ready st"
      "pattern_of st = p"
    using assms(1-3) by (rule kmp_prepare_ready)
  have least: "(LEAST i. occurs_at p (take n t) i) = s"
    if "occurs_at p (take n t) s" "\<forall>r < s. \<not> occurs_at p (take n t) r" for s
    using that by (intro Least_equality) (auto simp: not_le [symmetric])
  show ?thesis
    by (rule kmp_match_cases [OF st(2) assms(4)]) (use assms(5) least in \<open>auto simp: st\<close>)
qed

theorem kmp_search_first_witness:
  "\<exists>found lin pos.
     rbind (kmp_prepare (\<lambda>n. Some [9, 9]) [97, 98] (length ([97, 98] :: byte list)) fresh_kmp)
       (\<lambda>st. kmp_match st [97, 97, 98] 3 1) = Inr (found, lin, pos) \<and>
     (found \<longleftrightarrow> (\<exists>i. occurs_at [97, 98] (take 3 ([97, 97, 98] :: byte list)) i)) \<and>
     (found \<longrightarrow> pos = (LEAST i. occurs_at [97, 98] (take 3 ([97, 97, 98] :: byte list)) i))"
  by (rule kmp_search_first)
     (simp_all add: memalign_ok_def match_fits_def newlines_def newline_def INT_MAX_def
        kmp_exact_def border_def less_Suc_eq numeral_2_eq_2)

text \<open>
  Outside that class occurrences are missed: \<open>abaaa\<close> stands in \<open>abaabaaa\<close> at position 3, and
  the search for it reports failure.
\<close>

theorem kmp_search_misses:
  "rbind (kmp_prepare (\<lambda>n. Some [0, 0, 0, 0, 0]) (bytes ''abaaa'') 5 fresh_kmp)
      (\<lambda>st. kmp_match st (bytes ''abaabaaa'') 8 1) = Inr (False, 1, U32_MOD - 1) \<and>
   occurs_at (bytes ''abaaa'') (bytes ''abaabaaa'') 3"
  by (simp add: ceval fresh_kmp_def bytes_def occurs_at_def)

text \<open>
  C33: the line number a search returns is at least the true line number of the last byte it read
  and exceeds it by at most the number of newlines read; it is exact for a pattern whose first
  byte does not occur again in it.
\<close>

theorem kmp_search_lines:
  assumes "memalign_ok memalign (length p)" and "p \<noteq> []" and "length p \<le> INT_MAX"
    and "match_fits t n linum"
  shows "\<exists>found lin pos.
           rbind (kmp_prepare memalign p (length p) fresh_kmp) (\<lambda>st. kmp_match st t n linum)
             = Inr (found, lin, pos) \<and>
           (let seen = newlines t (if found then pos + length p else n) in
            int linum + seen \<le> int lin \<and> int lin \<le> int linum + 2 * seen \<and>
            (hd p \<notin> set (tl p) \<longrightarrow> int lin = int linum + seen))"
proof -
  obtain st where st: "kmp_prepare memalign p (length p) fresh_kmp = Inr st" "kmp_ready st"
      "pattern_of st = p" "k_len st = length p"
    using assms(1-3) by (rule kmp_prepare_ready)
  have *: "lines_ok p (take n t) (int linum) 1 k (int lin) \<Longrightarrow> k \<le> n \<Longrightarrow>
      int linum + newlines t k \<le> int lin \<and> int lin \<le> int linum + 2 * newlines t k \<and>
      (hd p \<notin> set (tl p) \<longrightarrow> int lin = int linum + newlines t k)" for k lin
    using assms(2) by (simp add: lines_ok_def no_restart_def newlines_take)
  show ?thesis
  proof (rule kmp_match_cases [OF st(2) assms(4)])
    fix tp lin
    assume m: "kmp_match st t n linum = Inr (True, lin, tp)"
      and occ: "occurs_at (pattern_of st) (take n t) tp"
      and l: "lines_ok (pattern_of st) (take n t) (int linum) 1 (tp + k_len st) (int lin)"
    have "tp + length p \<le> n" using occ st(3) by (simp add: occurs_at_def)
    with * [of "tp + length p" lin] l m show ?thesis
      by (intro exI [of _ True] exI [of _ lin] exI [of _ tp]) (simp add: st Let_def)
  next
    fix lin
    assume "kmp_match st t n linum = Inr (False, lin, U32_MOD - 1)"
      and "lines_ok (pattern_of st) (take n t) (int linum) 1 n (int lin)"
    with * [of n lin] show ?thesis
      by (intro exI [of _ False] exI [of _ lin] exI [of _ "U32_MOD - 1"]) (simp add: st Let_def)
  qed
qed

theorem kmp_search_lines_witness:
  "\<exists>found lin pos.
     rbind (kmp_prepare (\<lambda>n. Some [9, 9]) [97, 98] (length ([97, 98] :: byte list)) fresh_kmp)
       (\<lambda>st. kmp_match st [97, 10, 97, 98] 4 1) = Inr (found, lin, pos) \<and>
     (let seen = newlines [97, 10, 97, 98] (if found then pos + length ([97, 98] :: byte list) else 4) in
      int 1 + seen \<le> int lin \<and> int lin \<le> int 1 + 2 * seen \<and>
      (hd ([97, 98] :: byte list) \<notin> set (tl [97, 98]) \<longrightarrow> int lin = int 1 + seen))"
  by (rule kmp_search_lines)
     (simp_all add: memalign_ok_def match_fits_def newlines_def newline_def INT_MAX_def)

text \<open>
  A newline at which the search restarts is counted twice: in the text \<open>aa\<close>, newline, \<open>aab\<close>
  the pattern \<open>aab\<close> stands on line 2, and the search that starts at line 1 reports line 3.
\<close>

theorem kmp_search_double_count:
  "rbind (kmp_prepare (\<lambda>n. Some [0, 0, 0]) (bytes ''aab'') 3 fresh_kmp)
      (\<lambda>st. kmp_match st (bytes ''aa'' @ [newline] @ bytes ''aab'') 6 1) = Inr (True, 3, 3) \<and>
   newlines (bytes ''aa'' @ [newline] @ bytes ''aab'') (3 + 3) = 1"
  by (simp add: ceval fresh_kmp_def bytes_def newlines_def)

text \<open>
  \<open>kmp_prepare\<close> writes past the table whenever the table it uses has fewer entries than the
  pattern has bytes, or none at all: that is what happens for the empty pattern, and when it is
  called again for a longer pattern while the table of an earlier call is still allocated.
\<close>

theorem kmp_prepare_overruns:
  assumes "case k_table st of None \<Rightarrow> memalign len = Some tab | Some tab0 \<Rightarrow> tab = tab0"
    and "length tab < max 1 len" and "len \<le> length pattern" and "len \<le> INT_MAX"
  shows "kmp_prepare memalign pattern len st = Inl OutOfBounds"
proof (cases "tab = []")
  case True
  with assms(1) show ?thesis by (auto simp: kmp_prepare_def wr_def split: option.splits)
next
  case False
  then have "length tab < len"
    using assms(2) by (cases tab) (auto simp: max_def split: if_splits)
  then have "prepare_loop pattern len (tab[0 := 0]) 1 = Inl OutOfBounds"
    using assms(3,4) False by (intro prepare_loop_overrun) (auto simp: Suc_le_eq)
  with False assms(1) show ?thesis by (auto simp: kmp_prepare_def split: option.splits)
qed

theorem kmp_prepare_overruns_witness:
  "kmp_prepare (\<lambda>n. None) [97, 98, 99] 3 \<lparr>k_pat = [97], k_len = 1, k_table = Some [0]\<rparr>
     = Inl OutOfBounds"
  by (rule kmp_prepare_overruns [where tab = "[0]"]) (simp_all add: INT_MAX_def)

end
