(* ===== verification/Scan.thy ===== *)
theory Scan
  imports Match
begin

text \<open>
  Searching a whole file: the successive calls of \<open>kmp_match\<close> in the worker's inner loop
  (\<open>src/src/thread.c\<close>, \<open>while (1)\<close> around line 114), each starting behind the match before.

  The matcher is used through the locale \<open>matcher\<close>, which states what one search promises; the
  lemmas about the sequence of searches are proved from it once and \<open>kmp_match\<close> is its instance.
  The reference definition is \<open>greedy\<close>, the leftmost non-overlapping occurrences.
\<close>

section \<open>The sequence of searches\<close>

text \<open>
  \<open>scans srch t n patlen s lin ms\<close>: the loop entered with \<open>startpos = s\<close> and \<open>linum = lin\<close> finds the
  matches \<open>ms\<close>, each with its position in the file and the line number reported for it, and ends.
\<close>

inductive scans ::
  "(byte list \<Rightarrow> nat \<Rightarrow> nat \<Rightarrow> (bool \<times> nat \<times> nat) res) \<Rightarrow> byte list \<Rightarrow> nat \<Rightarrow> nat \<Rightarrow>
    nat \<Rightarrow> nat \<Rightarrow> (nat \<times> nat) list \<Rightarrow> bool"
  for srch t n patlen where
  scan_end: "srch (drop s t) (szsub n s) lin = Inr (False, lin', pos) \<Longrightarrow>
    scans srch t n patlen s lin []"
| scan_hit: "srch (drop s t) (szsub n s) lin = Inr (True, lin', pos) \<Longrightarrow>
    scans srch t n patlen (u32 (s + u32 (pos + patlen))) lin' ms \<Longrightarrow>
    scans srch t n patlen s lin ((u32 (pos + s), lin') # ms)"

inductive_cases scans_NilE: "scans srch t n patlen s lin []"
inductive_cases scans_ConsE: "scans srch t n patlen s lin (m # ms)"

section \<open>What the matches are\<close>

text \<open>
  Occurrences in order, none overlapping the one before, with the lines counted from \<open>l\<close>: newlines
  may be counted twice, or exactly once.
\<close>

definition counted :: "bool \<Rightarrow> byte list \<Rightarrow> nat \<Rightarrow> nat \<Rightarrow> nat \<Rightarrow> bool" where
  "counted lin_exact t k l lin \<longleftrightarrow>
     int l + newlines t k \<le> int lin \<and> int lin \<le> int l + 2 * newlines t k \<and>
     (lin_exact \<longrightarrow> int lin = int l + newlines t k)"

lemma counted_le: "counted le t k l lin \<Longrightarrow> l \<le> lin"
  using newlines_nonneg [of t k] unfolding counted_def by linarith

lemma newlines_add: "newlines t (i + j) = newlines t i + newlines (drop i t) j"
  by (simp add: newlines_def take_add)

lemma counted_add:
  assumes "counted le t i k l" and "counted le (drop i t) j l m"
  shows "counted le t (i + j) k m"
  using assms newlines_add [of t i j] by (auto simp: counted_def)

fun match_chain :: "bool \<Rightarrow> byte list \<Rightarrow> byte list \<Rightarrow> nat \<Rightarrow> nat \<Rightarrow> (nat \<times> nat) list \<Rightarrow> bool" where
  "match_chain lin_exact p t s l [] \<longleftrightarrow> True"
| "match_chain lin_exact p t s l ((pos, lin) # ms) \<longleftrightarrow>
     s \<le> pos \<and> occurs_at p t pos \<and> lin \<le> INT_MAX \<and>
     counted lin_exact (drop s t) (pos + length p - s) l lin \<and>
     match_chain lin_exact p t (pos + length p) lin ms"

function greedy :: "'a list \<Rightarrow> 'a list \<Rightarrow> nat \<Rightarrow> nat list" where
  "greedy p t s =
     (if p \<noteq> [] \<and> s + length p \<le> length t then
        if occurs_at p t s then s # greedy p t (s + length p) else greedy p t (Suc s)
      else [])"
  by pat_completeness auto
termination
  by (relation "measure (\<lambda>(p, t, s). length t - s)") (auto simp: neq_Nil_conv)

declare greedy.simps [simp del]

lemma greedy_hit:
  assumes "p \<noteq> []" and "occurs_at p t pos" and "s \<le> pos"
    and "\<And>r. s \<le> r \<Longrightarrow> r < pos \<Longrightarrow> \<not> occurs_at p t r"
  shows "greedy p t s = pos # greedy p t (pos + length p)"
  using assms(3,4)
proof (induction "pos - s" arbitrary: s)
  case 0
  then have "s = pos" by simp
  with assms(1,2) show ?case by (subst greedy.simps) (auto simp: occurs_at_def)
next
  case (Suc d)
  then have "\<not> occurs_at p t s" "s + length p \<le> length t"
    using assms(2) by (auto simp: occurs_at_def)
  moreover have "greedy p t (Suc s) = pos # greedy p t (pos + length p)"
    using Suc by (intro Suc.hyps(1)) auto
  ultimately show ?case using assms(1) by (subst greedy.simps) simp
qed

lemma greedy_none:
  assumes "\<And>r. s \<le> r \<Longrightarrow> \<not> occurs_at p t r"
  shows "greedy p t s = []"
  using assms
proof (induction p t s rule: greedy.induct)
  case (1 p t s)
  then show ?case by (subst greedy.simps) auto
qed

text \<open>The line of a match counted from the beginning of the file.\<close>

lemma match_chain_lines:
  assumes "match_chain le p t s l ms" and "counted le t s l0 l" and "(pos, lin) \<in> set ms"
  shows "counted le t (pos + length p) l0 lin"
  using assms
proof (induction ms arbitrary: s l)
  case (Cons m ms)
  obtain q k where m: "m = (q, k)" by (cases m)
  have "counted le t (q + length p) l0 k"
    using Cons.prems(1) counted_add [OF Cons.prems(2), of "q + length p - s" k] by (simp add: m)
  with Cons show ?case by (auto simp: m)
qed simp

lemma match_chain_occurs: "match_chain le p t s l ms \<Longrightarrow> (pos, lin) \<in> set ms \<Longrightarrow> occurs_at p t pos \<and> l \<le> lin \<and> lin \<le> INT_MAX"
  by (induction le p t s l ms rule: match_chain.induct) (auto dest: counted_le)

lemma match_chain_count:
  "match_chain le p t s l ms \<Longrightarrow> p \<noteq> [] \<Longrightarrow> length ms \<le> length t - s"
proof (induction le p t s l ms rule: match_chain.induct)
  case (2 le p t s l pos lin ms)
  then have "length ms \<le> length t - (pos + length p)" "pos < pos + length p"
    "pos + length p \<le> length t" "s \<le> pos"
    using occurs_at_bounds [of p t pos] by auto
  then show ?case unfolding list.size by linarith
qed simp

section \<open>The contract of a matcher\<close>

text \<open>
  \<open>srch m t n lin\<close> searches the first \<open>n\<close> bytes of \<open>t\<close> and counts lines from \<open>lin\<close>.  An \<open>exact\<close>
  matcher finds the first occurrence, a \<open>linear\<close> one counts every newline once.
\<close>

locale matcher =
  fixes srch :: "'m \<Rightarrow> byte list \<Rightarrow> nat \<Rightarrow> nat \<Rightarrow> (bool \<times> nat \<times> nat) res"
    and ready :: "'m \<Rightarrow> bool" and pat :: "'m \<Rightarrow> byte list"
    and fits :: "byte list \<Rightarrow> nat \<Rightarrow> nat \<Rightarrow> bool"
    and exact :: "'m \<Rightarrow> bool" and linear :: "'m \<Rightarrow> bool"
  assumes pat_nonempty: "ready m \<Longrightarrow> pat m \<noteq> []"
    and fits_bound: "fits t n lin \<Longrightarrow> n \<le> length t \<and> n \<le> INT_MAX \<and> lin \<le> INT_MAX"
    and find_total: "ready m \<Longrightarrow> fits t n lin \<Longrightarrow> \<exists>found lin' pos. srch m t n lin = Inr (found, lin', pos)"
    and find_hit: "ready m \<Longrightarrow> fits t n lin \<Longrightarrow> srch m t n lin = Inr (True, lin', pos) \<Longrightarrow>
      occurs_at (pat m) (take n t) pos \<and> counted (linear m) t (pos + length (pat m)) lin lin' \<and>
      (exact m \<longrightarrow> (\<forall>r<pos. \<not> occurs_at (pat m) (take n t) r)) \<and>
      fits (drop (pos + length (pat m)) t) (n - (pos + length (pat m))) lin'"
    and find_miss: "ready m \<Longrightarrow> fits t n lin \<Longrightarrow> srch m t n lin = Inr (False, lin', pos) \<Longrightarrow>
      exact m \<Longrightarrow> \<not> occurs_at (pat m) (take n t) r"
begin

text \<open>A search that starts at offset \<open>s\<close> of the file, in terms of the whole file.\<close>

lemma occurs_shift:
  assumes "n \<le> length t" and "s \<le> n"
  shows "occurs_at p (take (n - s) (drop s t)) r \<longleftrightarrow> occurs_at p (take n t) (s + r)"
proof -
  have "take (n - s) (drop s t) = drop s (take n t)" by (simp add: drop_take)
  then show ?thesis using occurs_at_drop [of s "take n t"] assms by simp
qed

lemma hit_at:
  assumes rdy: "ready m" and n: "n \<le> length t" and s: "s \<le> n" and fits: "fits (drop s t) (n - s) lin"
    and f: "srch m (drop s t) (n - s) lin = Inr (True, lin', pos)"
  shows "occurs_at (pat m) (take n t) (s + pos)"
    and "s < s + pos + length (pat m)" and "s + pos + length (pat m) \<le> n"
    and "fits (drop (s + pos + length (pat m)) t) (n - (s + pos + length (pat m))) lin'"
    and "counted (linear m) (drop s (take n t)) (pos + length (pat m)) lin lin'"
    and "exact m \<Longrightarrow> s \<le> r \<Longrightarrow> r < s + pos \<Longrightarrow> \<not> occurs_at (pat m) (take n t) r"
proof -
  note hit = find_hit [OF rdy fits f]
  show occ: "occurs_at (pat m) (take n t) (s + pos)" using hit occurs_shift [OF n s] by simp
  show le: "s + pos + length (pat m) \<le> n" using occurs_at_bounds(1) [OF occ] n by simp
  show "s < s + pos + length (pat m)" using pat_nonempty [OF rdy] by simp
  show "fits (drop (s + pos + length (pat m)) t) (n - (s + pos + length (pat m))) lin'"
    using hit by (simp add: ac_simps)
  have "newlines (drop s (take n t)) (pos + length (pat m)) = newlines (drop s t) (pos + length (pat m))"
    using newlines_take [of "pos + length (pat m)" "n - s" "drop s t"] le by (simp add: drop_take)
  then show "counted (linear m) (drop s (take n t)) (pos + length (pat m)) lin lin'"
    using hit by (simp add: counted_def)
  show "\<not> occurs_at (pat m) (take n t) r" if "exact m" "s \<le> r" "r < s + pos"
    using hit that occurs_shift [OF n s, of "pat m" "r - s"] by auto
qed

lemma scan_all:
  assumes rdy: "ready m" and n: "n \<le> length t" "n \<le> INT_MAX" and s: "s \<le> n"
    and fits: "fits (drop s t) (n - s) lin"
  shows "\<exists>ms. scans (srch m) t n (length (pat m)) s lin ms \<and>
           match_chain (linear m) (pat m) (take n t) s lin ms \<and>
           (exact m \<longrightarrow> map fst ms = greedy (pat m) (take n t) s)"
  using s fits
proof (induction "n - s" arbitrary: s lin rule: less_induct)
  case less
  let ?p = "pat m" and ?t = "take n t"
  have sub: "szsub n s = n - s" using less.prems n by (simp add: int_limits)
  obtain found lin' pos where f: "srch m (drop s t) (n - s) lin = Inr (found, lin', pos)"
    using find_total [OF rdy less.prems(2)] by blast
  show ?case
  proof (cases found)
    case False
    then have "\<not> occurs_at ?p ?t r" if "exact m" "s \<le> r" for r
      using find_miss [OF rdy less.prems(2), of lin' pos "r - s"] f occurs_shift [OF n(1) less.prems(1), of ?p "r - s"]
        that by simp
    then have "exact m \<longrightarrow> greedy ?p ?t s = []" using greedy_none by blast
    then show ?thesis
      using scans.scan_end [of "srch m" s t n lin lin' pos] f False sub by (intro exI [of _ "[]"]) simp
  next
    case True
    with f have f': "srch m (drop s t) (n - s) lin = Inr (True, lin', pos)" by simp
    note hit = hit_at [OF rdy n(1) less.prems f']
    let ?s = "s + pos + length ?p"
    obtain ms where ms: "scans (srch m) t n (length ?p) ?s lin' ms" "match_chain (linear m) ?p ?t ?s lin' ms"
      "exact m \<longrightarrow> map fst ms = greedy ?p ?t ?s"
      using less.hyps [OF _ hit(3,4)] hit(2,3) by (meson diff_less_mono2 order_less_le_trans)
    have u: "u32 (s + u32 (pos + length ?p)) = ?s" "u32 (pos + s) = s + pos"
      using hit(3) n by (simp_all add: int_limits)
    have "scans (srch m) t n (length ?p) s lin ((s + pos, lin') # ms)"
      using scans.scan_hit [of "srch m" s t n lin lin' pos "length ?p" ms] f' sub ms(1) by (simp add: u)
    moreover have "match_chain (linear m) ?p ?t s lin ((s + pos, lin') # ms)"
      using hit(1,5) ms(2) fits_bound [OF hit(4)] by (simp add: add.assoc)
    moreover have "exact m \<longrightarrow> greedy ?p ?t s = (s + pos) # greedy ?p ?t ?s"
      using greedy_hit [OF pat_nonempty [OF rdy] hit(1) le_add1] hit(6) by blast
    ultimately show ?thesis using ms(3) by (intro exI [of _ "(s + pos, lin') # ms"]) simp
  qed
qed

end

section \<open>The instance\<close>

lemma match_fits_next:
  assumes "match_fits t n lin" and "k \<le> n" and "int lin' \<le> int lin + 2 * newlines t k"
  shows "match_fits (drop k t) (n - k) lin'"
  using assms newlines_add [of t k "n - k"] by (auto simp: match_fits_def)

lemma kmp_match_hit:
  assumes rdy: "kmp_ready m" and fits: "match_fits t n lin"
    and f: "kmp_match m t n lin = Inr (True, lin', pos)"
  shows "occurs_at (pattern_of m) (take n t) pos \<and>
      counted (no_restart (pattern_of m)) t (pos + length (pattern_of m)) lin lin' \<and>
      (kmp_exact (pattern_of m) \<longrightarrow> (\<forall>r<pos. \<not> occurs_at (pattern_of m) (take n t) r)) \<and>
      match_fits (drop (pos + length (pattern_of m)) t) (n - (pos + length (pattern_of m))) lin'"
proof (rule kmp_match_cases [OF rdy fits])
  fix tp l
  let ?k = "tp + length (pattern_of m)"
  assume a: "kmp_match m t n lin = Inr (True, l, tp)" "occurs_at (pattern_of m) (take n t) tp"
    "lines_ok (pattern_of m) (take n t) (int lin) 1 (tp + k_len m) (int l)"
    "kmp_exact (pattern_of m) \<Longrightarrow> (\<forall>r < tp. \<not> occurs_at (pattern_of m) (take n t) r)"
  have k: "?k \<le> n" using a(2) by (simp add: occurs_at_def)
  have l: "int lin + newlines t ?k \<le> int l" "int l \<le> int lin + 2 * newlines t ?k"
    "no_restart (pattern_of m) \<longrightarrow> int l = int lin + newlines t ?k"
    using a(3) k kmp_readyD(4) [OF rdy] by (auto simp: lines_ok_def newlines_take)
  then have "counted (no_restart (pattern_of m)) t ?k lin l" by (simp add: counted_def)
  with a f l match_fits_next [OF fits k l(2)] show ?thesis by simp
qed (use f in simp)

interpretation kmp: matcher kmp_match kmp_ready pattern_of match_fits
  "\<lambda>m. kmp_exact (pattern_of m)" "\<lambda>m. no_restart (pattern_of m)"
proof
  fix m t n lin lin' pos r
  show "kmp_ready m \<Longrightarrow> pattern_of m \<noteq> []"
    using kmp_readyD [of m] by auto
  show "match_fits t n lin \<Longrightarrow> n \<le> length t \<and> n \<le> INT_MAX \<and> lin \<le> INT_MAX"
    using newlines_nonneg [of t n] unfolding match_fits_def by linarith
  show "\<exists>found lin' pos. kmp_match m t n lin = Inr (found, lin', pos)"
    if "kmp_ready m" "match_fits t n lin"
    by (rule kmp_match_cases [OF that]) blast+
  show "\<not> occurs_at (pattern_of m) (take n t) r"
    if "kmp_ready m" "match_fits t n lin" "kmp_match m t n lin = Inr (False, lin', pos)"
      "kmp_exact (pattern_of m)"
    by (rule kmp_match_cases [OF that(1,2)]) (use that(3,4) in auto)
qed (rule kmp_match_hit)

end
