(* ===== verification/Buffer.thy ===== *)
theory Buffer
  imports Prelude
begin

text \<open>
  The result buffer of \<open>src/src/buffer.c\<close>: the thread-local \<open>buf\<close>, \<open>cap\<close> and \<open>off\<close>, the growing
  of the block and the functions that append to it: \<open>write_buffer\<close>, \<open>writef_buffer\<close>,
  \<open>writeline_buffer\<close>, \<open>writeline_color_buffer\<close> and \<open>amendline_color_buffer\<close>.

  The invariant \<open>buf_inv\<close> says that the block holds the text written so far, of length \<open>off\<close>,
  followed by zeros up to \<open>cap\<close>, and that \<open>cap\<close> is the default size doubled some number of
  times.  Under it every operation refines "append to the text" (locale \<open>append_sink\<close>).
\<close>

section \<open>Blocks of memory\<close>

text \<open>
  \<open>memset\<close>, \<open>memcpy\<close> and \<open>strcpy\<close> on the bytes of one block.  \<open>c_memcpy\<close> copies from another
  object, \<open>c_memcpy_in\<close> and \<open>c_strcpy_in\<close> within the same block, where overlapping source and
  destination are undefined.
\<close>

definition overlay :: "byte list \<Rightarrow> nat \<Rightarrow> byte list \<Rightarrow> byte list" where
  "overlay b d xs = take d b @ xs @ drop (d + length xs) b"

definition c_memset :: "byte list option \<Rightarrow> nat \<Rightarrow> nat \<Rightarrow> byte \<Rightarrow> byte list res" where
  "c_memset p d n v =
     (case p of None \<Rightarrow> Inl NullDeref
      | Some b \<Rightarrow> if d + n \<le> length b then Inr (overlay b d (replicate n v)) else Inl OutOfBounds)"

definition c_memcpy :: "byte list option \<Rightarrow> nat \<Rightarrow> byte list \<Rightarrow> nat \<Rightarrow> nat \<Rightarrow> byte list res" where
  "c_memcpy p d src s n =
     (case p of None \<Rightarrow> Inl NullDeref
      | Some b \<Rightarrow>
          if d + n \<le> length b \<and> s + n \<le> length src then Inr (overlay b d (take n (drop s src)))
          else Inl OutOfBounds)"

definition c_memcpy_in :: "byte list option \<Rightarrow> nat \<Rightarrow> nat \<Rightarrow> nat \<Rightarrow> byte list res" where
  "c_memcpy_in p d s n =
     (case p of None \<Rightarrow> Inl NullDeref
      | Some b \<Rightarrow>
          if \<not> (d + n \<le> length b \<and> s + n \<le> length b) then Inl OutOfBounds
          else if 0 < n \<and> d < s + n \<and> s < d + n then Inl Overlap
          else Inr (overlay b d (take n (drop s b))))"

definition c_strlen :: "byte list option \<Rightarrow> nat \<Rightarrow> nat res" where
  "c_strlen p s =
     (case p of None \<Rightarrow> Inl NullDeref
      | Some b \<Rightarrow>
          if 0 \<in> set (drop s b) then Inr (length (takeWhile (\<lambda>c. c \<noteq> 0) (drop s b)))
          else Inl OutOfBounds)"

definition c_strcpy_in :: "byte list option \<Rightarrow> nat \<Rightarrow> nat \<Rightarrow> byte list res" where
  "c_strcpy_in p d s = rbind (c_strlen p s) (\<lambda>n. c_memcpy_in p d s (Suc n))"

section \<open>State and operations\<close>

record bufst =
  b_buf :: "byte list option"    \<comment> \<open>\<open>buf\<close>, \<open>None\<close> for \<open>NULL\<close>\<close>
  b_cap :: nat                   \<comment> \<open>\<open>cap\<close>\<close>
  b_off :: nat                   \<comment> \<open>\<open>off\<close>\<close>
  b_lim :: nat                   \<comment> \<open>the largest block the allocator can deliver\<close>
  b_junk :: byte                 \<comment> \<open>what fresh memory contains\<close>

definition DEFAULT_SIZE :: nat where
  "DEFAULT_SIZE = 4096"

definition c_realloc :: "bufst \<Rightarrow> nat \<Rightarrow> byte list option" where
  "c_realloc st n =
     (let old = (case b_buf st of None \<Rightarrow> [] | Some b \<Rightarrow> b) in
      if n \<le> b_lim st then Some (take n old @ replicate (n - length old) (b_junk st)) else None)"

text \<open>The loop of \<open>buffer_grow\<close>; \<open>None\<close> when it never ends.\<close>

partial_function (option) grow_cap :: "nat \<Rightarrow> nat \<Rightarrow> nat option" where
  "grow_cap newcap need =
     (if newcap < need then grow_cap (szadd newcap newcap) need else Some newcap)"

definition buffer_grow :: "nat \<Rightarrow> bufst \<Rightarrow> bufst res" where
  "buffer_grow len st =
     rbind (case grow_cap (b_cap st) (szadd len (b_off st)) of
              None \<Rightarrow> Inl NoReturn | Some newcap \<Rightarrow> Inr newcap) (\<lambda>newcap.
     rbind (c_memset (c_realloc st newcap) (b_off st) (szsub newcap (b_off st)) 0) (\<lambda>b.
     Inr (st\<lparr>b_buf := Some b, b_cap := newcap\<rparr>)))"

definition init_buffer :: "bufst \<Rightarrow> bufst res" where
  "init_buffer st =
     rbind (c_memset (c_realloc st DEFAULT_SIZE) 0 DEFAULT_SIZE 0) (\<lambda>b.
     Inr (st\<lparr>b_buf := Some b, b_cap := DEFAULT_SIZE, b_off := 0\<rparr>))"

text \<open>The test every writing function starts with.\<close>

definition reserve :: "nat \<Rightarrow> bufst \<Rightarrow> bufst res" where
  "reserve n st = (if b_cap st < szadd (b_off st) n then buffer_grow n st else Inr st)"

definition write_buffer :: "byte list \<Rightarrow> nat \<Rightarrow> bufst \<Rightarrow> (nat \<times> bufst) res" where
  "write_buffer content len st =
     rbind (reserve len st) (\<lambda>st1.
     rbind (c_memcpy (b_buf st1) (b_off st1) content 0 len) (\<lambda>b.
     Inr (len, st1\<lparr>b_buf := Some b, b_off := szadd (b_off st1) len\<rparr>)))"

definition read_buffer :: "bufst \<Rightarrow> byte list option" where
  "read_buffer st = b_buf st"

definition destroy_buffer :: "bufst \<Rightarrow> bufst" where
  "destroy_buffer st = st\<lparr>b_buf := None, b_cap := 0, b_off := 0\<rparr>"

definition reset_buffer :: "bufst \<Rightarrow> bufst res" where
  "reset_buffer st = init_buffer st"

text \<open>\<open>sprintf\<close> with one \<open>uint32_t\<close> argument: \<open>%u\<close> may occur once, \<open>%%\<close> is a percent sign.\<close>

fun dec_digits :: "nat \<Rightarrow> byte list" where
  "dec_digits n =
     (if n < 10 then [of_nat (48 + n)] else dec_digits (n div 10) @ [of_nat (48 + n mod 10)])"

declare dec_digits.simps [simp del]

fun sprintf_u32 :: "byte list \<Rightarrow> nat option \<Rightarrow> byte list res" where
  "sprintf_u32 [] arg = Inr []"
| "sprintf_u32 [c] arg = (if c = 37 then Inl BadFormat else Inr [c])"
| "sprintf_u32 (c # d # fmt) arg =
     (if c = 37 then
        if d = 37 then rbind (sprintf_u32 fmt arg) (\<lambda>s. Inr (37 # s))
        else if d = 117 then
          (case arg of None \<Rightarrow> Inl BadFormat
           | Some v \<Rightarrow> rbind (sprintf_u32 fmt None) (\<lambda>s. Inr (dec_digits v @ s)))
        else Inl BadFormat
      else rbind (sprintf_u32 (d # fmt) arg) (\<lambda>s. Inr (c # s)))"

text \<open>The text and its terminator have to fit the local \<open>str[512]\<close>.\<close>

definition writef_buffer :: "byte list \<Rightarrow> nat \<Rightarrow> bufst \<Rightarrow> (nat \<times> bufst) res" where
  "writef_buffer format arg st =
     rbind (sprintf_u32 format (Some arg)) (\<lambda>s.
     rbind (guard (length s < 512) OutOfBounds) (\<lambda>_.
     rbind (write_buffer s (length s) st) (\<lambda>(n, st1). Inr (length s, st1))))"

text \<open>
  The scan for the end of a line: from \<open>i\<close> while \<open>i < n\<close> and the byte at \<open>s + i\<close> is none of
  \<open>stops\<close>.
\<close>

function scan_line :: "byte set \<Rightarrow> byte list \<Rightarrow> nat \<Rightarrow> nat \<Rightarrow> nat \<Rightarrow> nat res" where
  "scan_line stops content s n i =
     (if i < n then
        rbind (rd content (s + i)) (\<lambda>c.
        if c \<in> stops then Inr i
        else rbind (inc_nat i) (\<lambda>i'. scan_line stops content s n i'))
      else Inr i)"
  by pat_completeness auto
termination
  by (relation "measure (\<lambda>(stops, content, s, n, i). n - i)") (auto simp: inc_nat_eq_Inr_iff)

declare scan_line.simps [simp del]

definition writeline_buffer :: "byte list \<Rightarrow> nat \<Rightarrow> bufst \<Rightarrow> (nat \<times> bufst) res" where
  "writeline_buffer content len st =
     rbind (reserve len st) (\<lambda>st1.
     rbind (scan_line {newline} content 0 len 0) (\<lambda>i.
     rbind (c_memcpy (b_buf st1) (b_off st1) content 0 i) (\<lambda>b.
     Inr (i, st1\<lparr>b_buf := Some b, b_off := szadd (b_off st1) i\<rparr>))))"

definition hili_color :: "byte list" where
  "hili_color = 27 # bytes ''[48;5;220m'' @ 27 # bytes ''[30;22m''"

definition reset_color :: "byte list" where
  "reset_color = 27 # bytes ''[0m''"

text \<open>\<open>sizeof(HILI_COLOR)\<close> counts the terminator.\<close>

definition HILI_SIZE :: nat where
  "HILI_SIZE = Suc (length hili_color)"

definition writeline_color_buffer ::
  "byte list \<Rightarrow> nat \<Rightarrow> nat \<Rightarrow> nat \<Rightarrow> bufst \<Rightarrow> (nat \<times> bufst) res" where
  "writeline_color_buffer content len off1 colorlen st =
     rbind (reserve (szadd (szadd len HILI_SIZE) 3) st) (\<lambda>st1.
     let bufferend = b_off st1;
         hilitoken = bufferend + off1;
         patstart = hilitoken + HILI_SIZE - 1;
         hiliend = patstart + colorlen;
         reststr = hiliend + 4;
         restctnt = off1 + colorlen
     in
     rbind (c_memcpy (b_buf st1) bufferend content 0 off1) (\<lambda>b1.
     rbind (c_memcpy (Some b1) hilitoken hili_color 0 (HILI_SIZE - 1)) (\<lambda>b2.
     rbind (c_memcpy (Some b2) patstart content off1 colorlen) (\<lambda>b3.
     rbind (c_memcpy (Some b3) hiliend reset_color 0 4) (\<lambda>b4.
     rbind (scan_line {newline, 0} content restctnt (szsub (szsub len off1) colorlen) 0) (\<lambda>i.
     rbind (c_memcpy (Some b4) reststr content restctnt i) (\<lambda>b5.
     Inr (reststr - bufferend + i,
          st1\<lparr>b_buf := Some b5,
              b_off := szadd (b_off st1) (u32 (u32 (reststr - bufferend) + i))\<rparr>))))))))"

definition amendline_color_buffer ::
  "nat \<Rightarrow> nat \<Rightarrow> nat \<Rightarrow> nat \<Rightarrow> bufst \<Rightarrow> (nat \<times> bufst) res" where
  "amendline_color_buffer lastlen off1 colorlen cnt st =
     rbind (reserve (HILI_SIZE + 3) st) (\<lambda>st1.
     rbind (guard (lastlen \<le> b_off st1) OutOfBounds) (\<lambda>_.
     let amendstart = b_off st1 - lastlen + off1 + cnt * (HILI_SIZE + 3);
         amendend = amendstart + colorlen;
         restline = amendend + HILI_SIZE + 3
     in
     rbind (c_strcpy_in (b_buf st1) restline amendend) (\<lambda>b1.
     rbind (c_memcpy_in (Some b1) (amendstart + HILI_SIZE - 1) amendstart colorlen) (\<lambda>b2.
     rbind (c_memcpy (Some b2) amendstart hili_color 0 (HILI_SIZE - 1)) (\<lambda>b3.
     rbind (c_memcpy (Some b3) (amendstart + HILI_SIZE - 1 + colorlen) reset_color 0 4) (\<lambda>b4.
     Inr (HILI_SIZE + 3,
          st1\<lparr>b_buf := Some b4, b_off := szadd (b_off st1) (HILI_SIZE + 3)\<rparr>)))))))"

section \<open>Overlays and line scans\<close>

lemma length_overlay [simp]: "d + length xs \<le> length b \<Longrightarrow> length (overlay b d xs) = length b"
  by (simp add: overlay_def)

lemma overlay_Nil [simp]: "overlay b d [] = b"
  by (simp add: overlay_def)

text \<open>Two copies side by side are one copy.\<close>

lemma overlay_overlay:
  assumes "d + length xs + length ys \<le> length b" and "e = d + length xs"
  shows "overlay (overlay b d xs) e ys = overlay b d (xs @ ys)"
  using assms by (simp add: overlay_def ac_simps)

lemma overlay_zeros:
  assumes "length xs \<le> m"
  shows "overlay (t @ replicate m 0) (length t) xs = t @ xs @ replicate (m - length xs) 0"
  using assms by (simp add: overlay_def)

lemma c_memcpy_Some:
  "d + n \<le> length b \<Longrightarrow> s + n \<le> length src \<Longrightarrow>
    c_memcpy (Some b) d src s n = Inr (overlay b d (take n (drop s src)))"
  by (simp add: c_memcpy_def)

text \<open>The bytes a line scan passes over.\<close>

definition line_part :: "byte set \<Rightarrow> byte list \<Rightarrow> nat \<Rightarrow> nat \<Rightarrow> byte list" where
  "line_part stops content s n = takeWhile (\<lambda>c. c \<notin> stops) (take n (drop s content))"

lemma scan_line_from:
  assumes "i \<le> L" and "L \<le> n" and "L \<le> INT_MAX"
    and "\<And>j. i \<le> j \<Longrightarrow> j < L \<Longrightarrow> s + j < length content \<and> content ! (s + j) \<notin> stops"
    and "L = n \<or> (s + L < length content \<and> content ! (s + L) \<in> stops)"
  shows "scan_line stops content s n i = Inr L"
  using assms
proof (induction stops content s n i rule: scan_line.induct)
  case (1 stops content s n i)
  show ?case
  proof (cases "i = L")
    case True
    with "1.prems" show ?thesis by (subst scan_line.simps) auto
  next
    case False
    then have i: "i < L" "i < n" "s + i < length content" "content ! (s + i) \<notin> stops" "i < INT_MAX"
      using "1.prems" by auto
    then have "scan_line stops content s n (Suc i) = Inr L"
      using "1.prems" by (intro "1.IH") auto
    with i show ?thesis by (subst scan_line.simps) simp
  qed
qed

text \<open>A scan stays inside the content when the content is long enough or holds a stop.\<close>

definition line_readable :: "byte set \<Rightarrow> byte list \<Rightarrow> nat \<Rightarrow> nat \<Rightarrow> bool" where
  "line_readable stops content s n \<longleftrightarrow>
     s + n \<le> length content \<or> (\<exists>c \<in> set (drop s content). c \<in> stops)"

lemma scan_line_ok:
  assumes "line_readable stops content s n" and "n \<le> INT_MAX"
  shows "scan_line stops content s n 0 = Inr (length (line_part stops content s n))"
proof -
  let ?L = "length (line_part stops content s n)"
  have L: "?L \<le> n" "?L \<le> length (drop s content)"
    using length_takeWhile_le [of _ "take n (drop s content)"] by (auto simp: line_part_def)
  have pass: "s + j < length content \<and> content ! (s + j) \<notin> stops" if "j < ?L" for j
  proof -
    have "line_part stops content s n ! j = take n (drop s content) ! j"
      using that unfolding line_part_def by (rule takeWhile_nth)
    moreover have "line_part stops content s n ! j \<notin> stops"
      using nth_mem [OF that] unfolding line_part_def by (auto dest: set_takeWhileD)
    ultimately show ?thesis using that L by auto
  qed
  have "s + ?L < length content \<and> content ! (s + ?L) \<in> stops" if "?L \<noteq> n"
  proof -
    have len: "?L < length (take n (drop s content))"
    proof (rule ccontr)
      assume neg: "\<not> ?thesis"
      then have short: "length (drop s content) < n"
        using that L length_takeWhile_le [of "\<lambda>c. c \<notin> stops" "take n (drop s content)"]
        by (auto simp: line_part_def)
      then have "c \<notin> stops" if "c \<in> set (drop s content)" for c
        using neg that takeWhile_full [of "take n (drop s content)" "\<lambda>c. c \<notin> stops" c]
        by (auto simp: line_part_def)
      with short show False using assms(1) by (auto simp: line_readable_def)
    qed
    then have "take n (drop s content) ! ?L \<in> stops"
      using nth_length_takeWhile [of "\<lambda>c. c \<notin> stops" "take n (drop s content)"]
      by (simp add: line_part_def)
    moreover have "s + ?L < length content" "?L < n" using len by auto
    ultimately show ?thesis by (simp add: nth_drop)
  qed
  with pass L assms(2) show ?thesis by (intro scan_line_from) auto
qed

section \<open>The invariant of the buffer\<close>

definition buf_text :: "bufst \<Rightarrow> byte list" where
  "buf_text st = (case b_buf st of None \<Rightarrow> [] | Some b \<Rightarrow> take (b_off st) b)"

definition buf_inv :: "bufst \<Rightarrow> bool" where
  "buf_inv st \<longleftrightarrow>
     (\<exists>k. b_cap st = DEFAULT_SIZE * 2 ^ k) \<and> b_off st \<le> b_cap st \<and> b_cap st \<le> b_lim st \<and>
     b_lim st < SIZE_MOD \<and> length (buf_text st) = b_off st \<and>
     b_buf st = Some (buf_text st @ replicate (b_cap st - b_off st) 0)"

text \<open>The allocator can deliver twice the space that \<open>n\<close> more bytes need.\<close>

definition buf_fits :: "nat \<Rightarrow> bufst \<Rightarrow> bool" where
  "buf_fits n st \<longleftrightarrow> 2 * (b_off st + n) \<le> b_lim st"

text \<open>The contract of a write: the state after it holds the old text followed by \<open>xs\<close>.\<close>

definition appended :: "bufst \<Rightarrow> byte list \<Rightarrow> bufst \<Rightarrow> bool" where
  "appended st xs st' \<longleftrightarrow>
     buf_inv st' \<and> buf_text st' = buf_text st @ xs \<and> b_lim st' = b_lim st"

lemma buf_invD:
  assumes "buf_inv st"
  shows "b_off st \<le> b_cap st" "b_cap st \<le> b_lim st" "b_lim st < SIZE_MOD"
    "length (buf_text st) = b_off st"
    "b_buf st = Some (buf_text st @ replicate (b_cap st - b_off st) 0)" "0 < b_cap st"
  using assms by (auto simp: buf_inv_def DEFAULT_SIZE_def)

lemma appended_trans:
  "appended st xs st1 \<Longrightarrow> appended st1 ys st2 \<Longrightarrow> appended st (xs @ ys) st2"
  by (simp add: appended_def)

lemma appended_fits:
  assumes "buf_inv st" and "appended st xs st'" and "buf_fits (length xs + n) st"
  shows "buf_fits n st'"
  using assms by (auto simp: appended_def buf_fits_def buf_invD(4) [symmetric])

subsection \<open>Growing\<close>

lemma grow_cap_doubles:
  assumes "0 < c" and "2 * need \<le> SIZE_MOD"
  shows "\<exists>k. grow_cap c need = Some (c * 2 ^ k) \<and> need \<le> c * 2 ^ k \<and>
           (k = 0 \<or> c * 2 ^ (k - 1) < need)"
  using assms(1)
proof (induction "need - c" arbitrary: c rule: less_induct)
  case less
  show ?case
  proof (cases "c < need")
    case False
    then show ?thesis by (intro exI [of _ 0]) (simp add: grow_cap.simps)
  next
    case True
    then have dbl: "szadd c c = 2 * c" using assms(2) by (simp add: szadd_small)
    have shrink: "need - 2 * c < need - c" using True less.prems by arith
    obtain k where k: "grow_cap (2 * c) need = Some (2 * c * 2 ^ k)" "need \<le> 2 * c * 2 ^ k"
      "k = 0 \<or> 2 * c * 2 ^ (k - 1) < need"
      using less.hyps [of "2 * c"] less.prems shrink by auto
    have "c * 2 ^ k < need" using k(3) True by (cases k) simp_all
    with k True dbl show ?thesis by (intro exI [of _ "Suc k"]) (simp add: grow_cap.simps)
  qed
qed

text \<open>From an empty block the doubling makes no progress.\<close>

lemma grow_cap_zero: "0 < need \<Longrightarrow> grow_cap 0 need = None"
proof (rule ccontr)
  assume "0 < need" and "grow_cap 0 need \<noteq> None"
  then obtain n where n: "grow_cap 0 need = Some n" by auto
  have "c = 0 \<longrightarrow> need' = need \<longrightarrow> False" if "grow_cap c need' = Some r" for c need' r
    using that
  proof (rule grow_cap.raw_induct [rotated])
    fix g newcap need' r
    assume IH: "\<And>newcap need' r. g newcap need' = Some r \<Longrightarrow> newcap = 0 \<longrightarrow> need' = need \<longrightarrow> False"
      and "(if newcap < need' then g (szadd newcap newcap) need' else Some newcap) = Some r"
    then show "newcap = 0 \<longrightarrow> need' = need \<longrightarrow> False"
      using \<open>0 < need\<close> by (auto simp: szadd_def split: if_splits)
  qed
  with n show False by blast
qed

lemma realloc_inv:
  assumes "buf_inv st" and "b_cap st \<le> n" and "n \<le> b_lim st"
  shows "c_realloc st n =
    Some (buf_text st @ replicate (b_cap st - b_off st) 0 @ replicate (n - b_cap st) (b_junk st))"
  using assms buf_invD [OF assms(1)] unfolding c_realloc_def Let_def by (auto simp: min_def)

lemma memset_tail:
  assumes "d = length t" and "n = length r"
  shows "c_memset (Some (t @ r)) d n v = Inr (t @ replicate n v)"
  using assms by (simp add: c_memset_def overlay_def)

lemma buffer_grow_ok:
  assumes inv: "buf_inv st" and fits: "buf_fits n st"
  obtains k st1 where "buffer_grow n st = Inr st1" and "b_cap st1 = b_cap st * 2 ^ k"
    and "b_off st + n \<le> b_cap st1" and "k = 0 \<or> b_cap st * 2 ^ (k - 1) < b_off st + n"
    and "b_off st1 = b_off st" and "appended st [] st1"
proof -
  note D = buf_invD [OF inv]
  have small: "2 * (b_off st + n) < SIZE_MOD" using fits D by (simp add: buf_fits_def)
  then have need: "szadd n (b_off st) = b_off st + n" by (simp add: szadd_small)
  obtain k where k: "grow_cap (b_cap st) (b_off st + n) = Some (b_cap st * 2 ^ k)"
    "b_off st + n \<le> b_cap st * 2 ^ k" "k = 0 \<or> b_cap st * 2 ^ (k - 1) < b_off st + n"
    using grow_cap_doubles [of "b_cap st" "b_off st + n"] D small by auto
  let ?c = "b_cap st * 2 ^ k"
  have lim: "?c \<le> b_lim st"
    using k(3) D fits by (cases k) (auto simp: buf_fits_def)
  have le: "b_cap st \<le> ?c" by simp
  define st1 where
    "st1 = st\<lparr>b_buf := Some (buf_text st @ replicate (?c - b_off st) 0), b_cap := ?c\<rparr>"
  have "c_memset (c_realloc st ?c) (b_off st) (?c - b_off st) 0
          = Inr (buf_text st @ replicate (?c - b_off st) 0)"
    using realloc_inv [OF inv le lim] D le by (simp add: memset_tail)
  moreover have "szsub ?c (b_off st) = ?c - b_off st"
    using D(1,3) lim le by (intro szsub_small) linarith+
  ultimately have eq: "buffer_grow n st = Inr st1"
    using need k(1) by (simp add: buffer_grow_def st1_def)
  have txt_eq: "buf_text st1 = buf_text st"
    unfolding buf_text_def [of st1] by (simp add: st1_def D(4))
  obtain j where "b_cap st = DEFAULT_SIZE * 2 ^ j" using inv by (auto simp: buf_inv_def)
  then have "\<exists>j. ?c = DEFAULT_SIZE * 2 ^ j"
    by (intro exI [of _ "j + k"]) (simp add: power_add)
  then have "appended st [] st1"
    unfolding appended_def buf_inv_def txt_eq using D(1-4) lim order_trans [OF D(1) le]
    by (simp add: st1_def)
  with eq k show thesis by (intro that [of st1 k]) (simp_all add: st1_def)
qed

lemma reserve_ok:
  assumes inv: "buf_inv st" and fits: "buf_fits n st"
  obtains st1 where "reserve n st = Inr st1" and "b_off st + n \<le> b_cap st1"
    and "b_off st1 = b_off st" and "appended st [] st1"
proof (cases "b_cap st < b_off st + n")
  case True
  have "szadd (b_off st) n = b_off st + n"
    using fits buf_invD [OF inv] by (simp add: szadd_small buf_fits_def)
  with True show thesis
    using buffer_grow_ok [OF inv fits] that by (simp add: reserve_def) metis
next
  case False
  have "szadd (b_off st) n = b_off st + n"
    using fits buf_invD [OF inv] by (simp add: szadd_small buf_fits_def)
  with False inv show thesis
    by (intro that [of st]) (auto simp: reserve_def appended_def)
qed

text \<open>Copying \<open>xs\<close> behind the text of a block that has room for it appends \<open>xs\<close>.\<close>

lemma put_text:
  assumes inv: "buf_inv st" and room: "b_off st + length xs \<le> b_cap st"
    and b: "b = overlay (buf_text st @ replicate (b_cap st - b_off st) 0) (b_off st) xs"
  shows "appended st xs (st\<lparr>b_buf := Some b, b_off := szadd (b_off st) (length xs)\<rparr>)"
proof -
  note D = buf_invD [OF inv]
  let ?st = "st\<lparr>b_buf := Some b, b_off := szadd (b_off st) (length xs)\<rparr>"
  have off: "szadd (b_off st) (length xs) = b_off st + length xs"
    using room D by (simp add: szadd_small)
  have eq: "b = buf_text st @ xs @ replicate (b_cap st - b_off st - length xs) 0"
    using overlay_zeros [of xs "b_cap st - b_off st" "buf_text st"] D(4) room b by simp
  have len: "b_off st + length xs = length (buf_text st @ xs)" using D(4) by simp
  have txt_eq: "buf_text ?st = buf_text st @ xs"
    unfolding buf_text_def [of ?st] by (simp add: off eq D(4))
  have "\<exists>k. b_cap st = DEFAULT_SIZE * 2 ^ k" using inv by (simp add: buf_inv_def)
  then show ?thesis
    unfolding appended_def buf_inv_def txt_eq using room D(2,3,4) by (simp add: off eq)
qed

subsection \<open>The writing functions append\<close>

lemma appended_Nil_trans: "appended st [] st1 \<Longrightarrow> appended st1 xs st2 \<Longrightarrow> appended st xs st2"
  using appended_trans by fastforce

lemma write_buffer_ok:
  assumes inv: "buf_inv st" and fits: "buf_fits len st" and len: "len \<le> length content"
  obtains st' where "write_buffer content len st = Inr (len, st')"
    and "appended st (take len content) st'"
proof -
  obtain st1 where st1: "reserve len st = Inr st1" "b_off st + len \<le> b_cap st1"
    "b_off st1 = b_off st" "appended st [] st1"
    by (rule reserve_ok [OF inv fits])
  then have inv1: "buf_inv st1" by (simp add: appended_def)
  note D = buf_invD [OF inv1]
  let ?b = "overlay (buf_text st1 @ replicate (b_cap st1 - b_off st1) 0) (b_off st1) (take len content)"
  have "c_memcpy (b_buf st1) (b_off st1) content 0 len = Inr ?b"
    unfolding D(5) using st1 D(4) len by (subst c_memcpy_Some) simp_all
  moreover have "appended st1 (take len content)
      (st1\<lparr>b_buf := Some ?b, b_off := szadd (b_off st1) (length (take len content))\<rparr>)"
    using st1 len by (intro put_text [OF inv1]) auto
  ultimately show thesis
    using st1 len by (intro that) (auto simp: write_buffer_def intro: appended_Nil_trans)
qed

lemma writef_buffer_ok:
  assumes inv: "buf_inv st" and s: "sprintf_u32 format (Some arg) = Inr s" and "length s < 512"
    and fits: "buf_fits (length s) st"
  obtains st' where "writef_buffer format arg st = Inr (length s, st')" and "appended st s st'"
proof -
  obtain st' where "write_buffer s (length s) st = Inr (length s, st')" "appended st (take (length s) s) st'"
    using write_buffer_ok [OF inv fits order_refl] by blast
  with assms(2,3) show thesis by (intro that [of st']) (simp_all add: writef_buffer_def)
qed

text \<open>A line that does not end within the content is read past its end.\<close>

lemma scan_line_overrun:
  assumes "i \<le> length content - s" and "s \<le> length content" and "length content < s + n"
    and "length content \<le> INT_MAX" and "\<And>c. c \<in> set (drop s content) \<Longrightarrow> c \<notin> stops"
  shows "scan_line stops content s n i = Inl OutOfBounds"
  using assms
proof (induction stops content s n i rule: scan_line.induct)
  case (1 stops content s n i)
  show ?case
  proof (cases "s + i < length content")
    case False
    with "1.prems" show ?thesis by (subst scan_line.simps) (simp add: rd_def)
  next
    case True
    then have "content ! (s + i) \<in> set (drop s content)"
      by (metis add.commute in_set_conv_nth length_drop less_diff_conv nth_drop le_add1 order.strict_implies_order order.strict_trans1)
    then have c: "content ! (s + i) \<notin> stops" using "1.prems" by blast
    have i: "i < n" "i < INT_MAX" using True "1.prems" by linarith+
    have "scan_line stops content s n (Suc i) = Inl OutOfBounds"
      using "1.prems" True c i by (intro "1.IH") auto
    with True c i show ?thesis by (subst scan_line.simps) simp
  qed
qed

lemma line_part_take: "line_part stops content s n = take (length (line_part stops content s n)) (drop s content)"
proof -
  have "line_part stops content s n = take (length (line_part stops content s n)) (take n (drop s content))"
    unfolding line_part_def by (rule takeWhile_eq_take)
  moreover have "length (line_part stops content s n) \<le> n"
    unfolding line_part_def using length_takeWhile_le [of _ "take n (drop s content)"] by simp
  ultimately show ?thesis by (metis min.absorb1 take_take)
qed

lemma line_part_length:
  shows "length (line_part stops content s n) \<le> n"
    and "s \<le> length content \<Longrightarrow> s + length (line_part stops content s n) \<le> length content"
proof -
  have "length (line_part stops content s n) \<le> min (length content - s) n"
    unfolding line_part_def
    using length_takeWhile_le [of "\<lambda>c. c \<notin> stops" "take n (drop s content)"] by simp
  then show "length (line_part stops content s n) \<le> n"
    and "s \<le> length content \<Longrightarrow> s + length (line_part stops content s n) \<le> length content"
    by linarith+
qed

lemma writeline_buffer_ok:
  assumes inv: "buf_inv st" and fits: "buf_fits len st" and "line_readable {newline} content 0 len"
    and "len \<le> INT_MAX"
  obtains st' where
    "writeline_buffer content len st = Inr (length (line_part {newline} content 0 len), st')"
    and "appended st (line_part {newline} content 0 len) st'"
proof -
  let ?l = "line_part {newline} content 0 len"
  obtain st1 where st1: "reserve len st = Inr st1" "b_off st + len \<le> b_cap st1"
    "b_off st1 = b_off st" "appended st [] st1"
    by (rule reserve_ok [OF inv fits])
  then have inv1: "buf_inv st1" by (simp add: appended_def)
  note D = buf_invD [OF inv1]
  have scan: "scan_line {newline} content 0 len 0 = Inr (length ?l)"
    by (rule scan_line_ok) fact+
  have l: "take (length ?l) content = ?l" "length ?l \<le> len" "length ?l \<le> length content"
    using line_part_take [of "{newline}" content 0 len] line_part_length [where content = content and s = 0]
    by simp_all
  let ?b = "overlay (buf_text st1 @ replicate (b_cap st1 - b_off st1) 0) (b_off st1) ?l"
  have "c_memcpy (b_buf st1) (b_off st1) content 0 (length ?l) = Inr ?b"
    unfolding D(5) using st1 D(4) l by (subst c_memcpy_Some) simp_all
  moreover have "appended st1 ?l (st1\<lparr>b_buf := Some ?b, b_off := szadd (b_off st1) (length ?l)\<rparr>)"
    using st1 l by (intro put_text [OF inv1]) auto
  ultimately show thesis
    using st1 l scan by (intro that) (auto simp: writeline_buffer_def intro: appended_Nil_trans)
qed

text \<open>
  What \<open>writeline_color_buffer\<close> appends: the line up to the match, the colour code, the match, the
  reset code and the rest of the line.
\<close>

definition color_line :: "byte list \<Rightarrow> nat \<Rightarrow> nat \<Rightarrow> nat \<Rightarrow> byte list" where
  "color_line content len off1 colorlen =
     take off1 content @ hili_color @ take colorlen (drop off1 content) @ reset_color @
     line_part {newline, 0} content (off1 + colorlen) (len - off1 - colorlen)"

lemma color_sizes: "length hili_color = 19" "length reset_color = 4" "HILI_SIZE = 20"
  by (simp_all add: hili_color_def reset_color_def HILI_SIZE_def)

text \<open>The five copies of \<open>writeline_color_buffer\<close> behind the first \<open>o'\<close> bytes of a block.\<close>

lemma color_copies:
  fixes content blk :: "byte list" and o' off1 colorlen n :: nat
  defines "rest \<equiv> line_part {newline, 0} content (off1 + colorlen) n"
  defines "all \<equiv> take off1 content @ hili_color @ take colorlen (drop off1 content) @ reset_color @ rest"
  assumes span: "off1 + colorlen \<le> length content" and room: "o' + length all \<le> length blk"
  shows "rbind (c_memcpy (Some blk) o' content 0 off1) (\<lambda>b1.
         rbind (c_memcpy (Some b1) (o' + off1) hili_color 0 19) (\<lambda>b2.
         rbind (c_memcpy (Some b2) (o' + off1 + 19) content off1 colorlen) (\<lambda>b3.
         rbind (c_memcpy (Some b3) (o' + off1 + 19 + colorlen) reset_color 0 4) (\<lambda>b4.
         c_memcpy (Some b4) (o' + off1 + 19 + colorlen + 4) content (off1 + colorlen) (length rest)))))
       = Inr (overlay blk o' all)"
proof -
  let ?a = "take off1 content" and ?p = "take colorlen (drop off1 content)"
  define b1 where "b1 = overlay blk o' ?a"
  define b2 where "b2 = overlay b1 (o' + off1) hili_color"
  define b3 where "b3 = overlay b2 (o' + off1 + 19) ?p"
  define b4 where "b4 = overlay b3 (o' + off1 + 19 + colorlen) reset_color"
  have lens: "length ?a = off1" "length ?p = colorlen" using span by auto
  have room': "o' + off1 + 19 + colorlen + 4 + length rest \<le> length blk"
    using room lens by (simp add: all_def color_sizes)
  have l: "take (length rest) (drop (off1 + colorlen) content) = rest"
    "off1 + colorlen + length rest \<le> length content"
    using line_part_take [of "{newline, 0}" content "off1 + colorlen" n]
      line_part_length(2) [OF span] by (simp_all add: rest_def)
  have lb: "length b1 = length blk" "length b2 = length blk" "length b3 = length blk"
    "length b4 = length blk"
    using room' lens by (simp_all add: b1_def b2_def b3_def b4_def color_sizes)
  have fin: "overlay b4 (o' + off1 + 19 + colorlen + 4) rest = overlay blk o' all"
    unfolding b4_def b3_def b2_def b1_def all_def using room' lens
    by (simp add: overlay_overlay color_sizes)
  have "c_memcpy (Some blk) o' content 0 off1 = Inr b1"
    "c_memcpy (Some b1) (o' + off1) hili_color 0 19 = Inr b2"
    "c_memcpy (Some b2) (o' + off1 + 19) content off1 colorlen = Inr b3"
    "c_memcpy (Some b3) (o' + off1 + 19 + colorlen) reset_color 0 4 = Inr b4"
    "c_memcpy (Some b4) (o' + off1 + 19 + colorlen + 4) content (off1 + colorlen) (length rest) =
      Inr (overlay blk o' all)"
    using room' lb span l fin
    by (simp_all add: c_memcpy_Some b1_def b2_def b3_def b4_def color_sizes)
  then show ?thesis by simp
qed

lemma writeline_color_buffer_ok:
  assumes inv: "buf_inv st" and fits: "buf_fits (len + 23) st"
    and span: "off1 + colorlen \<le> len" "off1 + colorlen \<le> length content" "len \<le> INT_MAX"
    and rest: "line_readable {newline, 0} content (off1 + colorlen) (len - off1 - colorlen)"
  obtains st' where "writeline_color_buffer content len off1 colorlen st =
      Inr (length (color_line content len off1 colorlen), st')"
    and "appended st (color_line content len off1 colorlen) st'"
proof -
  let ?r = "off1 + colorlen" and ?n = "len - off1 - colorlen"
  let ?l = "line_part {newline, 0} content ?r ?n"
  let ?all = "color_line content len off1 colorlen"
  obtain st1 where st1: "reserve (len + 23) st = Inr st1" "b_off st + (len + 23) \<le> b_cap st1"
    "b_off st1 = b_off st" "appended st [] st1"
    by (rule reserve_ok [OF inv fits])
  then have inv1: "buf_inv st1" by (simp add: appended_def)
  note D = buf_invD [OF inv1]
  have scan: "scan_line {newline, 0} content ?r ?n 0 = Inr (length ?l)"
    using rest span by (intro scan_line_ok) auto
  have all_len: "length ?all = off1 + 19 + colorlen + 4 + length ?l"
    using span(2) by (simp add: color_line_def color_sizes)
  have l: "length ?l \<le> ?n" by (rule line_part_length)
  have room: "b_off st1 + length ?all \<le> b_cap st1"
    using st1(2,3) all_len l span(1) by simp
  let ?blk = "buf_text st1 @ replicate (b_cap st1 - b_off st1) 0"
  have "b_off st1 + length ?all \<le> length ?blk" using room D(4) by simp
  note copies = color_copies [OF span(2) this [unfolded color_line_def], folded color_line_def]
  let ?st' = "st1\<lparr>b_buf := Some (overlay ?blk (b_off st1) ?all), b_off := szadd (b_off st1) (length ?all)\<rparr>"
  have app: "appended st1 ?all ?st'"
    by (rule put_text [OF inv1 room refl])
  have sizes: "szadd (szadd len 20) 3 = len + 23" "szsub (szsub len off1) colorlen = ?n"
    "u32 (u32 (off1 + 19 + colorlen + 4) + length ?l) = length ?all"
    using span l all_len by (simp_all add: int_limits)
  have "writeline_color_buffer content len off1 colorlen st =
      rbind (Inr (overlay ?blk (b_off st1) ?all)) (\<lambda>b.
        Inr (length ?all, st1\<lparr>b_buf := Some b, b_off := szadd (b_off st1) (length ?all)\<rparr>))"
    unfolding copies [symmetric] writeline_color_buffer_def Let_def color_sizes sizes(1) st1(1) rbind_Inr
      rbind_assoc D(5)
    using scan sizes all_len by (simp add: ac_simps)
  then have "writeline_color_buffer content len off1 colorlen st = Inr (length ?all, ?st')"
    by simp
  with app st1(4) show thesis by (intro that) (auto intro: appended_Nil_trans)
qed

lemma writeline_color_overread:
  assumes inv: "buf_inv st" and fits: "buf_fits (len + 23) st"
    and span: "off1 + colorlen \<le> len" "off1 + colorlen \<le> length content" "len \<le> INT_MAX"
    and open_end: "length content < len" "\<And>c. c \<in> set (drop (off1 + colorlen) content) \<Longrightarrow> c \<notin> {newline, 0}"
  shows "writeline_color_buffer content len off1 colorlen st = Inl OutOfBounds"
proof -
  let ?r = "off1 + colorlen" and ?n = "len - off1 - colorlen"
  obtain st1 where st1: "reserve (len + 23) st = Inr st1" "b_off st + (len + 23) \<le> b_cap st1"
    "b_off st1 = b_off st" "appended st [] st1"
    by (rule reserve_ok [OF inv fits])
  then have inv1: "buf_inv st1" by (simp add: appended_def)
  note D = buf_invD [OF inv1]
  let ?blk = "buf_text st1 @ replicate (b_cap st1 - b_off st1) 0"
  have "b_off st1 + length (take off1 content @ hili_color @ take colorlen (drop off1 content) @
      reset_color @ line_part {newline, 0} content ?r 0) \<le> length ?blk"
    using st1 span D(1,4) line_part_length(1) [of "{newline, 0}" content ?r 0] by (simp add: color_sizes)
  from color_copies [OF span(2) this]
  obtain b1 b2 b3 b4 where
    "c_memcpy (Some ?blk) (b_off st1) content 0 off1 = Inr b1"
    "c_memcpy (Some b1) (b_off st1 + off1) hili_color 0 19 = Inr b2"
    "c_memcpy (Some b2) (b_off st1 + off1 + 19) content off1 colorlen = Inr b3"
    "c_memcpy (Some b3) (b_off st1 + off1 + 19 + colorlen) reset_color 0 4 = Inr b4"
    by (auto simp: rbind_eq_Inr_iff)
  moreover have "scan_line {newline, 0} content ?r ?n 0 = Inl OutOfBounds"
    using span open_end by (intro scan_line_overrun) auto
  moreover have "szadd (szadd len 20) 3 = len + 23" "szsub (szsub len off1) colorlen = ?n"
    using span by (simp_all add: int_limits)
  ultimately show ?thesis
    unfolding writeline_color_buffer_def Let_def color_sizes using st1(1) D(5) by (simp add: ac_simps)
qed

subsection \<open>Amending the last line\<close>

lemma overlay_commute:
  assumes "d + length xs \<le> e" and "e + length ys \<le> length b"
  shows "overlay (overlay b e ys) d xs = overlay (overlay b d xs) e ys"
proof -
  obtain m where e: "e = d + length xs + m" using assms(1) le_Suc_ex by blast
  have "b = take (d + length xs + m + length ys) b @ drop (d + length xs + m + length ys) b"
    by simp
  then have "\<exists>A B C D E. b = A @ B @ C @ D @ E \<and> length A = d \<and> length B = length xs \<and>
      length C = m \<and> length D = length ys"
    using assms(2) unfolding take_add e
    by (intro exI [of _ "take d b"] exI conjI) (assumption | simp)+
  then obtain A B C D E where "b = A @ B @ C @ D @ E" "length A = d" "length B = length xs"
    "length C = m" "length D = length ys"
    by blast
  then show ?thesis by (simp add: overlay_def e)
qed

lemma c_memcpy_in_Some:
  "d + n \<le> length b \<Longrightarrow> s + n \<le> length b \<Longrightarrow> n = 0 \<or> s + n \<le> d \<or> d + n \<le> s \<Longrightarrow>
    c_memcpy_in (Some b) d s n = Inr (overlay b d (take n (drop s b)))"
  by (auto simp: c_memcpy_in_def)

lemma strlen_at:
  assumes "0 \<notin> set r" and "s = length t"
  shows "c_strlen (Some (t @ r @ 0 # z)) s = Inr (length r)"
proof -
  have "takeWhile (\<lambda>c. c \<noteq> 0) (r @ 0 # z) = r"
    using assms(1) by (subst takeWhile_append2) auto
  with assms(2) show ?thesis by (simp add: c_strlen_def)
qed

text \<open>
  The four copies of \<open>amendline_color_buffer\<close> on a block \<open>t @ p @ r\<close> with its terminator and room
  for the two codes.
\<close>

lemma amend_copies:
  fixes t p r z :: "byte list"
  defines "blk \<equiv> t @ p @ r @ 0 # replicate 23 0 @ z"
  assumes short: "length p \<le> 19" "length r \<le> 22" and nul: "0 \<notin> set r"
  shows "rbind (c_strcpy_in (Some blk) (length t + length p + 23) (length t + length p)) (\<lambda>b1.
         rbind (c_memcpy_in (Some b1) (length t + 19) (length t) (length p)) (\<lambda>b2.
         rbind (c_memcpy (Some b2) (length t) hili_color 0 19) (\<lambda>b3.
         c_memcpy (Some b3) (length t + 19 + length p) reset_color 0 4)))
       = Inr (t @ hili_color @ p @ reset_color @ r @ 0 # z)"
proof -
  let ?as = "length t" and ?cl = "length p" and ?tail = "r @ [0 :: byte]"
  let ?rl = "?as + ?cl + 23"
  let ?b1 = "overlay blk ?rl ?tail"
  let ?b2 = "overlay ?b1 (?as + 19) p"
  let ?b3 = "overlay ?b2 ?as hili_color"
  let ?b4 = "overlay ?b3 (?as + 19 + ?cl) reset_color"
  have "c_strlen (Some blk) (?as + ?cl) = Inr (length r)"
    using strlen_at [of r "?as + ?cl" "t @ p"] nul unfolding blk_def by simp
  moreover have "c_memcpy_in (Some blk) ?rl (?as + ?cl) (Suc (length r)) = Inr ?b1"
    unfolding blk_def using short by (subst c_memcpy_in_Some) simp_all
  ultimately have cp1: "c_strcpy_in (Some blk) ?rl (?as + ?cl) = Inr ?b1"
    by (simp add: c_strcpy_in_def)
  have t1: "take ?cl (drop ?as ?b1) = p" by (simp add: overlay_def blk_def)
  have lens: "length ?b1 = length blk" "length ?b2 = length blk" "length ?b3 = length blk"
    "?rl + Suc (length r) \<le> length blk"
    by (simp_all add: color_sizes blk_def)
  have cp2: "c_memcpy_in (Some ?b1) (?as + 19) ?as ?cl = Inr ?b2"
    using short lens by (subst c_memcpy_in_Some) (simp_all add: t1)
  have cp3: "c_memcpy (Some ?b2) ?as hili_color 0 19 = Inr ?b3"
    using lens by (subst c_memcpy_Some) (simp_all add: color_sizes)
  have cp4: "c_memcpy (Some ?b3) (?as + 19 + ?cl) reset_color 0 4 = Inr ?b4"
    using lens by (subst c_memcpy_Some) (simp_all add: color_sizes)
  have "?b3 = overlay ?b1 ?as (hili_color @ p)"
    using lens by (subst overlay_commute) (simp_all add: overlay_overlay color_sizes)
  then have "?b4 = overlay ?b1 ?as (hili_color @ p @ reset_color)"
    using lens by (simp add: overlay_overlay color_sizes)
  also have "\<dots> = overlay blk ?as (hili_color @ p @ reset_color @ ?tail)"
    using lens by (subst overlay_commute) (simp_all add: overlay_overlay color_sizes)
  also have "\<dots> = t @ hili_color @ p @ reset_color @ r @ 0 # z"
    by (simp add: overlay_def color_sizes blk_def)
  finally show ?thesis using cp1 cp2 cp3 cp4 by simp
qed

text \<open>The text is \<open>t @ p @ r\<close>: the pattern \<open>p\<close> to highlight, \<open>r\<close> what stands behind it.\<close>

lemma amendline_color_buffer_ok:
  assumes inv: "buf_inv st" and tx: "buf_text st = t @ p @ r"
    and start: "b_off st - lastlen + off1 + cnt * 23 = length t" "lastlen \<le> b_off st"
    and short: "length p \<le> 19" "length r \<le> 22" and nul: "0 \<notin> set r"
    and room: "b_off st + 23 < b_cap st"
  obtains st' where "amendline_color_buffer lastlen off1 (length p) cnt st = Inr (23, st')"
    and "buf_inv st'" and "buf_text st' = t @ hili_color @ p @ reset_color @ r"
proof -
  note D = buf_invD [OF inv]
  define m where "m = b_cap st - b_off st - 24"
  have off: "b_off st = length t + length p + length r" using D(4) tx by simp
  have zeros: "replicate (b_cap st - b_off st) 0 = 0 # replicate 23 0 @ replicate m (0 :: byte)"
    using room by (simp add: m_def replicate_add [symmetric] replicate_Suc [symmetric] del: replicate_Suc)
  have blk: "b_buf st = Some (t @ p @ r @ 0 # replicate 23 0 @ replicate m 0)"
    using D(5) unfolding zeros tx by simp
  have res: "reserve (20 + 3) st = Inr st"
    using room D by (simp add: reserve_def szadd_small)
  define b where "b = t @ hili_color @ p @ reset_color @ r @ 0 # replicate m 0"
  define st' where "st' = st\<lparr>b_buf := Some b, b_off := b_off st + 23\<rparr>"
  have from_code: "b_off st - lastlen + off1 + cnt * (20 + 3) = length t" using start by simp
  have "szadd (b_off st) 23 = b_off st + 23" using room D(2,3) by (simp add: szadd_small)
  then have "amendline_color_buffer lastlen off1 (length p) cnt st =
      rbind (Inr b) (\<lambda>b4. Inr (23, st\<lparr>b_buf := Some b4, b_off := b_off st + 23\<rparr>))"
    unfolding amendline_color_buffer_def Let_def color_sizes res rbind_Inr from_code
      b_def amend_copies [OF short nul, symmetric] rbind_assoc blk
    using start(2) by (simp add: ac_simps)
  then have eq: "amendline_color_buffer lastlen off1 (length p) cnt st = Inr (23, st')"
    by (simp add: st'_def)
  have tx': "buf_text st' = t @ hili_color @ p @ reset_color @ r"
    by (simp add: buf_text_def st'_def b_def off color_sizes)
  have "b_cap st - (b_off st + 23) = Suc m" using room by (simp add: m_def)
  then have "b_buf st' = Some (buf_text st' @ replicate (b_cap st' - b_off st') 0)"
    unfolding tx' by (simp add: st'_def b_def)
  moreover have "\<exists>k. b_cap st = DEFAULT_SIZE * 2 ^ k" using inv by (simp add: buf_inv_def)
  ultimately have "buf_inv st'"
    unfolding buf_inv_def tx' using room D(2,3) by (simp add: st'_def off color_sizes)
  with eq tx' show thesis by (intro that)
qed

subsection \<open>Initialising, and numbers\<close>

lemma init_buffer_ok:
  assumes "DEFAULT_SIZE \<le> b_lim st" and "b_lim st < SIZE_MOD"
  obtains st' where "init_buffer st = Inr st'" and "buf_inv st'" and "buf_text st' = []"
    and "b_lim st' = b_lim st" and "b_off st' = 0"
proof -
  obtain blk where blk: "c_realloc st DEFAULT_SIZE = Some blk" "length blk = DEFAULT_SIZE"
    using assms(1) by (auto simp: c_realloc_def Let_def split: option.split)
  let ?st = "st\<lparr>b_buf := Some (replicate DEFAULT_SIZE 0), b_cap := DEFAULT_SIZE, b_off := 0\<rparr>"
  have "init_buffer st = Inr ?st"
    using blk by (simp add: init_buffer_def c_memset_def overlay_def)
  moreover have "buf_inv ?st"
    using assms by (auto simp: buf_inv_def buf_text_def intro: exI [of _ 0])
  ultimately show thesis by (intro that [of ?st]) (simp_all add: buf_text_def)
qed

lemma reset_buffer_ok:
  assumes "buf_inv st"
  obtains st' where "reset_buffer st = Inr st'" and "buf_inv st'" and "buf_text st' = []"
    and "b_lim st' = b_lim st"
proof -
  obtain k where "b_cap st = DEFAULT_SIZE * 2 ^ k" using assms by (auto simp: buf_inv_def)
  moreover have "DEFAULT_SIZE * 1 \<le> DEFAULT_SIZE * 2 ^ k" by (intro mult_le_mono2) simp
  ultimately have "DEFAULT_SIZE \<le> b_lim st" using buf_invD(2) [OF assms] by linarith
  from init_buffer_ok [OF this buf_invD(3) [OF assms]] show thesis
    using that unfolding reset_buffer_def by blast
qed

lemma unat_digit: "d < 10 \<Longrightarrow> unat (of_nat (48 + d) :: byte) = 48 + d"
  by (simp add: unat_of_nat del: of_nat_add)

lemma dec_value_digits: "dec_value (dec_digits n) = n"
proof (induction n rule: dec_digits.induct)
  case (1 n)
  have d: "n mod 10 < 10" by simp
  show ?case
  proof (cases "n < 10")
    case True
    then show ?thesis by (simp add: dec_digits.simps [of n] dec_value_def unat_digit [OF True] del: of_nat_add)
  next
    case False
    then have "dec_value (dec_digits n) = 10 * dec_value (dec_digits (n div 10)) + n mod 10"
      by (simp add: dec_digits.simps [of n] dec_value_def unat_digit [OF d] del: of_nat_add)
    with 1 False show ?thesis by simp
  qed
qed

lemma dec_digits_length: "n < 10 ^ Suc k \<Longrightarrow> length (dec_digits n) \<le> Suc k"
proof (induction k arbitrary: n)
  case 0
  then show ?case by (simp add: dec_digits.simps [of n])
next
  case (Suc k)
  then have "n div 10 < 10 ^ Suc k" by (simp add: less_mult_imp_div_less)
  with Suc.IH show ?case by (subst dec_digits.simps) simp
qed

lemma sprintf_plain: "37 \<notin> set post \<Longrightarrow> sprintf_u32 post arg = Inr post"
  by (induction post arg rule: sprintf_u32.induct) auto

lemma sprintf_number:
  assumes "37 \<notin> set pre" and "37 \<notin> set post"
  shows "sprintf_u32 (pre @ 37 # 117 # post) (Some v) = Inr (pre @ dec_digits v @ post)"
  using assms(1)
proof (induction pre)
  case Nil
  then show ?case using sprintf_plain [OF assms(2)] by simp
next
  case (Cons c pre)
  then show ?case by (cases pre) auto
qed

text \<open>A buffer as \<open>init_buffer\<close> leaves it, with \<open>xs\<close> written to it.\<close>

definition filled_buf :: "byte list \<Rightarrow> bufst" where
  "filled_buf xs = \<lparr>b_buf = Some (xs @ replicate (DEFAULT_SIZE - length xs) 0), b_cap = DEFAULT_SIZE,
     b_off = length xs, b_lim = 1048576, b_junk = 0\<rparr>"

lemma filled_buf:
  assumes "length xs \<le> DEFAULT_SIZE"
  shows "buf_inv (filled_buf xs)" "buf_text (filled_buf xs) = xs"
    "b_off (filled_buf xs) = length xs" "b_lim (filled_buf xs) = 1048576"
    "b_cap (filled_buf xs) = DEFAULT_SIZE"
proof -
  show tx: "buf_text (filled_buf xs) = xs" by (simp add: buf_text_def filled_buf_def)
  show "buf_inv (filled_buf xs)"
    unfolding buf_inv_def tx using assms
    by (auto simp: filled_buf_def DEFAULT_SIZE_def SIZE_MOD_def intro: exI [of _ 0])
qed (simp_all add: filled_buf_def)

lemma filled_buf_fits: "n \<le> 520192 \<Longrightarrow> length xs \<le> DEFAULT_SIZE \<Longrightarrow> buf_fits n (filled_buf xs)"
  by (simp add: buf_fits_def filled_buf DEFAULT_SIZE_def)

section \<open>A sink for text\<close>

text \<open>
  The interface the search loop relies on: an operation that appends the rendering of its argument
  to the contents of a state, as long as there is room for twice what it may take.
\<close>

locale append_sink =
  fixes put :: "'a \<Rightarrow> 's \<Rightarrow> 's res" and inv :: "'s \<Rightarrow> bool" and contents :: "'s \<Rightarrow> byte list"
    and space :: "'s \<Rightarrow> nat" and ok :: "'a \<Rightarrow> bool" and rendered :: "'a \<Rightarrow> byte list"
    and cost :: "'a \<Rightarrow> nat"
  assumes put_appends: "inv s \<Longrightarrow> ok x \<Longrightarrow> 2 * (length (contents s) + cost x) \<le> space s \<Longrightarrow>
      \<exists>s'. put x s = Inr s' \<and> inv s' \<and> contents s' = contents s @ rendered x \<and> space s' = space s"
    and rendered_cost: "ok x \<Longrightarrow> length (rendered x) \<le> cost x"
begin

lemma put_all:
  assumes "inv s" and "\<forall>x \<in> set xs. ok x"
    and "2 * (length (contents s) + sum_list (map cost xs)) \<le> space s"
  shows "\<exists>s'. for_each put xs s = Inr s' \<and> inv s' \<and>
           contents s' = contents s @ concat (map rendered xs) \<and> space s' = space s"
  using assms
proof (induction xs arbitrary: s)
  case (Cons x xs)
  then obtain s1 where s1: "put x s = Inr s1" "inv s1" "contents s1 = contents s @ rendered x"
    "space s1 = space s"
    using put_appends [of s x] by auto
  have "2 * (length (contents s1) + sum_list (map cost xs)) \<le> space s1"
    using Cons.prems s1 rendered_cost [of x] by simp
  with Cons s1 show ?case by fastforce
qed simp

end

definition put_chunk :: "byte list \<Rightarrow> bufst \<Rightarrow> bufst res" where
  "put_chunk xs st = rbind (write_buffer xs (length xs) st) (\<lambda>(n, st'). Inr st')"

interpretation chunk_sink: append_sink put_chunk buf_inv buf_text b_lim "\<lambda>xs. True" "\<lambda>xs. xs" length
proof
  fix s and x :: "byte list"
  assume inv: "buf_inv s" and fits: "2 * (length (buf_text s) + length x) \<le> b_lim s"
  then have "buf_fits (length x) s" by (simp add: buf_fits_def buf_invD)
  then obtain s' where "write_buffer x (length x) s = Inr (length x, s')"
    "appended s (take (length x) x) s'"
    using write_buffer_ok [OF inv _ order_refl] by blast
  then show "\<exists>s'. put_chunk x s = Inr s' \<and> buf_inv s' \<and> buf_text s' = buf_text s @ x \<and> b_lim s' = b_lim s"
    by (simp add: put_chunk_def appended_def)
qed simp

section \<open>Properties\<close>

text \<open>
  C28: After \<open>init_buffer\<close>, whatever the state was before, any sequence of \<open>write_buffer\<close> calls
  succeeds and leaves in the buffer exactly the concatenation of the chunks, followed by zeros up
  to the capacity, provided the allocator can deliver twice the total.
\<close>

theorem buffer_collects_writes:
  assumes "DEFAULT_SIZE \<le> b_lim st" and "b_lim st < SIZE_MOD"
    and "2 * sum_list (map length xss) \<le> b_lim st"
  shows "\<exists>st0 st'. init_buffer st = Inr st0 \<and> for_each put_chunk xss st0 = Inr st' \<and>
           buf_inv st' \<and> buf_text st' = concat xss"
proof -
  obtain st0 where st0: "init_buffer st = Inr st0" "buf_inv st0" "buf_text st0 = []"
    "b_lim st0 = b_lim st"
    by (rule init_buffer_ok [OF assms(1,2)])
  with assms(3) show ?thesis using chunk_sink.put_all [of st0 xss] by auto
qed

theorem buffer_collects_writes_witness:
  "\<exists>st0 st'. init_buffer \<lparr>b_buf = None, b_cap = 0, b_off = 0, b_lim = 65536, b_junk = 7\<rparr> = Inr st0 \<and>
     for_each put_chunk [replicate 5000 65, [66, 67]] st0 = Inr st' \<and>
     buf_inv st' \<and> buf_text st' = replicate 5000 65 @ [66, 67]"
  using buffer_collects_writes [of "\<lparr>b_buf = None, b_cap = 0, b_off = 0, b_lim = 65536, b_junk = 7\<rparr>"
      "[replicate 5000 65, [66, 67]]"]
  by (simp add: DEFAULT_SIZE_def SIZE_MOD_def del: replicate.simps)

text \<open>
  C29: \<open>buffer_grow\<close> doubles the capacity as often as needed and no more: the new capacity is the
  old one times the least power of two that makes room for the requested bytes; the text written so
  far and the zeros behind it are kept.
\<close>

theorem buffer_grow_minimal:
  assumes "buf_inv st" and "buf_fits n st"
  shows "\<exists>k st1. buffer_grow n st = Inr st1 \<and> b_cap st1 = b_cap st * 2 ^ k \<and>
           b_off st + n \<le> b_cap st1 \<and> (k = 0 \<or> b_cap st * 2 ^ (k - 1) < b_off st + n) \<and>
           buf_inv st1 \<and> buf_text st1 = buf_text st"
proof -
  obtain k st1 where "buffer_grow n st = Inr st1" "b_cap st1 = b_cap st * 2 ^ k"
    "b_off st + n \<le> b_cap st1" "k = 0 \<or> b_cap st * 2 ^ (k - 1) < b_off st + n"
    "b_off st1 = b_off st" "appended st [] st1"
    by (rule buffer_grow_ok [OF assms])
  then show ?thesis by (intro exI [of _ k] exI [of _ st1]) (simp add: appended_def)
qed

theorem buffer_grow_minimal_witness:
  "\<exists>k st1. buffer_grow 10000 (filled_buf [65]) = Inr st1 \<and> b_cap st1 = 4096 * 2 ^ k \<and>
     1 + 10000 \<le> b_cap st1 \<and> (k = 0 \<or> 4096 * 2 ^ (k - 1) < (1 + 10000 :: nat)) \<and>
     buf_inv st1 \<and> buf_text st1 = [65]"
  using buffer_grow_minimal [of "filled_buf [65]" 10000]
  by (simp add: filled_buf filled_buf_fits DEFAULT_SIZE_def)

text \<open>
  Writing to a buffer that was destroyed (or never initialised) does not return: the doubling
  loop of \<open>buffer_grow\<close> starts from capacity 0 and stays there.
\<close>

theorem write_after_destroy_diverges:
  assumes "0 < len" and "len < SIZE_MOD"
  shows "write_buffer content len (destroy_buffer st) = Inl NoReturn"
  using assms
  by (simp add: write_buffer_def destroy_buffer_def reserve_def buffer_grow_def szadd_small grow_cap_zero)

theorem write_after_destroy_diverges_witness:
  "write_buffer [65, 66] 2 (destroy_buffer (filled_buf [67])) = Inl NoReturn"
  using write_after_destroy_diverges [of 2 "[65, 66]" "filled_buf [67]"] by (simp add: SIZE_MOD_def)

text \<open>
  The block read through \<open>read_buffer\<close> is a C string of length \<open>off\<close> as long as one byte of it
  is free; when the text fills the block exactly there is no terminator, and reading it as a string
  (as the worker does to print it) runs past the block.
\<close>

theorem read_buffer_terminated:
  assumes "buf_inv st" and "0 \<notin> set (buf_text st)"
  shows "c_strlen (read_buffer st) 0 =
           (if b_off st < b_cap st then Inr (b_off st) else Inl OutOfBounds)"
proof (cases "b_off st < b_cap st")
  case True
  then obtain m where "b_cap st - b_off st = Suc m" by (metis Suc_diff_Suc)
  then show ?thesis
    using strlen_at [of "buf_text st" 0 "[]" "replicate m 0"] True assms(2) buf_invD [OF assms(1)]
    by (simp add: read_buffer_def)
next
  case False
  then have "b_cap st - b_off st = 0" by simp
  then show ?thesis
    using False assms(2) buf_invD(5) [OF assms(1)] by (simp add: read_buffer_def c_strlen_def)
qed

theorem read_buffer_terminated_witness:
  "c_strlen (read_buffer (filled_buf [65, 66])) 0 = Inr 2"
  using read_buffer_terminated [of "filled_buf [65, 66]"] by (simp add: filled_buf DEFAULT_SIZE_def)

text \<open>
  C27: \<open>writeline_color_buffer\<close> appends the line with the match highlighted: the bytes before the
  match, the colour code, the match, the reset code and the rest of the line up to the newline, a
  terminator or \<open>len\<close> bytes; the result is the number of bytes appended.  The match has to end
  within the first \<open>len\<close> bytes of the line, and the line must not run past its object.
\<close>

theorem writeline_color_highlights:
  assumes "buf_inv st" and "buf_fits (len + 23) st"
    and "off1 + colorlen \<le> len" and "off1 + colorlen \<le> length content" and "len \<le> INT_MAX"
    and "line_readable {newline, 0} content (off1 + colorlen) (len - off1 - colorlen)"
  shows "\<exists>st'. writeline_color_buffer content len off1 colorlen st =
             Inr (length (color_line content len off1 colorlen), st') \<and>
           buf_inv st' \<and> buf_text st' = buf_text st @ color_line content len off1 colorlen"
  using writeline_color_buffer_ok [OF assms] by (metis appended_def)

theorem writeline_color_highlights_witness:
  "\<exists>st'. writeline_color_buffer [97, 98, 99, 10, 100] 1024 1 1 (filled_buf [65]) = Inr (26, st') \<and>
     buf_inv st' \<and> buf_text st' = 65 # 97 # hili_color @ 98 # reset_color @ [99]"
  using writeline_color_highlights [of "filled_buf [65]" 1024 1 1 "[97, 98, 99, 10, 100]"]
  by (simp add: filled_buf filled_buf_fits DEFAULT_SIZE_def INT_MAX_def line_readable_def newline_def
      color_line_def line_part_def color_sizes)

text \<open>
  C40: \<open>writeline_color_buffer\<close> makes room for \<open>len\<close> bytes and the escape sequences (23) only, whatever the
  column of the match is.  When the block already has that much room, so that it is not grown, and the match
  starts further right than the free part of the block, the first copy writes past the block.
\<close>

theorem writeline_color_overruns:
  assumes "buf_inv st" and "b_off st + len + 23 \<le> b_cap st"
    and "b_cap st < b_off st + off1" and "off1 \<le> length content"
  shows "writeline_color_buffer content len off1 colorlen st = Inl OutOfBounds"
proof -
  note D = buf_invD [OF assms(1)]
  have "szadd (szadd len 20) 3 = len + 23" using assms(2) D(2,3) by (simp add: szadd_small)
  moreover have "reserve (len + 23) st = Inr st"
    using assms(2) D(2,3) by (simp add: reserve_def szadd_small)
  moreover have "c_memcpy (b_buf st) (b_off st) content 0 off1 = Inl OutOfBounds"
    unfolding D(5) using assms(3) D(1,4) by (simp add: c_memcpy_def)
  ultimately show ?thesis
    unfolding writeline_color_buffer_def Let_def color_sizes by simp
qed

theorem writeline_color_overruns_witness:
  "writeline_color_buffer (replicate 5000 97) 1024 4990 3 (filled_buf [65]) = Inl OutOfBounds"
  using writeline_color_overruns [of "filled_buf [65]" 1024 4990 "replicate 5000 97" 3]
  by (simp add: filled_buf DEFAULT_SIZE_def del: replicate.simps)

text \<open>
  C34: \<open>writef_buffer\<close> with a format of the form \<open>pre %u post\<close> appends \<open>pre\<close>, the decimal digits of
  the argument and \<open>post\<close>; the digits read back as the argument.
\<close>

theorem writef_buffer_number:
  assumes "buf_inv st" and "buf_fits (length pre + 10 + length post) st"
    and "37 \<notin> set pre" and "37 \<notin> set post" and "v < U32_MOD"
    and "length pre + 10 + length post < 512"
  shows "\<exists>st' ds. writef_buffer (pre @ 37 # 117 # post) v st =
             Inr (length pre + length ds + length post, st') \<and>
           buf_inv st' \<and> buf_text st' = buf_text st @ pre @ ds @ post \<and> dec_value ds = v"
proof -
  have l: "length (dec_digits v) \<le> 10"
    using dec_digits_length [of v 9] assms(5) by (simp add: U32_MOD_def)
  let ?s = "pre @ dec_digits v @ post"
  have "buf_fits (length ?s) st" using assms(2) l by (simp add: buf_fits_def)
  moreover have "length ?s < 512" using assms(6) l by simp
  ultimately obtain st' where "writef_buffer (pre @ 37 # 117 # post) v st = Inr (length ?s, st')"
    "appended st ?s st'"
    using writef_buffer_ok [OF assms(1) sprintf_number [OF assms(3,4)]] by blast
  then show ?thesis
    by (intro exI [of _ st'] exI [of _ "dec_digits v"]) (simp add: appended_def dec_value_digits)
qed

theorem writef_buffer_number_witness:
  "\<exists>st' ds. writef_buffer [10, 37, 117, 58] 42 (filled_buf [65]) = Inr (1 + length ds + 1, st') \<and>
     buf_inv st' \<and> buf_text st' = [65, 10] @ ds @ [58] \<and> dec_value ds = 42"
  using writef_buffer_number [of "filled_buf [65]" "[10]" "[58]" 42]
  by (simp add: filled_buf filled_buf_fits DEFAULT_SIZE_def U32_MOD_def)

text \<open>
  \<open>amendline_color_buffer\<close> highlights a further match \<open>p\<close> in the line written last: the text
  \<open>t @ p @ r\<close> becomes \<open>t\<close>, colour code, \<open>p\<close>, reset code, \<open>r\<close>, provided \<open>p\<close> and the rest \<open>r\<close> are no longer
  than the codes inserted before them and the terminator still fits.
\<close>

theorem amendline_highlights:
  assumes "buf_inv st" and "buf_text st = t @ p @ r"
    and "b_off st - lastlen + off1 + cnt * 23 = length t" and "lastlen \<le> b_off st"
    and "length p \<le> 19" and "length r \<le> 22" and "0 \<notin> set r" and "b_off st + 23 < b_cap st"
  shows "\<exists>st'. amendline_color_buffer lastlen off1 (length p) cnt st = Inr (23, st') \<and>
           buf_inv st' \<and> buf_text st' = t @ hili_color @ p @ reset_color @ r"
  using amendline_color_buffer_ok [OF assms] by metis

theorem amendline_highlights_witness:
  "\<exists>st'. amendline_color_buffer 4 2 1 0 (filled_buf [65, 97, 98, 99, 100]) = Inr (23, st') \<and>
     buf_inv st' \<and> buf_text st' = 65 # 97 # 98 # hili_color @ 99 # reset_color @ [100]"
  using amendline_highlights [of "filled_buf [65, 97, 98, 99, 100]" "[65, 97, 98]" "[99]" "[100]" 4 2 0]
  by (simp add: filled_buf DEFAULT_SIZE_def)

text \<open>
  When 23 or more bytes stand behind the match, the \<open>strcpy\<close> of \<open>amendline_color_buffer\<close> moves
  them by only 23 bytes, so its source and destination overlap: undefined behaviour.
\<close>

theorem amendline_overlaps:
  assumes "buf_inv st" and "buf_text st = t @ p @ r"
    and "b_off st - lastlen + off1 + cnt * 23 = length t" and "lastlen \<le> b_off st"
    and "23 \<le> length r" and "0 \<notin> set r" and "b_off st + 23 < b_cap st"
  shows "amendline_color_buffer lastlen off1 (length p) cnt st = Inl Overlap"
proof -
  note D = buf_invD [OF assms(1)]
  have off: "b_off st = length t + length p + length r" using D(4) assms(2) by simp
  obtain m where m: "b_cap st - b_off st = Suc m" using assms(7) by (metis Suc_diff_Suc add_lessD1)
  have blk: "b_buf st = Some ((t @ p) @ r @ 0 # replicate m 0)"
    using D(5) unfolding m assms(2) by simp
  have res: "reserve (20 + 3) st = Inr st"
    using assms(7) D by (simp add: reserve_def szadd_small)
  have from_code: "b_off st - lastlen + off1 + cnt * (20 + 3) = length t" using assms(3) by simp
  have "c_strlen (b_buf st) (length t + length p) = Inr (length r)"
    unfolding blk by (rule strlen_at) (use assms(6) in simp_all)
  moreover have "c_memcpy_in (b_buf st) (length t + length p + 20 + 3) (length t + length p)
      (Suc (length r)) = Inl Overlap"
    unfolding blk using assms(5,7) m off by (simp add: c_memcpy_in_def)
  ultimately show ?thesis
    unfolding amendline_color_buffer_def Let_def color_sizes res rbind_Inr from_code
    using assms(4) by (simp add: c_strcpy_in_def)
qed

theorem amendline_overlaps_witness:
  "amendline_color_buffer 30 0 1 0 (filled_buf (97 # replicate 29 97)) = Inl Overlap"
  using amendline_overlaps [of "filled_buf (97 # replicate 29 97)" "[]" "[97]" "replicate 29 97" 30 0 0]
  by (simp add: filled_buf DEFAULT_SIZE_def)

end
