(* ===== verification/File.thy ===== *)
theory File
  imports Prelude "HOL-Library.Multiset"
begin

text \<open>
  Mapped files, \<open>src/src/file.c\<close>: \<open>map_file\<close>, \<open>unmap_file\<close> and \<open>inbound\<close> over the \<open>fileinfo\<close>
  structure of \<open>src/src/file.h\<close>.

  The kernel is a parameter: \<open>os\<close> holds the outcomes of \<open>fstat\<close>, \<open>mmap\<close> and \<open>munmap\<close>.  What the
  program relies on is \<open>os_serves\<close>: a mapping holds the bytes of the file, and the rest of its last
  page is zero.  The process state keeps the descriptor table, the number of live mappings and the
  live copies of file names, a multiset.  The kernel answers for the file a descriptor refers to, not
  for its number: numbers are used again after a \<open>close\<close>.
\<close>

text \<open>The field \<open>rb\<close> of the structure, which nothing uses, is left out.\<close>

record fileinfo =
  fi_fd :: int
  fi_filename :: "byte list"
  fi_pmap :: "byte list option"    \<comment> \<open>\<open>None\<close> for \<open>NULL\<close>\<close>
  fi_size :: nat

datatype ofile =
    OFile "byte list"         \<comment> \<open>an opened path\<close>
  | OPipe                     \<comment> \<open>an end of a pipe\<close>
  | OStd                      \<comment> \<open>a standard stream\<close>

type_synonym fdtab = "int \<rightharpoonup> ofile"

record os =
  os_fstat :: "ofile \<Rightarrow> int option"                  \<comment> \<open>\<open>st_size\<close>, \<open>None\<close> on failure\<close>
  os_mmap :: "ofile \<Rightarrow> nat \<Rightarrow> byte list option"      \<comment> \<open>the accessible bytes, \<open>None\<close> for \<open>MAP_FAILED\<close>\<close>
  os_munmap :: "byte list \<Rightarrow> nat \<Rightarrow> bool"

record proc =
  p_open :: fdtab
  p_maps :: nat
  p_names :: "byte list multiset"    \<comment> \<open>the names \<open>strndup\<close> or \<open>strdup\<close> copied and nobody freed\<close>

definition close_fd :: "int \<Rightarrow> proc \<Rightarrow> proc" where
  "close_fd fd p = p\<lparr>p_open := (p_open p)(fd := None)\<rparr>"

lemma close_fd_simps [simp]:
  "p_open (close_fd fd p) = (p_open p)(fd := None)" "p_maps (close_fd fd p) = p_maps p"
  "p_names (close_fd fd p) = p_names p"
  by (simp_all add: close_fd_def)

definition map_file :: "os \<Rightarrow> fileinfo \<Rightarrow> proc \<Rightarrow> (byte list option \<times> fileinfo \<times> proc) res" where
  "map_file os fi p =
     rbind (guard (fi_fd fi \<noteq> 0) AssertFail) (\<lambda>_.
     case p_open p (fi_fd fi) of
       None \<Rightarrow> Inl (ExitWith 1)
     | Some f \<Rightarrow>
         (case os_fstat os f of
            None \<Rightarrow> Inl (ExitWith 1)
          | Some st_size \<Rightarrow>
              if st_size \<le> 0 then Inr (None, fi, p)
              else
                (case os_mmap os f (nat st_size) of
                   None \<Rightarrow> Inl (ExitWith 1)
                 | Some m \<Rightarrow>
                     Inr (Some m, fi\<lparr>fi_pmap := Some m, fi_size := nat st_size\<rparr>,
                          p\<lparr>p_maps := Suc (p_maps p)\<rparr>))))"

definition unmap_file :: "os \<Rightarrow> fileinfo \<Rightarrow> proc \<Rightarrow> (bool \<times> fileinfo \<times> proc) res" where
  "unmap_file os fi p =
     (case fi_pmap fi of
        None \<Rightarrow> Inl AssertFail
      | Some m \<Rightarrow>
          if fi_size fi \<noteq> 0 \<and> \<not> os_munmap os m (fi_size fi) then Inl (ExitWith 1)
          else Inr (True, fi\<lparr>fi_pmap := None, fi_size := 0\<rparr>,
                 close_fd (fi_fd fi) (if fi_size fi \<noteq> 0 then p\<lparr>p_maps := p_maps p - 1\<rparr> else p)))"

definition inbound :: "nat \<Rightarrow> bool" where
  "inbound pos = True"

section \<open>The assumption on the kernel\<close>

definition PAGE_SIZE :: nat where
  "PAGE_SIZE = 4096"

definition page_pad :: "nat \<Rightarrow> nat" where
  "page_pad n = (PAGE_SIZE - n mod PAGE_SIZE) mod PAGE_SIZE"

definition os_serves :: "os \<Rightarrow> ofile \<Rightarrow> byte list \<Rightarrow> bool" where
  "os_serves os f content \<longleftrightarrow>
     os_fstat os f = Some (int (length content)) \<and>
     (content \<noteq> [] \<longrightarrow>
        os_mmap os f (length content) = Some (content @ replicate (page_pad (length content)) 0) \<and>
        os_munmap os (content @ replicate (page_pad (length content)) 0) (length content))"

lemma page_pad_pos: "\<not> PAGE_SIZE dvd n \<Longrightarrow> 0 < page_pad n"
  by (auto simp: page_pad_def PAGE_SIZE_def dvd_eq_mod_eq_0)

lemma page_pad_multiple: "PAGE_SIZE dvd n + page_pad n"
proof -
  have "n mod PAGE_SIZE < PAGE_SIZE" by (simp add: PAGE_SIZE_def)
  then have "(n + (PAGE_SIZE - n mod PAGE_SIZE)) mod PAGE_SIZE = 0"
    by (metis add_diff_inverse_nat mod_add_left_eq mod_self not_less_iff_gr_or_eq)
  then show ?thesis by (simp add: page_pad_def mod_add_right_eq dvd_eq_mod_eq_0)
qed

lemma map_file_serves:
  assumes "os_serves os f content" and "p_open p (fi_fd fi) = Some f" and "fi_fd fi \<noteq> 0" and "content \<noteq> []"
  shows "map_file os fi p =
    Inr (Some (content @ replicate (page_pad (length content)) 0),
         fi\<lparr>fi_pmap := Some (content @ replicate (page_pad (length content)) 0),
            fi_size := length content\<rparr>,
         p\<lparr>p_maps := Suc (p_maps p)\<rparr>)"
  using assms by (simp add: map_file_def os_serves_def)

lemma map_file_empty:
  assumes "os_serves os f []" and "p_open p (fi_fd fi) = Some f" and "fi_fd fi \<noteq> 0"
  shows "map_file os fi p = Inr (None, fi, p)"
  using assms by (simp add: map_file_def os_serves_def)

lemma unmap_file_serves:
  assumes "os_serves os f content" and "content \<noteq> []"
    and "fi_pmap fi = Some (content @ replicate (page_pad (length content)) 0)"
    and "fi_size fi = length content"
  shows "unmap_file os fi p =
    Inr (True, fi\<lparr>fi_pmap := None, fi_size := 0\<rparr>, close_fd (fi_fd fi) (p\<lparr>p_maps := p_maps p - 1\<rparr>))"
  using assms by (simp add: unmap_file_def os_serves_def)

text \<open>A kernel that serves the same bytes for every file.\<close>

definition one_file_os :: "byte list \<Rightarrow> os" where
  "one_file_os content =
     \<lparr>os_fstat = \<lambda>f. Some (int (length content)),
      os_mmap = \<lambda>f n. Some (content @ replicate (page_pad (length content)) 0),
      os_munmap = \<lambda>m n. True\<rparr>"

lemma one_file_os_serves: "os_serves (one_file_os content) f content"
  by (simp add: os_serves_def one_file_os_def)

section \<open>Properties\<close>

text \<open>
  \<open>map_file\<close> of a nonempty file delivers a mapping of whole pages that starts with the bytes of
  the file, and \<open>unmap_file\<close> on the result takes back the mapping, clears the structure and closes
  the descriptor.
\<close>

theorem map_unmap_file:
  assumes "os_serves os f content" and "p_open p (fi_fd fi) = Some f" and "fi_fd fi \<noteq> 0" and "content \<noteq> []"
  shows "\<exists>fb fi1 p1. map_file os fi p = Inr (Some fb, fi1, p1) \<and>
           take (fi_size fi1) fb = content \<and> PAGE_SIZE dvd length fb \<and>
           unmap_file os fi1 p1 =
             Inr (True, fi\<lparr>fi_pmap := None, fi_size := 0\<rparr>, p\<lparr>p_open := (p_open p)(fi_fd fi := None)\<rparr>)"
  using assms unmap_file_serves [of os f content "fi\<lparr>fi_pmap := Some (content @ replicate (page_pad (length content)) 0),
      fi_size := length content\<rparr>" "p\<lparr>p_maps := Suc (p_maps p)\<rparr>"]
  by (simp add: map_file_serves page_pad_multiple close_fd_def)

theorem map_unmap_file_witness:
  "\<exists>fb fi1 p1. map_file (one_file_os [97, 98]) \<lparr>fi_fd = 5, fi_filename = [], fi_pmap = None, fi_size = 0\<rparr>
       \<lparr>p_open = [5 \<mapsto> OFile [102]], p_maps = 0, p_names = {#[102]#}\<rparr> = Inr (Some fb, fi1, p1) \<and>
     take (fi_size fi1) fb = [97, 98] \<and> PAGE_SIZE dvd length fb \<and>
     unmap_file (one_file_os [97, 98]) fi1 p1 =
       Inr (True, \<lparr>fi_fd = 5, fi_filename = [], fi_pmap = None, fi_size = 0\<rparr>, \<lparr>p_open = Map.empty, p_maps = 0, p_names = {#[102]#}\<rparr>)"
  using map_unmap_file [OF one_file_os_serves, where f = "OFile [102]" and content = "[97, 98]"
      and fi = "\<lparr>fi_fd = 5, fi_filename = [], fi_pmap = None, fi_size = 0\<rparr>"
      and p = "\<lparr>p_open = [5 \<mapsto> OFile [102]], p_maps = 0, p_names = {#[102]#}\<rparr>"]
  by simp

end
