(* ===== verification/Worker.thy ===== *)
theory Worker
  imports Scan Buffer File
begin

text \<open>
  The worker thread, \<open>src/src/thread.c\<close> lines 34 to 157: \<open>begin_of_line\<close>, \<open>worker_writebuffer\<close> and
  \<open>worker_thread\<close> with its loop over the files read from the pipe and its inner loop over the
  matches of one file.

  The inner loop (\<open>search_loop\<close>) is a partial function, \<open>None\<close> when it never ends; it is shown to
  end and to write, for every match of the file in order, the line number and the line with the
  match highlighted.  One iteration of the outer loop is \<open>worker_file\<close>.  The pipe is the list of
  what its \<open>read\<close> calls deliver; how several workers share it is the concern of \<open>System\<close>.

  This is shown for files that are \<open>searchable\<close> and, unless only names are listed, \<open>printable\<close>.  Other files:
  when an occurrence of the pattern ends beyond the first 1024 bytes of its line, the text before it need not fit the
  room made for it, and \<open>writeline_color_buffer\<close> can write past its block (shown in \<open>Buffer\<close>).  When it is on the last line, the line has no newline and
  is shorter than 1024 bytes, and the size of the file is a multiple of the page size, the scan for the
  end of the line leaves the mapping (shown below).  When the text of the matches has a
  zero byte, \<open>printf\<close> stops at it; when its length is a multiple of 4096 it can fill the buffer to the last byte, and
  \<open>printf\<close> reads on behind it.
\<close>

section \<open>State and operations\<close>

text \<open>The buffer and the static variables \<open>nll\<close> and \<open>cnt\<close> of \<open>worker_writebuffer\<close>.\<close>

record wstate =
  w_buf :: bufst
  w_nll :: nat
  w_cnt :: nat

fun begin_of_line :: "byte list \<Rightarrow> nat \<Rightarrow> nat res" where
  "begin_of_line fb 0 = Inr 0"
| "begin_of_line fb (Suc mid) =
     rbind (rd fb mid) (\<lambda>c. if c = newline then Inr (Suc mid) else begin_of_line fb mid)"

definition linum_pre :: "byte list" where
  "linum_pre = 27 # bytes ''[1;35m'' @ [newline]"

definition linum_post :: "byte list" where
  "linum_post = 58 # reset_color"

text \<open>
  \<open>lastlinum\<close> is a parameter passed by value: the assignment to it in the first branch has no effect
  on the caller.
\<close>

definition worker_writebuffer ::
  "byte list \<Rightarrow> nat \<Rightarrow> nat \<Rightarrow> nat \<Rightarrow> nat \<Rightarrow> wstate \<Rightarrow> wstate res" where
  "worker_writebuffer fb pos linum lastlinum patlen ws =
     rbind (begin_of_line fb pos) (\<lambda>bol.
     if linum \<noteq> lastlinum then
       rbind (writef_buffer (linum_pre @ 37 # 117 # linum_post) linum (w_buf ws)) (\<lambda>(_, b1).
       rbind (writeline_color_buffer (drop bol fb) 1024 (pos - bol) patlen b1) (\<lambda>(n, b2).
       Inr (ws\<lparr>w_buf := b2, w_nll := n, w_cnt := 1\<rparr>)))
     else
       rbind (amendline_color_buffer (w_nll ws) (pos - bol) patlen (w_cnt ws) (w_buf ws)) (\<lambda>(n, b1).
       rbind (inc_nat (w_cnt ws)) (\<lambda>c.
       Inr (ws\<lparr>w_buf := b1, w_nll := szadd (w_nll ws) n, w_cnt := c\<rparr>))))"

text \<open>The inner loop; \<open>lastlinum\<close> keeps its initial value 0.\<close>

partial_function (option) search_loop ::
  "kmp_state \<Rightarrow> byte list \<Rightarrow> nat \<Rightarrow> nat \<Rightarrow> nat \<Rightarrow> nat \<Rightarrow> wstate \<Rightarrow> wstate res option" where
  "search_loop kst fb sz patlen startpos linum ws =
     (case kmp_match kst (drop startpos fb) (szsub sz startpos) linum of
        Inl e \<Rightarrow> Some (Inl e)
      | Inr (found, linum', matchpos) \<Rightarrow>
          if \<not> found then Some (Inr ws)
          else
            (case worker_writebuffer fb (u32 (matchpos + startpos)) linum' 0 patlen ws of
               Inl e \<Rightarrow> Some (Inl e)
             | Inr ws' \<Rightarrow>
                 search_loop kst fb sz patlen (u32 (startpos + u32 (matchpos + patlen))) linum' ws'))"

definition fname_color :: "byte list" where
  "fname_color = 27 # bytes ''[1;34m''"

text \<open>The bytes \<open>printf("%s")\<close> takes from a pointer.\<close>

definition c_string :: "byte list option \<Rightarrow> byte list res" where
  "c_string p = rbind (c_strlen p 0) (\<lambda>n. Inr (case p of None \<Rightarrow> [] | Some b \<Rightarrow> take n b))"

text \<open>
  The worker's thread-local state and the shared standard output, one entry per critical section
  of \<open>outmtx\<close>.
\<close>

record worker =
  wk_kmp :: kmp_state
  wk_ws :: wstate
  wk_proc :: proc
  wk_out :: "byte list list"

definition print_results :: "bool \<Rightarrow> byte list \<Rightarrow> bufst \<Rightarrow> byte list res" where
  "print_results list_only filename b =
     rbind (if list_only then Inr [] else rbind (c_string (read_buffer b)) (\<lambda>s. Inr (s @ [newline])))
       (\<lambda>s. Inr (fname_color @ filename @ reset_color @ newline # s))"

text \<open>\<open>free(fi.filename)\<close>, which only the files with a match reach.\<close>

definition free_name :: "byte list \<Rightarrow> proc \<Rightarrow> proc" where
  "free_name name p = p\<lparr>p_names := p_names p - {#name#}\<rparr>"

definition worker_file ::
  "os \<Rightarrow> nat \<Rightarrow> bool \<Rightarrow> fileinfo \<Rightarrow> worker \<Rightarrow> worker res" where
  "worker_file os patlen list_only fi wk =
     rbind (map_file os fi (wk_proc wk)) (\<lambda>(fb, fi1, p1).
     case fb of
       None \<Rightarrow> Inr (wk\<lparr>wk_proc := close_fd (fi_fd fi1) p1\<rparr>)
     | Some m \<Rightarrow>
         rbind (case search_loop (wk_kmp wk) m (fi_size fi1) patlen 0 1 (wk_ws wk) of
                  None \<Rightarrow> Inl NoReturn | Some r \<Rightarrow> r) (\<lambda>ws.
         rbind (if b_off (w_buf ws) \<noteq> 0
                then rbind (print_results list_only (fi_filename fi1) (w_buf ws)) (\<lambda>s.
                       Inr (wk_out wk @ [s], free_name (fi_filename fi1) p1))
                else Inr (wk_out wk, p1)) (\<lambda>(out, p2).
         rbind (reset_buffer (w_buf ws)) (\<lambda>b.
         rbind (unmap_file os fi1 p2) (\<lambda>(_, _, p3).
         Inr (wk\<lparr>wk_ws := ws\<lparr>w_buf := b\<rparr>, wk_proc := p3, wk_out := out\<rparr>))))))"

text \<open>What a \<open>read\<close> of the pipe delivers: end of file, a record, or anything else.\<close>

datatype pipe_read = PipeEof | PipeShort | PipeInfo fileinfo

fun worker_loop ::
  "os \<Rightarrow> nat \<Rightarrow> bool \<Rightarrow> pipe_read list \<Rightarrow> worker \<Rightarrow> worker res" where
  "worker_loop os patlen list_only [] wk = Inl NoReturn"
| "worker_loop os patlen list_only (PipeEof # reads) wk = Inr wk"
| "worker_loop os patlen list_only (PipeShort # reads) wk = worker_loop os patlen list_only reads wk"
| "worker_loop os patlen list_only (PipeInfo fi # reads) wk =
     rbind (worker_file os patlen list_only fi wk) (worker_loop os patlen list_only reads)"

text \<open>
  The two blocks around the loop; \<open>result_fd\<close> is \<open>result[tid][1]\<close>.
\<close>

definition worker_start ::
  "(nat \<Rightarrow> nat list option) \<Rightarrow> byte list \<Rightarrow> nat \<Rightarrow> worker \<Rightarrow> worker res" where
  "worker_start memalign pattern patlen wk =
     rbind (init_buffer (w_buf (wk_ws wk))) (\<lambda>b.
     rbind (kmp_prepare memalign pattern patlen (wk_kmp wk)) (\<lambda>k.
     Inr (wk\<lparr>wk_ws := wk_ws wk\<lparr>w_buf := b\<rparr>, wk_kmp := k\<rparr>)))"

definition worker_finish :: "int \<Rightarrow> worker \<Rightarrow> worker" where
  "worker_finish result_fd wk =
     wk\<lparr>wk_ws := wk_ws wk\<lparr>w_buf := destroy_buffer (w_buf (wk_ws wk))\<rparr>,
        wk_kmp := kmp_finish (wk_kmp wk),
        wk_proc := close_fd result_fd (wk_proc wk)\<rparr>"

definition worker_thread ::
  "os \<Rightarrow> (nat \<Rightarrow> nat list option) \<Rightarrow> byte list \<Rightarrow> nat \<Rightarrow> bool \<Rightarrow> int \<Rightarrow> pipe_read list \<Rightarrow> worker \<Rightarrow> worker res" where
  "worker_thread os memalign pattern patlen list_only result_fd reads wk =
     rbind (worker_start memalign pattern patlen wk) (\<lambda>wk1.
     rbind (worker_loop os patlen list_only reads wk1) (\<lambda>wk2. Inr (worker_finish result_fd wk2)))"

section \<open>Lines\<close>

fun line_start :: "byte list \<Rightarrow> nat \<Rightarrow> nat" where
  "line_start fb 0 = 0"
| "line_start fb (Suc mid) = (if fb ! mid = newline then Suc mid else line_start fb mid)"

lemma begin_of_line_ok: "mid \<le> length fb \<Longrightarrow> begin_of_line fb mid = Inr (line_start fb mid)"
  by (induction mid) auto

lemma line_start_le: "line_start fb mid \<le> mid"
  by (induction mid) auto

lemma line_start_inside: "line_start fb mid \<le> j \<Longrightarrow> j < mid \<Longrightarrow> fb ! j \<noteq> newline"
  by (induction mid) (auto simp: less_Suc_eq split: if_splits)

lemma line_start_before: "0 < line_start fb mid \<Longrightarrow> fb ! (line_start fb mid - 1) = newline"
  by (induction mid) (auto split: if_splits)

section \<open>One match\<close>

definition linum_text :: "nat \<Rightarrow> byte list" where
  "linum_text lin = linum_pre @ dec_digits lin @ linum_post"

definition match_text :: "byte list \<Rightarrow> nat \<Rightarrow> nat \<times> nat \<Rightarrow> byte list" where
  "match_text fb patlen m =
     linum_text (snd m) @
     color_line (drop (line_start fb (fst m)) fb) 1024 (fst m - line_start fb (fst m)) patlen"

text \<open>
  The match ends within 1024 bytes of the start of its line, and these 1024 bytes are in the mapping
  or the line ends in it.
\<close>

definition match_ok :: "byte list \<Rightarrow> nat \<Rightarrow> nat \<times> nat \<Rightarrow> bool" where
  "match_ok fb patlen m \<longleftrightarrow>
     fst m + patlen \<le> length fb \<and> fst m + patlen \<le> line_start fb (fst m) + 1024 \<and>
     (line_start fb (fst m) + 1024 \<le> length fb \<or> (\<exists>c \<in> set (drop (fst m + patlen) fb). c \<in> {newline, 0})) \<and>
     0 < snd m \<and> snd m < U32_MOD"

definition put_match :: "byte list \<Rightarrow> nat \<Rightarrow> nat \<times> nat \<Rightarrow> wstate \<Rightarrow> wstate res" where
  "put_match fb patlen m ws = worker_writebuffer fb (fst m) (snd m) 0 patlen ws"

lemma linum_sizes: "length linum_pre = 8" "length linum_post = 5" "37 \<notin> set linum_pre" "37 \<notin> set linum_post"
  by (simp_all add: linum_pre_def linum_post_def reset_color_def bytes_def newline_def)

lemma linum_text_length: "lin < U32_MOD \<Longrightarrow> length (linum_text lin) \<le> 23"
  using dec_digits_length [of lin 9] by (simp add: linum_text_def linum_sizes U32_MOD_def)

lemma color_line_length:
  assumes "off1 + colorlen \<le> length content" and "off1 + colorlen \<le> len"
  shows "length (color_line content len off1 colorlen) \<le> len + 23"
  using assms line_part_length(1) [of "{newline, 0}" content "off1 + colorlen" "len - off1 - colorlen"]
  by (simp add: color_line_def color_sizes)

lemma match_text_length:
  assumes "match_ok fb patlen m"
  shows "length (match_text fb patlen m) \<le> 1070"
proof -
  let ?b = "line_start fb (fst m)"
  have "length (color_line (drop ?b fb) 1024 (fst m - ?b) patlen) \<le> 1024 + 23"
    using assms line_start_le [of fb "fst m"] by (intro color_line_length) (auto simp: match_ok_def)
  with linum_text_length [of "snd m"] assms show ?thesis by (simp add: match_text_def match_ok_def)
qed

lemma put_match_ok:
  assumes inv: "buf_inv (w_buf ws)" and ok: "match_ok fb patlen m" and fits: "buf_fits 1070 (w_buf ws)"
  obtains ws' where "put_match fb patlen m ws = Inr ws'"
    and "appended (w_buf ws) (match_text fb patlen m) (w_buf ws')"
proof -
  note ok' = ok [unfolded match_ok_def]
  let ?bol = "line_start fb (fst m)" and ?fmt = "linum_pre @ 37 # 117 # linum_post"
  let ?content = "drop ?bol fb" and ?off1 = "fst m - ?bol"
  have bol: "begin_of_line fb (fst m) = Inr ?bol" "?bol \<le> fst m"
    using ok' by (auto intro: begin_of_line_ok line_start_le)
  have len: "length (linum_text (snd m)) \<le> 23" using ok' by (intro linum_text_length) simp
  have "sprintf_u32 ?fmt (Some (snd m)) = Inr (linum_text (snd m))"
    unfolding linum_text_def by (rule sprintf_number) (simp_all add: linum_sizes)
  then obtain b1 where b1: "writef_buffer ?fmt (snd m) (w_buf ws) = Inr (length (linum_text (snd m)), b1)"
    "appended (w_buf ws) (linum_text (snd m)) b1"
    using writef_buffer_ok [OF inv, of ?fmt "snd m" "linum_text (snd m)"] len fits
    by (auto simp: buf_fits_def)
  have fits1: "buf_fits (1024 + 23) b1"
    by (rule appended_fits [OF inv b1(2)]) (use fits len in \<open>simp add: buf_fits_def\<close>)
  have rest: "drop (?off1 + patlen) ?content = drop (fst m + patlen) fb" using bol by simp
  have readable: "line_readable {newline, 0} ?content (?off1 + patlen) (1024 - ?off1 - patlen)"
    unfolding line_readable_def rest using ok' bol by auto
  have inv1: "buf_inv b1" and span: "?off1 + patlen \<le> 1024" "?off1 + patlen \<le> length ?content"
    and "1024 \<le> INT_MAX"
    using b1(2) ok' bol by (auto simp: appended_def INT_MAX_def)
  then obtain b2 where "writeline_color_buffer ?content 1024 ?off1 patlen b1 =
      Inr (length (color_line ?content 1024 ?off1 patlen), b2)"
    "appended b1 (color_line ?content 1024 ?off1 patlen) b2"
    using writeline_color_buffer_ok [OF inv1 fits1 span _ readable] by blast
  then show thesis
    using that bol b1 ok' appended_trans [OF b1(2)]
    by (simp add: put_match_def worker_writebuffer_def match_text_def)
qed

text \<open>Printing matches is a sink for text, as writing chunks is.\<close>

interpretation match_sink: append_sink "put_match fb patlen" "\<lambda>ws. buf_inv (w_buf ws)"
  "\<lambda>ws. buf_text (w_buf ws)" "\<lambda>ws. b_lim (w_buf ws)" "match_ok fb patlen" "match_text fb patlen" "\<lambda>m. 1070"
  for fb patlen
proof
  fix ws :: wstate and m
  assume inv: "buf_inv (w_buf ws)" and ok: "match_ok fb patlen m"
    and "2 * (length (buf_text (w_buf ws)) + 1070) \<le> b_lim (w_buf ws)"
  then have "buf_fits 1070 (w_buf ws)" by (simp add: buf_fits_def buf_invD)
  then show "\<exists>ws'. put_match fb patlen m ws = Inr ws' \<and> buf_inv (w_buf ws') \<and>
      buf_text (w_buf ws') = buf_text (w_buf ws) @ match_text fb patlen m \<and> b_lim (w_buf ws') = b_lim (w_buf ws)"
    using put_match_ok [OF inv ok] by (metis appended_def)
qed (rule match_text_length)

section \<open>One file\<close>

lemma search_loop_scans:
  assumes "scans (kmp_match kst) fb sz patlen s lin ms"
    and "for_each (put_match fb patlen) ms ws = Inr ws'"
  shows "search_loop kst fb sz patlen s lin ws = Some (Inr ws')"
  using assms
proof (induction arbitrary: ws rule: scans.induct)
  case (scan_end s lin lin' pos)
  then show ?case by (simp add: search_loop.simps)
next
  case (scan_hit s lin lin' pos ms)
  then show ?case
    by (subst search_loop.simps) (auto simp: put_match_def rbind_eq_Inr_iff)
qed

text \<open>
  The mapping of a file is its content followed by zeros up to the end of the page; a match prints
  the same from either.
\<close>

lemma line_start_append: "mid \<le> length t \<Longrightarrow> line_start (t @ z) mid = line_start t mid"
  by (induction mid) (auto simp: nth_append)

lemma line_part_pad:
  assumes "0 \<in> stops"
  shows "line_part stops (t @ replicate k 0) s n = line_part stops t s n"
proof -
  have "takeWhile (\<lambda>c. c \<notin> stops) (take i xs @ replicate j 0) = takeWhile (\<lambda>c. c \<notin> stops) (take i xs)"
    for i j :: nat and xs :: "byte list"
  proof (cases j)
    case (Suc j')
    with assms have "takeWhile (\<lambda>c. c \<notin> stops) (replicate j 0) = []" by simp
    then show ?thesis by (simp add: takeWhile_append takeWhile_eq_all_conv [THEN iffD2])
  qed simp
  then show ?thesis by (auto simp: line_part_def min_def)
qed

lemma match_text_pad:
  assumes "pos + patlen \<le> length t"
  shows "match_text (t @ replicate k 0) patlen (pos, lin) = match_text t patlen (pos, lin)"
proof -
  let ?b = "line_start t pos"
  have b: "?b \<le> pos" by (rule line_start_le)
  with assms have d: "drop ?b (t @ replicate k 0) = drop ?b t @ replicate k 0" by simp
  show ?thesis
    using assms b by (simp add: match_text_def line_start_append color_line_def d line_part_pad)
qed

text \<open>
  A file the search handles.  Its size and one plus twice the number of its newlines fit an \<open>int\<close>, and every occurrence of the
  pattern ends within the first 1024 bytes of its line and is printed without a read beyond the
  mapping: there is padding behind the file, or the 1024 bytes are in the file, or a newline or zero byte
  comes behind the occurrence.  The header of this theory says what happens otherwise.
\<close>

definition line_ends :: "byte list \<Rightarrow> byte list \<Rightarrow> nat \<Rightarrow> bool" where
  "line_ends p t pos \<longleftrightarrow>
     \<not> PAGE_SIZE dvd length t \<or> line_start t pos + 1024 \<le> length t \<or>
     list_ex (\<lambda>c. c = newline \<or> c = 0) (drop (pos + length p) t)"

definition searchable :: "byte list \<Rightarrow> byte list \<Rightarrow> bool" where
  "searchable p t \<longleftrightarrow>
     match_fits t (length t) 1 \<and>
     (\<forall>pos<length t. occurs_at p t pos \<longrightarrow> pos + length p \<le> line_start t pos + 1024 \<and> line_ends p t pos)"

definition mapped :: "byte list \<Rightarrow> byte list" where
  "mapped t = t @ replicate (page_pad (length t)) 0"

lemma searchable_match_ok:
  assumes "searchable p t" and "p \<noteq> []" and "occurs_at p t pos" and "1 \<le> lin" and "lin \<le> INT_MAX"
  shows "match_ok (mapped t) (length p) (pos, lin)"
proof -
  have pos: "pos + length p \<le> length t" "pos < length t"
    using occurs_at_bounds [OF assms(3)] assms(2) by blast+
  have S: "pos + length p \<le> line_start t pos + 1024" "line_ends p t pos"
    using assms(1,3) pos by (simp_all add: searchable_def)
  have "line_start t pos + 1024 \<le> length (mapped t) \<or>
      (\<exists>c \<in> set (drop (pos + length p) (mapped t)). c \<in> {newline, 0})"
    using S(2) page_pad_pos [of "length t"] pos by (fastforce simp: mapped_def line_ends_def list_ex_iff)
  then show ?thesis
    using assms(4,5) pos S(1) by (simp add: match_ok_def mapped_def line_start_append int_limits)
qed

text \<open>
  What the search of a file yields: occurrences in order and without overlaps, with their lines, and
  all the leftmost ones for a pattern on which the search is exact.
\<close>

definition search_result :: "byte list \<Rightarrow> byte list \<Rightarrow> (nat \<times> nat) list \<Rightarrow> bool" where
  "search_result p t ms \<longleftrightarrow>
     match_chain (no_restart p) p t 0 1 ms \<and> (kmp_exact p \<longrightarrow> map fst ms = greedy p t 0)"

definition report_text :: "byte list \<Rightarrow> nat \<Rightarrow> (nat \<times> nat) list \<Rightarrow> byte list" where
  "report_text t patlen ms = concat (map (match_text t patlen) ms)"

lemma search_file_ok:
  assumes rdy: "kmp_ready kst" and ok: "searchable (pattern_of kst) t"
    and inv: "buf_inv (w_buf ws)" and fits: "buf_fits (1070 * length t) (w_buf ws)"
  obtains ws' ms where
    "search_loop kst (mapped t) (length t) (length (pattern_of kst)) 0 1 ws = Some (Inr ws')"
    and "search_result (pattern_of kst) t ms"
    and "appended (w_buf ws) (report_text t (length (pattern_of kst)) ms) (w_buf ws')"
proof -
  let ?p = "pattern_of kst" and ?fb = "mapped t"
  have p: "?p \<noteq> []" by (rule kmp.pat_nonempty [OF rdy])
  have fits': "match_fits (drop 0 ?fb) (length t - 0) 1"
    using ok by (simp add: searchable_def match_fits_def mapped_def newlines_def)
  have cut: "take (length t) ?fb = t" by (simp add: mapped_def)
  obtain ms where ms: "scans (kmp_match kst) ?fb (length t) (length ?p) 0 1 ms"
    "match_chain (no_restart ?p) ?p t 0 1 ms" "kmp_exact ?p \<longrightarrow> map fst ms = greedy ?p t 0"
    using kmp.scan_all [OF rdy _ _ _ fits'] ok unfolding cut
    by (auto simp: searchable_def match_fits_def mapped_def)
  have occ: "occurs_at ?p t (fst m)" "match_ok ?fb (length ?p) m" if "m \<in> set ms" for m
    using match_chain_occurs [OF ms(2), of "fst m" "snd m"] searchable_match_ok [OF ok p, of "fst m" "snd m"] that
    by simp_all
  have count: "length ms \<le> length t" using match_chain_count [OF ms(2) p] by simp
  have room: "2 * (length (buf_text (w_buf ws)) + sum_list (map (\<lambda>m. 1070) ms)) \<le> b_lim (w_buf ws)"
    using fits count buf_invD(4) [OF inv] by (simp add: buf_fits_def sum_list_triv)
  obtain ws' where ws': "for_each (put_match ?fb (length ?p)) ms ws = Inr ws'" "buf_inv (w_buf ws')"
    "buf_text (w_buf ws') = buf_text (w_buf ws) @ concat (map (match_text ?fb (length ?p)) ms)"
    "b_lim (w_buf ws') = b_lim (w_buf ws)"
    using match_sink.put_all [OF inv _ room] occ(2) by blast
  have "map (match_text ?fb (length ?p)) ms = map (match_text t (length ?p)) ms"
    using occ(1) by (auto simp: mapped_def occurs_at_def intro!: match_text_pad)
  with ws' have "appended (w_buf ws) (report_text t (length ?p) ms) (w_buf ws')"
    by (simp add: appended_def report_text_def)
  with ms search_loop_scans [OF ms(1) ws'(1)] show thesis by (intro that) (auto simp: search_result_def)
qed

subsection \<open>The report of a file\<close>

text \<open>
  What is printed for a file with the matches \<open>ms\<close>, and the outputs the search allows.
\<close>

definition output_text :: "bool \<Rightarrow> byte list \<Rightarrow> byte list \<Rightarrow> nat \<Rightarrow> (nat \<times> nat) list \<Rightarrow> byte list list" where
  "output_text list_only name t patlen ms =
     (if ms = [] then []
      else [fname_color @ name @ reset_color @ newline #
              (if list_only then [] else report_text t patlen ms @ [newline])])"

definition report_ok :: "bool \<Rightarrow> byte list \<Rightarrow> byte list \<Rightarrow> byte list \<Rightarrow> byte list list \<Rightarrow> bool" where
  "report_ok list_only p name t out \<longleftrightarrow>
     (\<exists>ms. search_result p t ms \<and> out = output_text list_only name t (length p) ms)"

text \<open>
  For a pattern whose first byte does not come back the matches and their line numbers are a
  function of the file: the leftmost non-overlapping occurrences, numbered by the newlines up to
  the end of the match.
\<close>

definition file_matches :: "byte list \<Rightarrow> byte list \<Rightarrow> (nat \<times> nat) list" where
  "file_matches p t = map (\<lambda>pos. (pos, nat (1 + newlines t (pos + length p)))) (greedy p t 0)"

definition file_output :: "bool \<Rightarrow> byte list \<Rightarrow> byte list \<Rightarrow> byte list \<Rightarrow> byte list list" where
  "file_output list_only p name t = output_text list_only name t (length p) (file_matches p t)"

lemma search_result_unique:
  assumes "no_restart p" and "search_result p t ms"
  shows "ms = file_matches p t"
proof -
  have chain: "match_chain True p t 0 1 ms" and pos: "map fst ms = greedy p t 0"
    using assms no_restart_exact [OF assms(1)] by (simp_all add: search_result_def)
  have "m = (fst m, nat (1 + newlines t (fst m + length p)))" if "m \<in> set ms" for m
    using match_chain_lines [OF chain, of 1 "fst m" "snd m"] that
    by (simp add: prod_eq_iff counted_def newlines_def) (metis nat_int)
  then have "ms = map (\<lambda>m. (fst m, nat (1 + newlines t (fst m + length p)))) ms"
    by (simp add: map_idI)
  also have "\<dots> = file_matches p t"
    unfolding file_matches_def pos [symmetric] by simp
  finally show ?thesis .
qed

lemma report_ok_unique: "no_restart p \<Longrightarrow> report_ok lo p name t out \<Longrightarrow> out = file_output lo p name t"
  using search_result_unique by (fastforce simp: report_ok_def file_output_def)

lemma greedy_Nil [simp]: "greedy p [] s = []"
  by (subst greedy.simps) auto

lemma report_ok_Nil: "report_ok lo p name [] []"
  unfolding report_ok_def by (rule exI [of _ "[]"]) (simp add: search_result_def output_text_def)

lemma match_text_nonempty: "match_text t n m \<noteq> []"
  by (simp add: match_text_def linum_text_def linum_pre_def)

lemma report_text_Nil_iff: "report_text t n ms = [] \<longleftrightarrow> ms = []"
  by (cases ms) (simp_all add: report_text_def match_text_nonempty)

lemma dec_digits_nonzero: "0 \<notin> set (dec_digits n)"
proof (induction n rule: dec_digits.induct)
  case (1 n)
  have digit: "(of_nat (48 + d) :: byte) \<noteq> 0" if "d < 10" for d
    using unat_digit [OF that] by (metis add_is_0 unat_0 zero_neq_numeral)
  have "n mod 10 < 10" by simp
  then show ?case
    using 1 digit [of n] digit [of "n mod 10"]
    by (subst dec_digits.simps) (auto simp del: of_nat_add)
qed

lemma match_text_nonzero: "0 \<notin> set t \<Longrightarrow> 0 \<notin> set (match_text t n m)"
  by (auto simp: match_text_def linum_text_def linum_pre_def linum_post_def reset_color_def hili_color_def
      color_line_def line_part_def bytes_def newline_def dec_digits_nonzero
      dest!: in_set_takeD in_set_dropD set_takeWhileD)

lemma report_text_nonzero: "0 \<notin> set t \<Longrightarrow> 0 \<notin> set (report_text t n ms)"
  by (auto simp: report_text_def dest: match_text_nonzero)

lemma c_string_buffer:
  assumes "buf_inv b" and "0 \<notin> set (buf_text b)" and "\<not> DEFAULT_SIZE dvd b_off b"
  shows "c_string (read_buffer b) = Inr (buf_text b)"
proof -
  note D = buf_invD [OF assms(1)]
  have "b_off b \<noteq> b_cap b" using assms(1,3) by (auto simp: buf_inv_def)
  then obtain m where m: "b_cap b - b_off b = Suc m" using D(1) by (metis Suc_diff_Suc le_neq_implies_less)
  have "b_buf b = Some (buf_text b @ 0 # replicate m 0)" using D(5) unfolding m by simp
  then show ?thesis
    using strlen_at [of "buf_text b" 0 "[]" "replicate m 0"] assms(2)
    by (simp add: c_string_def read_buffer_def)
qed

section \<open>The worker\<close>

definition wk_ready :: "byte list \<Rightarrow> worker \<Rightarrow> bool" where
  "wk_ready p wk \<longleftrightarrow>
     kmp_ready (wk_kmp wk) \<and> pattern_of (wk_kmp wk) = p \<and>
     buf_inv (w_buf (wk_ws wk)) \<and> buf_text (w_buf (wk_ws wk)) = []"

abbreviation wk_lim :: "worker \<Rightarrow> nat" where
  "wk_lim wk \<equiv> b_lim (w_buf (wk_ws wk))"

text \<open>
  A file the worker reports faithfully: it is empty, or the search handles it, the report fits the
  memory (\<open>realloc\<close> delivers 2140 bytes for each byte of the file) and, unless only names are listed,
  the report is \<open>printable\<close>: it has no zero byte and, its length not being a multiple of \<open>DEFAULT_SIZE\<close>, leaves room
  for a terminator.  A file in which the pattern does not occur is always printable.
\<close>

definition printable :: "byte list \<Rightarrow> byte list \<Rightarrow> bool" where
  "printable p t \<longleftrightarrow>
     (\<forall>ms. search_result p t ms \<longrightarrow> ms \<noteq> [] \<longrightarrow>
        0 \<notin> set (report_text t (length p) ms) \<and> \<not> DEFAULT_SIZE dvd length (report_text t (length p) ms))"

lemma printable_no_restart:
  assumes "no_restart p" and "0 \<notin> set t"
    and "\<not> DEFAULT_SIZE dvd length (report_text t (length p) (file_matches p t))"
  shows "printable p t"
  using assms search_result_unique [OF assms(1)] report_text_nonzero by (auto simp: printable_def)

definition file_ok :: "bool \<Rightarrow> nat \<Rightarrow> byte list \<Rightarrow> byte list \<Rightarrow> bool" where
  "file_ok list_only lim p t \<longleftrightarrow>
     t = [] \<or> (searchable p t \<and> 2140 * length t \<le> lim \<and> (list_only \<or> printable p t))"

text \<open>
  The name copy freed with an output, and the effect of processing one file, with the output \<open>out\<close>.
\<close>

definition freed_name :: "byte list \<Rightarrow> byte list list \<Rightarrow> byte list multiset" where
  "freed_name name out = (if out = [] then {#} else {#name#})"

definition worker_did :: "byte list \<Rightarrow> fileinfo \<Rightarrow> byte list list \<Rightarrow> worker \<Rightarrow> worker \<Rightarrow> bool" where
  "worker_did p fi out wk wk' \<longleftrightarrow>
     wk_ready p wk' \<and> wk_lim wk' = wk_lim wk \<and> wk_out wk' = wk_out wk @ out \<and>
     p_open (wk_proc wk') = (p_open (wk_proc wk))(fi_fd fi := None) \<and>
     p_maps (wk_proc wk') = p_maps (wk_proc wk) \<and>
     p_names (wk_proc wk') = p_names (wk_proc wk) - freed_name (fi_filename fi) out"

text \<open>What the worker prints when the buffer holds the report of the file.\<close>

lemma print_report:
  assumes "buf_inv b" and "buf_text b = report_text t (length p) ms" and "search_result p t ms"
    and "list_only \<or> printable p t"
  shows "(if b_off b \<noteq> 0 then rbind (print_results list_only name b) (\<lambda>s. Inr (out @ [s], free_name name pr))
          else Inr (out, pr)) =
    Inr (out @ output_text list_only name t (length p) ms,
         pr\<lparr>p_names := p_names pr - freed_name name (output_text list_only name t (length p) ms)\<rparr>)"
proof -
  have "b_off b = length (report_text t (length p) ms)" using assms(2) buf_invD(4) [OF assms(1)] by simp
  then show ?thesis
    using assms(2-4) c_string_buffer [OF assms(1)]
    by (auto simp: print_results_def output_text_def report_text_Nil_iff free_name_def freed_name_def printable_def)
qed

lemma worker_file_ok:
  assumes rdy: "wk_ready p wk"
    and os: "os_serves os f t" "p_open (wk_proc wk) (fi_fd fi) = Some f" "fi_fd fi \<noteq> 0" and ok: "file_ok list_only (wk_lim wk) p t"
  shows "\<exists>wk' out. worker_file os (length p) list_only fi wk = Inr wk' \<and>
           report_ok list_only p (fi_filename fi) t out \<and> worker_did p fi out wk wk'"
proof (cases "t = []")
  case True
  have "\<exists>wk'. worker_file os (length p) list_only fi wk = Inr wk' \<and> worker_did p fi [] wk wk'"
    using True os rdy by (simp add: worker_file_def map_file_empty worker_did_def wk_ready_def freed_name_def)
  with True report_ok_Nil show ?thesis by blast
next
  case False
  note rdy' = rdy [unfolded wk_ready_def]
  let ?ws = "wk_ws wk"
  have sr: "searchable p t" "2140 * length t \<le> wk_lim wk" "list_only \<or> printable p t"
    using ok False by (auto simp: file_ok_def)
  have "b_off (w_buf ?ws) = 0" using rdy' buf_invD(4) [of "w_buf ?ws"] by simp
  then have fits: "buf_fits (1070 * length t) (w_buf ?ws)" using sr(2) by (simp add: buf_fits_def)
  have k: "kmp_ready (wk_kmp wk)" "pattern_of (wk_kmp wk) = p" "buf_inv (w_buf ?ws)" using rdy' by auto
  obtain ws' ms where loop: "search_loop (wk_kmp wk) (mapped t) (length t) (length p) 0 1 ?ws = Some (Inr ws')"
    and ms: "search_result p t ms" and app: "appended (w_buf ?ws) (report_text t (length p) ms) (w_buf ws')"
    by (rule search_file_ok [OF k(1) _ k(3) fits, unfolded k(2), OF sr(1)])
  from app rdy' have b: "buf_inv (w_buf ws')" "buf_text (w_buf ws') = report_text t (length p) ms"
    "b_lim (w_buf ws') = wk_lim wk"
    by (simp_all add: appended_def)
  let ?m = "mapped t" and ?out = "output_text list_only (fi_filename fi) t (length p) ms"
  let ?fi1 = "fi\<lparr>fi_pmap := Some ?m, fi_size := length t\<rparr>"
  let ?p1 = "(wk_proc wk)\<lparr>p_maps := Suc (p_maps (wk_proc wk))\<rparr>"
  have map: "map_file os fi (wk_proc wk) = Inr (Some ?m, ?fi1, ?p1)"
    using map_file_serves [OF os False] by (simp add: mapped_def)
  have unmap: "unmap_file os ?fi1 p2 = Inr (True, ?fi1\<lparr>fi_pmap := None, fi_size := 0\<rparr>,
      close_fd (fi_fd fi) (p2\<lparr>p_maps := p_maps p2 - 1\<rparr>))" for p2
    using unmap_file_serves [of os f t ?fi1 p2] os(1) False by (simp add: mapped_def)
  note print = print_report [OF b(1,2) ms sr(3)]
  obtain b' where b': "reset_buffer (w_buf ws') = Inr b'" "buf_inv b'" "buf_text b' = []"
    "b_lim b' = wk_lim wk"
    by (rule reset_buffer_ok [OF b(1), unfolded b(3)])
  have "\<exists>wk'. worker_file os (length p) list_only fi wk = Inr wk' \<and> worker_did p fi ?out wk wk'"
    using map loop print b' unmap rdy' by (simp add: worker_file_def worker_did_def wk_ready_def)
  with ms show ?thesis by (auto simp: report_ok_def)
qed

subsection \<open>Many files\<close>

text \<open>The records a worker takes from the pipe before it sees the end of file.\<close>

fun pipe_infos :: "pipe_read list \<Rightarrow> fileinfo list" where
  "pipe_infos [] = []"
| "pipe_infos (PipeEof # reads) = []"
| "pipe_infos (PipeShort # reads) = pipe_infos reads"
| "pipe_infos (PipeInfo fi # reads) = fi # pipe_infos reads"

lemma worker_loop_each:
  "PipeEof \<in> set reads \<Longrightarrow>
    worker_loop os patlen list_only reads wk = for_each (worker_file os patlen list_only) (pipe_infos reads) wk"
  by (induction os patlen list_only reads wk rule: worker_loop.induct) (auto cong: rbind_cong)

text \<open>
  What the kernel must do for a list of paths, the reports of their files, and what a worker relies
  on for the records it takes: their descriptors refer to the files named in them, one descriptor
  each.
\<close>

definition paths_ok :: "os \<Rightarrow> bool \<Rightarrow> nat \<Rightarrow> byte list \<Rightarrow> (byte list \<Rightarrow> byte list) \<Rightarrow> byte list list \<Rightarrow> bool" where
  "paths_ok os list_only lim p content paths \<longleftrightarrow>
     list_all (\<lambda>path. os_serves os (OFile path) (content path) \<and> file_ok list_only lim p (content path)) paths"

definition reports ::
  "bool \<Rightarrow> byte list \<Rightarrow> (byte list \<Rightarrow> byte list) \<Rightarrow> byte list list \<Rightarrow> byte list list" where
  "reports list_only p content paths = concat (map (\<lambda>path. file_output list_only p path (content path)) paths)"

lemma reports_simps [simp]:
  "reports lo p content [] = []"
  "reports lo p content (path # paths) = file_output lo p path (content path) @ reports lo p content paths"
  "reports lo p content (paths @ paths') = reports lo p content paths @ reports lo p content paths'"
  by (simp_all add: reports_def)

text \<open>The outputs the search allows for files processed in this order.\<close>

definition reports_ok ::
  "bool \<Rightarrow> byte list \<Rightarrow> (byte list \<Rightarrow> byte list) \<Rightarrow> byte list list \<Rightarrow> byte list list \<Rightarrow> bool" where
  "reports_ok list_only p content paths out \<longleftrightarrow>
     (\<exists>outs. list_all2 (\<lambda>path. report_ok list_only p path (content path)) paths outs \<and> out = concat outs)"

lemma reports_ok_Nil [simp]: "reports_ok lo p content [] out \<longleftrightarrow> out = []"
  by (auto simp: reports_ok_def)

lemma reports_ok_Cons:
  "reports_ok lo p content (path # paths) out \<longleftrightarrow>
     (\<exists>out1 out2. report_ok lo p path (content path) out1 \<and> reports_ok lo p content paths out2 \<and> out = out1 @ out2)"
  by (force simp: reports_ok_def list_all2_Cons1)

text \<open>The same, with the names of the files that got no report: those whose copies are not freed.\<close>

definition silent :: "byte list list \<Rightarrow> byte list list list \<Rightarrow> byte list multiset" where
  "silent paths outs = mset (map fst (filter (\<lambda>(path, out). out = []) (zip paths outs)))"

definition reports_with ::
  "bool \<Rightarrow> byte list \<Rightarrow> (byte list \<Rightarrow> byte list) \<Rightarrow> byte list list \<Rightarrow> byte list list \<Rightarrow> byte list multiset \<Rightarrow> bool" where
  "reports_with list_only p content paths out names \<longleftrightarrow>
     (\<exists>outs. list_all2 (\<lambda>path. report_ok list_only p path (content path)) paths outs \<and> out = concat outs \<and>
        names = silent paths outs)"

lemma reports_with_ok: "reports_with lo p content paths out names \<Longrightarrow> reports_ok lo p content paths out"
  by (auto simp: reports_with_def reports_ok_def)

lemma reports_with_Nil [simp]: "reports_with lo p content [] out names \<longleftrightarrow> out = [] \<and> names = {#}"
  by (auto simp: reports_with_def silent_def)

lemma reports_with_append:
  assumes "reports_with lo p content paths out names" and "report_ok lo p path (content path) out1"
  shows "reports_with lo p content (paths @ [path]) (out @ out1) (names + ({#path#} - freed_name path out1))"
proof -
  obtain outs where "list_all2 (\<lambda>path. report_ok lo p path (content path)) paths outs" "out = concat outs"
    "names = silent paths outs"
    using assms(1) by (auto simp: reports_with_def)
  moreover from this(1) have "length paths = length outs" by (rule list_all2_lengthD)
  ultimately show ?thesis
    using assms(2) unfolding reports_with_def
    by (intro exI [of _ "outs @ [out1]"]) (simp add: list_all2_appendI silent_def freed_name_def)
qed

lemma reports_ok_unique:
  assumes "no_restart p"
  shows "reports_ok lo p content paths out \<Longrightarrow> out = reports lo p content paths"
  by (induction paths arbitrary: out) (auto simp: reports_ok_Cons dest: report_ok_unique [OF assms])

definition records_open :: "fdtab \<Rightarrow> fileinfo list \<Rightarrow> bool" where
  "records_open tab fis \<longleftrightarrow>
     list_all (\<lambda>fi. fi_fd fi \<noteq> 0 \<and> tab (fi_fd fi) = Some (OFile (fi_filename fi))) fis \<and> distinct (map fi_fd fis)"

lemma records_open_Cons:
  "records_open tab (fi # fis) \<longleftrightarrow>
     fi_fd fi \<noteq> 0 \<and> tab (fi_fd fi) = Some (OFile (fi_filename fi)) \<and> fi_fd fi \<notin> fi_fd ` set fis \<and>
     records_open tab fis"
  by (auto simp: records_open_def)

lemma records_open_upd: "fd \<notin> fi_fd ` set fis \<Longrightarrow> records_open (tab(fd := v)) fis = records_open tab fis"
  by (auto simp: records_open_def list_all_iff)

lemma worker_files_ok:
  assumes "wk_ready p wk"
    and "paths_ok os list_only (wk_lim wk) p content (map fi_filename fis)"
    and "records_open (p_open (wk_proc wk)) fis"
  shows "\<exists>wk' out. for_each (worker_file os (length p) list_only) fis wk = Inr wk' \<and> wk_ready p wk' \<and>
           reports_ok list_only p content (map fi_filename fis) out \<and> wk_out wk' = wk_out wk @ out \<and>
           p_open (wk_proc wk') = p_open (wk_proc wk) |` (- fi_fd ` set fis) \<and>
           p_maps (wk_proc wk') = p_maps (wk_proc wk)"
  using assms
proof (induction fis arbitrary: wk)
  case (Cons fi fis)
  let ?f = "fi_filename fi"
  have fi: "os_serves os (OFile ?f) (content ?f)" "file_ok list_only (wk_lim wk) p (content ?f)"
    "paths_ok os list_only (wk_lim wk) p content (map fi_filename fis)"
    using Cons.prems(2) by (simp_all add: paths_ok_def)
  note ro = Cons.prems(3) [unfolded records_open_Cons]
  obtain wk1 out1 where wk1: "worker_file os (length p) list_only fi wk = Inr wk1"
    "report_ok list_only p ?f (content ?f) out1" "worker_did p fi out1 wk wk1"
    using worker_file_ok [OF Cons.prems(1) fi(1) _ _ fi(2)] ro by blast
  note did = wk1(3) [unfolded worker_did_def]
  have ro1: "records_open (p_open (wk_proc wk1)) fis" using did ro records_open_upd by simp
  have "paths_ok os list_only (wk_lim wk1) p content (map fi_filename fis)" using did fi(3) by simp
  with ro1 obtain wk' out where "for_each (worker_file os (length p) list_only) fis wk1 = Inr wk'" "wk_ready p wk'"
    "reports_ok list_only p content (map fi_filename fis) out" "wk_out wk' = wk_out wk1 @ out"
    "p_open (wk_proc wk') = p_open (wk_proc wk1) |` (- fi_fd ` set fis)"
    "p_maps (wk_proc wk') = p_maps (wk_proc wk1)"
    using Cons.IH [of wk1] did by blast
  with wk1(1,2) did show ?case
    by (intro exI [of _ wk'] exI [of _ "out1 @ out"]) (auto simp: reports_ok_Cons restrict_map_def fun_eq_iff)
qed (simp add: restrict_map_def)

text \<open>A worker before its thread starts.\<close>

definition new_worker :: "nat \<Rightarrow> fdtab \<Rightarrow> worker" where
  "new_worker lim fds =
     \<lparr>wk_kmp = fresh_kmp,
      wk_ws = \<lparr>w_buf = \<lparr>b_buf = None, b_cap = 0, b_off = 0, b_lim = lim, b_junk = 0\<rparr>, w_nll = 0, w_cnt = 0\<rparr>,
      wk_proc = \<lparr>p_open = fds, p_maps = 0, p_names = {#}\<rparr>, wk_out = []\<rparr>"

lemma worker_start_ok:
  assumes "memalign_ok memalign (length p)" and "p \<noteq> []" and "length p \<le> INT_MAX"
    and lim: "DEFAULT_SIZE \<le> lim" "lim < SIZE_MOD"
  obtains wk1 where "worker_start memalign p (length p) (new_worker lim fds) = Inr wk1"
    and "wk_ready p wk1" and "wk_lim wk1 = lim" and "wk_out wk1 = []"
    and "wk_proc wk1 = \<lparr>p_open = fds, p_maps = 0, p_names = {#}\<rparr>"
proof -
  let ?wk = "new_worker lim fds"
  obtain b where b: "init_buffer (w_buf (wk_ws ?wk)) = Inr b" "buf_inv b" "buf_text b = []" "b_lim b = lim"
    using init_buffer_ok [of "w_buf (wk_ws ?wk)"] lim by (auto simp: new_worker_def)
  obtain k where k: "kmp_prepare memalign p (length p) (wk_kmp ?wk) = Inr k" "kmp_ready k" "pattern_of k = p"
    using kmp_prepare_ready [of memalign p] assms(1-3) by (auto simp: new_worker_def)
  let ?wk1 = "?wk\<lparr>wk_ws := wk_ws ?wk\<lparr>w_buf := b\<rparr>, wk_kmp := k\<rparr>"
  show thesis
    by (rule that [of ?wk1]) (use b k in \<open>simp_all add: worker_start_def wk_ready_def\<close>, simp_all add: new_worker_def)
qed

lemma worker_finish_frees:
  "b_buf (w_buf (wk_ws (worker_finish fd wk))) = None" "k_table (wk_kmp (worker_finish fd wk)) = None"
  "wk_out (worker_finish fd wk) = wk_out wk"
  "p_open (wk_proc (worker_finish fd wk)) = (p_open (wk_proc wk))(fd := None)"
  "p_names (wk_proc (worker_finish fd wk)) = p_names (wk_proc wk)"
  "p_maps (wk_proc (worker_finish fd wk)) = p_maps (wk_proc wk)"
  by (auto simp: worker_finish_def destroy_buffer_def kmp_finish_def split: option.split)

lemma worker_thread_ok:
  assumes "memalign_ok memalign (length p)" and "p \<noteq> []" and "length p \<le> INT_MAX"
    and lim: "DEFAULT_SIZE \<le> lim" "lim < SIZE_MOD" and eof: "PipeEof \<in> set reads"
    and ok: "paths_ok os list_only lim p content (map fi_filename (pipe_infos reads))"
    and ro: "records_open fds (pipe_infos reads)"
  shows "\<exists>wk'. worker_thread os memalign p (length p) list_only result_fd reads (new_worker lim fds) = Inr wk' \<and>
           reports_ok list_only p content (map fi_filename (pipe_infos reads)) (wk_out wk') \<and>
           p_open (wk_proc wk') = fds |` (- insert result_fd (fi_fd ` set (pipe_infos reads))) \<and>
           p_maps (wk_proc wk') = 0 \<and> b_buf (w_buf (wk_ws wk')) = None \<and> k_table (wk_kmp wk') = None"
proof -
  obtain wk1 where wk1: "worker_start memalign p (length p) (new_worker lim fds) = Inr wk1"
    "wk_ready p wk1" "wk_lim wk1 = lim" "wk_out wk1 = []" "wk_proc wk1 = \<lparr>p_open = fds, p_maps = 0, p_names = {#}\<rparr>"
    by (rule worker_start_ok [OF assms(1-3) lim])
  have ok1: "paths_ok os list_only (wk_lim wk1) p content (map fi_filename (pipe_infos reads))"
    "records_open (p_open (wk_proc wk1)) (pipe_infos reads)"
    using ok ro wk1 by simp_all
  show ?thesis
    using worker_files_ok [OF wk1(2) ok1] wk1 eof
    by (auto simp: worker_thread_def worker_loop_each worker_finish_frees restrict_map_def fun_eq_iff)
qed

section \<open>Properties\<close>

text \<open>
  \<open>begin_of_line\<close> returns the start of the line that holds position \<open>mid\<close>: there is no newline
  between it and \<open>mid\<close>, and it is 0 or stands right behind a newline.
\<close>

theorem begin_of_line_correct:
  assumes "mid \<le> length fb"
  shows "\<exists>bol. begin_of_line fb mid = Inr bol \<and> bol \<le> mid \<and>
           newline \<notin> set (take (mid - bol) (drop bol fb)) \<and> (bol = 0 \<or> fb ! (bol - 1) = newline)"
proof -
  let ?b = "line_start fb mid"
  have b: "?b \<le> mid" by (rule line_start_le)
  have "newline \<notin> set (take (mid - ?b) (drop ?b fb))"
    using line_start_inside [of fb mid] assms b by (auto simp: in_set_conv_nth)
  then show ?thesis
    using begin_of_line_ok [OF assms] b line_start_before [of fb mid] by blast
qed

theorem begin_of_line_correct_witness:
  "\<exists>bol. begin_of_line [97, 10, 98, 99] 3 = Inr bol \<and> bol \<le> 3 \<and>
     newline \<notin> set (take (3 - bol) (drop bol [97, 10, 98, 99])) \<and>
     (bol = 0 \<or> [97, 10, 98, 99] ! (bol - 1) = newline)"
  by (rule begin_of_line_correct) simp

text \<open>
  C3: the search of one file that is \<open>searchable\<close> ends, without undefined behaviour, for every nonempty
  pattern.  Searchable means: the size and one plus twice the number of newlines fit an \<open>int\<close>, every occurrence of the pattern
  ends within the first 1024 bytes of its line, and none is on an unterminated last line, shorter than 1024
  bytes, of a file whose size is a multiple of the page size.  The buffer has memory for 1070 bytes for each byte
  of the file.  The search appends to the buffer, for a list of occurrences of the pattern in the file that is increasing
  and without overlaps, the line number and the line with the occurrence highlighted.  The line
  numbers are at least the true ones, count no newline more than twice, and are the true ones for a pattern whose first
  byte does not come back.  When \<open>kmp_exact\<close> holds of the pattern these are all the leftmost
  non-overlapping occurrences.
\<close>

theorem search_loop_reports:
  assumes "kmp_ready kst" and "searchable (pattern_of kst) t"
    and "buf_inv (w_buf ws)" and "buf_fits (1070 * length t) (w_buf ws)"
  shows "\<exists>ms ws'. search_loop kst (mapped t) (length t) (length (pattern_of kst)) 0 1 ws = Some (Inr ws') \<and>
           search_result (pattern_of kst) t ms \<and> buf_inv (w_buf ws') \<and>
           buf_text (w_buf ws') = buf_text (w_buf ws) @ report_text t (length (pattern_of kst)) ms"
proof -
  obtain ws' ms where
    "search_loop kst (mapped t) (length t) (length (pattern_of kst)) 0 1 ws = Some (Inr ws')"
    "search_result (pattern_of kst) t ms"
    "appended (w_buf ws) (report_text t (length (pattern_of kst)) ms) (w_buf ws')"
    by (rule search_file_ok [OF assms])
  then show ?thesis by (intro exI [of _ ms] exI [of _ ws']) (simp add: appended_def)
qed

theorem search_loop_reports_witness:
  "\<exists>ms ws'. search_loop \<lparr>k_pat = [97, 98], k_len = 2, k_table = Some [0, 0]\<rparr> (mapped [97, 98, 10, 97, 98])
       5 2 0 1 \<lparr>w_buf = filled_buf [], w_nll = 0, w_cnt = 0\<rparr> = Some (Inr ws') \<and>
     search_result [97, 98] [97, 98, 10, 97, 98] ms \<and> buf_inv (w_buf ws') \<and>
     buf_text (w_buf ws') = report_text [97, 98, 10, 97, 98] 2 ms"
proof -
  let ?k = "\<lparr>k_pat = [97, 98], k_len = 2, k_table = Some [0, 0]\<rparr>" and ?t = "[97, 98, 10, 97, 98] :: byte list"
  have pat: "pattern_of ?k = [97, 98]" by (simp add: pattern_of_def)
  have lens: "length ?t = 5" "length [97, 98 :: byte] = 2" by simp_all
  have "kmp_ready ?k"
    by (simp add: kmp_ready_def pattern_of_def INT_MAX_def less_Suc_eq numeral_2_eq_2)
  moreover have "searchable [97, 98] ?t"
    by (auto simp: searchable_def match_fits_def newlines_def newline_def INT_MAX_def PAGE_SIZE_def
        line_ends_def dvd_eq_mod_eq_0)
  ultimately show ?thesis
    using search_loop_reports [of ?k ?t "\<lparr>w_buf = filled_buf [], w_nll = 0, w_cnt = 0\<rparr>", unfolded pat lens]
    by (simp add: filled_buf filled_buf_fits)
qed

text \<open>
  C2: a worker thread, reading any sequence of records up to the end of file, each with its own open
  descriptor of the file named in it, when these files meet \<open>paths_ok\<close>: the kernel serves each of them, and it is
  empty or its size and one plus twice the number of its newlines fit an \<open>int\<close>, every occurrence of the pattern ends within the first 1024 bytes of its
  line, none is on an unterminated last line, shorter than 1024 bytes, of a file of whole pages, \<open>realloc\<close> delivers
  2140 bytes for each of its bytes, and, without \<open>-l\<close>, the text of the matches has no zero byte and a length that is
  not a multiple of 4096.  Then the worker prints for every file in which its search finds the pattern, in the order of the pipe, the file name and the report of the
  matches (only the names with \<open>-l\<close>), closes every descriptor it was given and its result pipe,
  removes every mapping and frees buffer and table.  The matches reported are increasing,
  non-overlapping occurrences, all the leftmost ones if \<open>kmp_exact\<close> holds of the pattern, with line numbers
  between the true one and one more for every newline before; for a pattern whose first byte does not
  come back the output is exactly the report of all leftmost matches with their line numbers.
\<close>

theorem worker_thread_reports:
  assumes "memalign_ok memalign (length p)" and "p \<noteq> []" and "length p \<le> INT_MAX"
    and "DEFAULT_SIZE \<le> lim" and "lim < SIZE_MOD" and "PipeEof \<in> set reads"
    and "paths_ok os list_only lim p content (map fi_filename (pipe_infos reads))"
    and "records_open fds (pipe_infos reads)"
  shows "\<exists>wk'. worker_thread os memalign p (length p) list_only result_fd reads (new_worker lim fds) = Inr wk' \<and>
           reports_ok list_only p content (map fi_filename (pipe_infos reads)) (wk_out wk') \<and>
           (no_restart p \<longrightarrow> wk_out wk' = reports list_only p content (map fi_filename (pipe_infos reads))) \<and>
           p_open (wk_proc wk') = fds |` (- insert result_fd (fi_fd ` set (pipe_infos reads))) \<and>
           p_maps (wk_proc wk') = 0 \<and> b_buf (w_buf (wk_ws wk')) = None \<and> k_table (wk_kmp wk') = None"
  using worker_thread_ok [OF assms] reports_ok_unique by blast

theorem worker_thread_reports_witness:
  "\<exists>wk'. worker_thread (one_file_os [97, 98, 10]) (\<lambda>n. Some [0, 0]) [97, 98] (length ([97, 98] :: byte list)) True 9
       [PipeShort, PipeInfo \<lparr>fi_fd = 5, fi_filename = [102], fi_pmap = None, fi_size = 0\<rparr>, PipeEof]
       (new_worker 1000000 [5 \<mapsto> OFile [102], 9 \<mapsto> OPipe]) = Inr wk' \<and>
     reports_ok True [97, 98] (\<lambda>path. [97, 98, 10]) (map fi_filename
       (pipe_infos [PipeShort, PipeInfo \<lparr>fi_fd = 5, fi_filename = [102], fi_pmap = None, fi_size = 0\<rparr>, PipeEof])) (wk_out wk') \<and>
     (no_restart [97, 98] \<longrightarrow> wk_out wk' = reports True [97, 98] (\<lambda>path. [97, 98, 10]) (map fi_filename
       (pipe_infos [PipeShort, PipeInfo \<lparr>fi_fd = 5, fi_filename = [102], fi_pmap = None, fi_size = 0\<rparr>, PipeEof]))) \<and>
     p_open (wk_proc wk') = [5 \<mapsto> OFile [102], 9 \<mapsto> OPipe] |` (- insert 9 (fi_fd ` set
       (pipe_infos [PipeShort, PipeInfo \<lparr>fi_fd = 5, fi_filename = [102], fi_pmap = None, fi_size = 0\<rparr>, PipeEof]))) \<and>
     p_maps (wk_proc wk') = 0 \<and> b_buf (w_buf (wk_ws wk')) = None \<and> k_table (wk_kmp wk') = None"
proof (rule worker_thread_reports)
  have "searchable [97, 98] [97, 98, 10]"
    by (auto simp: searchable_def match_fits_def newlines_def newline_def INT_MAX_def PAGE_SIZE_def
        line_ends_def dvd_eq_mod_eq_0)
  then show "paths_ok (one_file_os [97, 98, 10]) True 1000000 [97, 98] (\<lambda>path. [97, 98, 10])
      (map fi_filename (pipe_infos [PipeShort, PipeInfo \<lparr>fi_fd = 5, fi_filename = [102], fi_pmap = None, fi_size = 0\<rparr>, PipeEof]))"
    by (simp add: paths_ok_def file_ok_def one_file_os_serves)
qed (simp_all add: memalign_ok_def int_limits DEFAULT_SIZE_def records_open_def)

text \<open>
  The second branch of \<open>worker_writebuffer\<close>, which amends the line printed last, is never taken:
  the caller's \<open>lastlinum\<close> stays 0 and line numbers start at 1.  So the result does not depend on
  the static variables \<open>nll\<close> and \<open>cnt\<close>, which the two worker threads share without a lock, and a
  line with two matches is printed twice.
\<close>

theorem worker_writebuffer_ignores_statics:
  assumes "0 < linum"
  shows "worker_writebuffer fb pos linum 0 patlen (ws\<lparr>w_nll := nll, w_cnt := cnt\<rparr>) =
         worker_writebuffer fb pos linum 0 patlen ws"
  using assms by (simp add: worker_writebuffer_def cong: rbind_cong)

theorem worker_writebuffer_ignores_statics_witness:
  "worker_writebuffer [97, 98] 0 1 0 2 (\<lparr>w_buf = filled_buf [], w_nll = 0, w_cnt = 0\<rparr>\<lparr>w_nll := 7, w_cnt := 3\<rparr>) =
   worker_writebuffer [97, 98] 0 1 0 2 \<lparr>w_buf = filled_buf [], w_nll = 0, w_cnt = 0\<rparr>"
  by (rule worker_writebuffer_ignores_statics) simp

text \<open>
  C39: a match on the last line of a file that ends without a newline is printed by reading on
  until a zero byte, which the padding of the last page provides; when the size of the file is a
  multiple of the page size there is no padding and, the last line being shorter than 1024 bytes, the read
  leaves the mapping.
\<close>

theorem worker_overreads:
  assumes "PAGE_SIZE dvd length t" and "occurs_at p t pos" and "p \<noteq> []"
    and "set (drop (pos + length p) t) \<inter> {newline, 0} = {}"
    and "length t < line_start t pos + 1024" and "0 < linum" and "linum < U32_MOD"
    and "buf_inv (w_buf ws)" and "buf_fits 1070 (w_buf ws)"
  shows "worker_writebuffer (mapped t) pos linum 0 (length p) ws = Inl OutOfBounds"
proof -
  have "page_pad (length t) = 0" using assms(1) by (simp add: page_pad_def dvd_eq_mod_eq_0)
  then have m: "mapped t = t" by (simp add: mapped_def)
  have pos: "pos + length p \<le> length t" "pos < length t" using occurs_at_bounds [OF assms(2)] assms(3) by blast+
  let ?bol = "line_start t pos" and ?fmt = "linum_pre @ 37 # 117 # linum_post"
  have bol: "begin_of_line t pos = Inr ?bol" "?bol \<le> pos"
    using pos by (auto intro: begin_of_line_ok line_start_le)
  have len: "length (linum_text linum) \<le> 23" using assms(7) by (rule linum_text_length)
  have s: "sprintf_u32 ?fmt (Some linum) = Inr (linum_text linum)"
    unfolding linum_text_def by (rule sprintf_number) (simp_all add: linum_sizes)
  have "length (linum_text linum) < 512" "buf_fits (length (linum_text linum)) (w_buf ws)"
    using assms(9) len by (simp_all add: buf_fits_def)
  then obtain b1 where b1: "writef_buffer ?fmt linum (w_buf ws) = Inr (length (linum_text linum), b1)"
    "appended (w_buf ws) (linum_text linum) b1"
    by (rule writef_buffer_ok [OF assms(8) s])
  have fits1: "buf_fits (1024 + 23) b1"
    by (rule appended_fits [OF assms(8) b1(2)]) (use assms(9) len in \<open>simp add: buf_fits_def\<close>)
  have "writeline_color_buffer (drop ?bol t) 1024 (pos - ?bol) (length p) b1 = Inl OutOfBounds"
    using assms(4,5) b1(2) bol pos
    by (intro writeline_color_overread [OF _ fits1]) (auto simp: appended_def INT_MAX_def)
  with bol b1(1) assms(6) show ?thesis by (simp add: m worker_writebuffer_def)
qed

theorem worker_overreads_witness:
  "worker_writebuffer (mapped (replicate 4094 newline @ [97, 98])) 4094 5 0 (length ([97, 98] :: byte list))
     \<lparr>w_buf = filled_buf [], w_nll = 0, w_cnt = 0\<rparr> = Inl OutOfBounds"
proof (rule worker_overreads)
  have "line_start (replicate 4094 newline @ [97, 98]) (Suc 4093) = 4094"
    unfolding line_start.simps by (simp add: nth_append)
  then show "length (replicate 4094 newline @ [97, 98 :: byte])
      < line_start (replicate 4094 newline @ [97, 98]) 4094 + 1024"
    by simp
qed (simp_all add: PAGE_SIZE_def occurs_at_def filled_buf filled_buf_fits U32_MOD_def)

end
