(* ===== verification/Trie.thy ===== *)
theory Trie
  imports Prelude
begin

text \<open>
  The trie of \<open>src/src/util.c\<close> on an explicit heap of nodes: \<open>trie_init\<close>, \<open>trie_walk\<close> with its
  \<open>create\<close> and \<open>scan\<close> modes, \<open>trie_insert\<close>, \<open>trie_lookup\<close>, \<open>trie_scan\<close> and \<open>trie_destroy\<close>.

  Nodes live at addresses; \<open>malloc\<close> delivers a fresh address, or \<open>NULL\<close> when the quota of the
  heap is used up, which the code does not check.  The heap is related to the set of keys the
  trie stores (\<open>trie_keys\<close>) under the invariant \<open>trie_wf\<close>: every node reachable from the root is
  allocated, and by one path only.  The contract clients rely on is the locale
  \<open>prefix_store\<close>.
\<close>

section \<open>Heap and operations\<close>

record tnode =
  isleaf :: bool
  children :: "byte \<Rightarrow> addr option"     \<comment> \<open>\<open>children[MAX_CHILDREN]\<close>, \<open>None\<close> for \<open>NULL\<close>\<close>

record theap =
  t_mem :: "addr \<Rightarrow> tnode option"      \<comment> \<open>the allocated nodes\<close>
  t_next :: addr                         \<comment> \<open>addresses from here on have never been handed out\<close>
  t_quota :: nat                         \<comment> \<open>how many more nodes \<open>malloc\<close> can deliver\<close>

definition zero_node :: tnode where
  "zero_node = \<lparr>isleaf = False, children = (\<lambda>_. None)\<rparr>"

definition deref :: "addr \<Rightarrow> theap \<Rightarrow> tnode res" where
  "deref a h = (case t_mem h a of None \<Rightarrow> Inl UseAfterFree | Some n \<Rightarrow> Inr n)"

definition trie_malloc :: "theap \<Rightarrow> addr option \<times> theap" where
  "trie_malloc h =
     (if t_quota h = 0 then (None, h)
      else (Some (t_next h), h\<lparr>t_next := Suc (t_next h), t_quota := t_quota h - 1\<rparr>))"

definition memset_node :: "addr option \<Rightarrow> theap \<Rightarrow> theap res" where
  "memset_node p h =
     (case p of None \<Rightarrow> Inl NullDeref | Some a \<Rightarrow> Inr (h\<lparr>t_mem := (t_mem h)(a \<mapsto> zero_node)\<rparr>))"

text \<open>\<open>trie_init(&p)\<close>: the argument is the old value of \<open>p\<close>, the result its new one.\<close>

definition trie_init :: "addr option \<Rightarrow> theap \<Rightarrow> (addr option \<times> theap) res" where
  "trie_init root h =
     (case root of
        None \<Rightarrow> (case trie_malloc h of (p, h1) \<Rightarrow> rbind (memset_node p h1) (\<lambda>h2. Inr (p, h2)))
      | Some a \<Rightarrow> Inr (Some a, h))"

definition set_child :: "addr \<Rightarrow> byte \<Rightarrow> addr option \<Rightarrow> theap \<Rightarrow> theap res" where
  "set_child a k c h = rbind (deref a h) (\<lambda>n.
     Inr (h\<lparr>t_mem := (t_mem h)(a \<mapsto> n\<lparr>children := (children n)(k := c)\<rparr>)\<rparr>))"

definition set_leaf :: "addr \<Rightarrow> theap \<Rightarrow> theap res" where
  "set_leaf a h = rbind (deref a h) (\<lambda>n. Inr (h\<lparr>t_mem := (t_mem h)(a \<mapsto> n\<lparr>isleaf := True\<rparr>)\<rparr>))"

text \<open>
  The body of the loop in \<open>trie_walk\<close> up to \<open>node = node->children[idx]\<close>: the new node, or
  \<open>None\<close> for \<open>return NULL\<close>.
\<close>

definition walk_child :: "addr \<Rightarrow> byte \<Rightarrow> bool \<Rightarrow> theap \<Rightarrow> (addr option \<times> theap) res" where
  "walk_child node idx create h =
     rbind (deref node h) (\<lambda>n.
     case children n idx of
       Some c \<Rightarrow> Inr (Some c, h)
     | None \<Rightarrow>
         if create then
           rbind (trie_init None h) (\<lambda>(c, h1). rbind (set_child node idx c h1) (\<lambda>h2. Inr (c, h2)))
         else Inr (None, h))"

text \<open>How the loop ends: a \<open>return\<close> inside it, or with \<open>node\<close> at the end of the target.\<close>

datatype walk = Returned "addr option" | Reached addr

definition scan_stops :: "bool \<Rightarrow> addr \<Rightarrow> theap \<Rightarrow> bool res" where
  "scan_stops scan node h = (if scan then rbind (deref node h) (\<lambda>n. Inr (isleaf n)) else Inr False)"

function walk_loop ::
  "addr \<Rightarrow> byte list \<Rightarrow> int \<Rightarrow> nat \<Rightarrow> bool \<Rightarrow> bool \<Rightarrow> theap \<Rightarrow> (walk \<times> theap) res" where
  "walk_loop node target sz i create scan h =
     (if int i < sz then
        rbind (rd target i) (\<lambda>idx.
        rbind (walk_child node idx create h) (\<lambda>(c, h1).
        case c of
          None \<Rightarrow> Inr (Returned None, h1)
        | Some node' \<Rightarrow>
            rbind (scan_stops scan node' h1) (\<lambda>stop.
            if stop then Inr (Returned (Some node'), h1)
            else walk_loop node' target sz (Suc i) create scan h1)))
      else Inr (Reached node, h))"
  by pat_completeness auto
termination
  by (relation "measure (\<lambda>(node, target, sz, i, create, scan, h). nat sz - i)") auto

declare walk_loop.simps [simp del]

definition trie_walk ::
  "addr \<Rightarrow> byte list \<Rightarrow> int \<Rightarrow> bool \<Rightarrow> bool \<Rightarrow> theap \<Rightarrow> (addr option \<times> theap) res" where
  "trie_walk root target sz create scan h =
     rbind (walk_loop root target sz 0 create scan h) (\<lambda>(w, h1).
     case w of
       Returned r \<Rightarrow> Inr (r, h1)
     | Reached node \<Rightarrow>
         rbind (deref node h1) (\<lambda>n.
         if create \<and> isleaf n then Inr (None, h1)
         else rbind (if create then set_leaf node h1 else Inr h1) (\<lambda>h2.
              rbind (deref node h2) (\<lambda>n2. Inr (if isleaf n2 then Some node else None, h2)))))"

definition assert_args :: "addr option \<Rightarrow> int \<Rightarrow> addr res" where
  "assert_args root sz =
     (case root of None \<Rightarrow> Inl AssertFail
      | Some r \<Rightarrow> if 0 < sz then Inr r else Inl AssertFail)"

definition trie_insert ::
  "addr option \<Rightarrow> byte list \<Rightarrow> int \<Rightarrow> theap \<Rightarrow> (addr option \<times> theap) res" where
  "trie_insert root target sz h =
     rbind (assert_args root sz) (\<lambda>r. trie_walk r target sz True False h)"

definition trie_lookup ::
  "addr option \<Rightarrow> byte list \<Rightarrow> int \<Rightarrow> theap \<Rightarrow> (addr option \<times> theap) res" where
  "trie_lookup root target sz h =
     rbind (assert_args root sz) (\<lambda>r. trie_walk r target sz False False h)"

definition trie_scan ::
  "addr option \<Rightarrow> byte list \<Rightarrow> int \<Rightarrow> theap \<Rightarrow> (addr option \<times> theap) res" where
  "trie_scan root target sz h =
     rbind (assert_args root sz) (\<lambda>r. trie_walk r target sz False True h)"

text \<open>\<open>trie_destroy\<close>: the loop over the 256 children, then \<open>free(root)\<close>.\<close>

definition trie_free :: "addr \<Rightarrow> theap \<Rightarrow> theap res" where
  "trie_free a h =
     (case t_mem h a of None \<Rightarrow> Inl UseAfterFree
      | Some n \<Rightarrow> Inr (h\<lparr>t_mem := (t_mem h)(a := None), t_quota := Suc (t_quota h)\<rparr>))"

definition all_bytes :: "byte list" where
  "all_bytes = map of_nat [0..<256]"

fun destroy_children ::
  "(addr \<Rightarrow> theap \<Rightarrow> theap res) \<Rightarrow> addr \<Rightarrow> byte list \<Rightarrow> theap \<Rightarrow> theap res" where
  "destroy_children destroy root [] h = Inr h"
| "destroy_children destroy root (i # is) h =
     rbind (deref root h) (\<lambda>n.
     case children n i of
       None \<Rightarrow> destroy_children destroy root is h
     | Some c \<Rightarrow> rbind (destroy c h) (destroy_children destroy root is))"

text \<open>The first argument bounds the depth of the recursion.\<close>

fun trie_destroy :: "nat \<Rightarrow> addr \<Rightarrow> theap \<Rightarrow> theap res" where
  "trie_destroy 0 root h = Inl OutOfFuel"
| "trie_destroy (Suc d) root h =
     rbind (destroy_children (trie_destroy d) root all_bytes h) (trie_free root)"

section \<open>Paths, keys and the invariant\<close>

fun follow :: "theap \<Rightarrow> addr \<Rightarrow> byte list \<Rightarrow> addr option" where
  "follow h a [] = Some a"
| "follow h a (k # ks) =
     (case t_mem h a of None \<Rightarrow> None
      | Some n \<Rightarrow> (case children n k of None \<Rightarrow> None | Some c \<Rightarrow> follow h c ks))"

definition leaf_at :: "theap \<Rightarrow> addr \<Rightarrow> bool" where
  "leaf_at h a = (case t_mem h a of None \<Rightarrow> False | Some n \<Rightarrow> isleaf n)"

definition trie_keys :: "theap \<Rightarrow> addr \<Rightarrow> byte list set" where
  "trie_keys h r = {ks. \<exists>q. follow h r ks = Some q \<and> leaf_at h q}"

definition reach :: "theap \<Rightarrow> addr \<Rightarrow> addr set" where
  "reach h r = {q. \<exists>ks. follow h r ks = Some q}"

text \<open>Every reachable node is allocated; no node is reached by two paths.\<close>

definition trie_wf :: "theap \<Rightarrow> addr \<Rightarrow> bool" where
  "trie_wf h r \<longleftrightarrow>
     (\<forall>q \<in> reach h r. t_mem h q \<noteq> None) \<and>
     (\<forall>ks ks' q. follow h r ks = Some q \<longrightarrow> follow h r ks' = Some q \<longrightarrow> ks = ks')"

definition heap_ok :: "theap \<Rightarrow> bool" where
  "heap_ok h \<longleftrightarrow> (\<forall>a n. t_mem h a = Some n \<longrightarrow> a < t_next h)"

definition child_at :: "theap \<Rightarrow> addr \<Rightarrow> byte \<Rightarrow> addr option" where
  "child_at h a k = (case t_mem h a of None \<Rightarrow> None | Some n \<Rightarrow> children n k)"

lemma follow_Cons: "follow h a (k # ks) = Option.bind (child_at h a k) (\<lambda>c. follow h c ks)"
  by (simp add: child_at_def split: option.split)

lemma follow_append: "follow h a (ks @ ls) = Option.bind (follow h a ks) (\<lambda>q. follow h q ls)"
proof (induction ks arbitrary: a)
  case (Cons k ks)
  then show ?case by (cases "child_at h a k") (simp_all add: follow_Cons del: follow.simps(2))
qed simp

lemma follow_snoc: "follow h a (ks @ [k]) = Option.bind (follow h a ks) (\<lambda>q. child_at h q k)"
  by (cases "follow h a ks") (simp_all add: follow_append follow_Cons del: follow.simps(2))

declare follow.simps(2) [simp del]

lemma reachI: "follow h r ks = Some q \<Longrightarrow> q \<in> reach h r"
  by (auto simp: reach_def)

lemma reach_self [simp]: "r \<in> reach h r"
  by (rule reachI [of _ _ "[]"]) simp

lemma wf_alloc: "trie_wf h r \<Longrightarrow> follow h r ks = Some q \<Longrightarrow> \<exists>n. t_mem h q = Some n"
  by (auto simp: trie_wf_def dest: reachI)

lemma wf_unique: "trie_wf h r \<Longrightarrow> follow h r ks = Some q \<Longrightarrow> follow h r ks' = Some q \<Longrightarrow> ks = ks'"
  by (auto simp: trie_wf_def)

lemma wf_below:
  assumes "trie_wf h r" and "follow h r ks = Some q"
  shows "trie_wf h q"
  unfolding trie_wf_def
proof (intro conjI ballI allI impI)
  fix p assume "p \<in> reach h q"
  then obtain ls where "follow h r (ks @ ls) = Some p"
    using assms(2) by (auto simp: reach_def follow_append)
  with assms(1) show "t_mem h p \<noteq> None" by (auto dest: wf_alloc)
next
  fix ls ls' p
  assume "follow h q ls = Some p" "follow h q ls' = Some p"
  then have "ks @ ls = ks @ ls'"
    using assms by (intro wf_unique [OF assms(1)]) (auto simp: follow_append)
  then show "ls = ls'" by simp
qed

section \<open>Walking without creation: lookup and scan\<close>

text \<open>The loop as a recursion over the bytes still to be read.\<close>

fun walk_list :: "addr \<Rightarrow> byte list \<Rightarrow> bool \<Rightarrow> bool \<Rightarrow> theap \<Rightarrow> (walk \<times> theap) res" where
  "walk_list node [] create scan h = Inr (Reached node, h)"
| "walk_list node (k # ks) create scan h =
     rbind (walk_child node k create h) (\<lambda>(c, h1).
     case c of
       None \<Rightarrow> Inr (Returned None, h1)
     | Some node' \<Rightarrow>
         rbind (scan_stops scan node' h1) (\<lambda>stop.
         if stop then Inr (Returned (Some node'), h1)
         else walk_list node' ks create scan h1))"

lemma walk_loop_list:
  "nat sz \<le> length target \<Longrightarrow>
    walk_loop node target sz i create scan h
      = walk_list node (drop i (take (nat sz) target)) create scan h"
proof (induction node target sz i create scan h rule: walk_loop.induct)
  case (1 node target sz i create scan h)
  show ?case
  proof (cases "int i < sz")
    case True
    then have i: "i < length target" "i < nat sz" using "1.prems" by auto
    then have d: "drop i (take (nat sz) target) = target ! i # drop (Suc i) (take (nat sz) target)"
      using Cons_nth_drop_Suc [of i "take (nat sz) target"] by simp
    have IH: "walk_loop node' target sz (Suc i) create scan h1
        = walk_list node' (drop (Suc i) (take (nat sz) target)) create scan h1"
      if "walk_child node (target ! i) create h = Inr (Some node', h1)"
        "scan_stops scan node' h1 = Inr False" for node' h1
      using "1.IH" [of "target ! i" "(Some node', h1)" "Some node'" h1 node' False] that True i "1.prems"
      by simp
    show ?thesis
      unfolding d using True i IH
      by (subst walk_loop.simps)
         (auto simp: rbind_def split: option.splits sum.splits prod.splits)
  next
    case False
    then show ?thesis by (subst walk_loop.simps) simp
  qed
qed

lemma walk_child_find:
  "t_mem h a = Some n \<Longrightarrow> walk_child a k False h = Inr (child_at h a k, h)"
  by (simp add: walk_child_def deref_def child_at_def split: option.split)

lemma wf_child:
  assumes "trie_wf h a" and "child_at h a k = Some c"
  shows "trie_wf h c"
  using wf_below [of h a "[k]" c] assms by (simp add: follow_Cons)

lemma walk_list_lookup:
  "trie_wf h a \<Longrightarrow> walk_list a ks False False h
     = Inr (case follow h a ks of None \<Rightarrow> Returned None | Some q \<Rightarrow> Reached q, h)"
proof (induction ks arbitrary: a)
  case (Cons k ks)
  obtain n where "t_mem h a = Some n"
    using wf_alloc [OF Cons.prems, of "[]" a] by auto
  then show ?case
    using Cons wf_child [OF Cons.prems]
    by (auto simp: walk_child_find follow_Cons scan_stops_def split: option.split)
qed simp

lemma trie_keys_Nil: "[] \<in> trie_keys h a \<longleftrightarrow> leaf_at h a"
  by (simp add: trie_keys_def)

lemma trie_keys_Cons:
  "k # ks \<in> trie_keys h a \<longleftrightarrow> (\<exists>c. child_at h a k = Some c \<and> ks \<in> trie_keys h c)"
  by (cases "child_at h a k") (auto simp: trie_keys_def follow_Cons)

definition has_key_prefix :: "theap \<Rightarrow> addr \<Rightarrow> byte list \<Rightarrow> bool" where
  "has_key_prefix h a ks \<longleftrightarrow> (\<exists>n. 0 < n \<and> n \<le> length ks \<and> take n ks \<in> trie_keys h a)"

lemma has_key_prefix_Cons:
  "has_key_prefix h a (k # ks) \<longleftrightarrow>
     (\<exists>c. child_at h a k = Some c \<and> (leaf_at h c \<or> has_key_prefix h c ks))" (is "?L \<longleftrightarrow> ?R")
proof
  assume ?L
  then obtain n where n: "n \<le> length ks" "k # take n ks \<in> trie_keys h a"
    unfolding has_key_prefix_def by (metis Suc_le_mono gr0_implies_Suc length_Cons take_Suc_Cons)
  then show ?R
    by (cases n) (auto simp: trie_keys_Cons trie_keys_Nil has_key_prefix_def)
next
  assume ?R
  then obtain c where c: "child_at h a k = Some c" "leaf_at h c \<or> has_key_prefix h c ks" by blast
  from c(2) obtain n where "n \<le> length ks" "take n ks \<in> trie_keys h c"
    unfolding has_key_prefix_def by (metis le0 take_0 trie_keys_Nil)
  with c(1) show ?L
    unfolding has_key_prefix_def by (intro exI [of _ "Suc n"]) (auto simp: trie_keys_Cons)
qed

text \<open>A scan stops at the first leaf on its way and leaves the heap alone.\<close>

lemma walk_list_scan:
  "trie_wf h a \<Longrightarrow> \<exists>w. walk_list a ks False True h = Inr (w, h) \<and>
     (case w of
        Returned None \<Rightarrow> \<not> has_key_prefix h a ks
      | Returned (Some q) \<Rightarrow> has_key_prefix h a ks \<and> leaf_at h q
      | Reached q \<Rightarrow> \<not> has_key_prefix h a ks \<and> follow h a ks = Some q)"
proof (induction ks arbitrary: a)
  case Nil
  then show ?case by (simp add: has_key_prefix_def)
next
  case (Cons k ks)
  obtain n where n: "t_mem h a = Some n"
    using wf_alloc [OF Cons.prems, of "[]" a] by auto
  show ?case
  proof (cases "child_at h a k")
    case None
    with n show ?thesis by (simp add: walk_child_find has_key_prefix_Cons)
  next
    case (Some c)
    then have c: "trie_wf h c" using Cons.prems by (rule wf_child [rotated])
    then obtain m where m: "t_mem h c = Some m" using wf_alloc [of h c "[]" c] by auto
    have stop: "scan_stops True c h = Inr (leaf_at h c)"
      by (simp add: scan_stops_def deref_def leaf_at_def m)
    show ?thesis
    proof (cases "leaf_at h c")
      case True
      with n Some stop show ?thesis by (simp add: walk_child_find has_key_prefix_Cons)
    next
      case False
      have eqs: "has_key_prefix h a (k # ks) = has_key_prefix h c ks"
        "follow h a (k # ks) = follow h c ks"
        "walk_list a (k # ks) False True h = walk_list c ks False True h"
        using n Some stop False by (simp_all add: has_key_prefix_Cons follow_Cons walk_child_find)
      show ?thesis unfolding eqs by (rule Cons.IH [OF c])
    qed
  qed
qed

lemma trie_lookup_list:
  assumes "trie_wf h r" and "0 < sz" and "nat sz \<le> length target"
  defines "ks \<equiv> take (nat sz) target"
  shows "\<exists>res. trie_lookup (Some r) target sz h = Inr (res, h) \<and> (res \<noteq> None \<longleftrightarrow> ks \<in> trie_keys h r)"
proof (cases "follow h r ks")
  case None
  then show ?thesis
    using assms by (simp add: trie_lookup_def assert_args_def trie_walk_def walk_loop_list
        walk_list_lookup trie_keys_def)
next
  case (Some q)
  then obtain n where "t_mem h q = Some n" using wf_alloc [OF assms(1)] by blast
  with Some show ?thesis
    using assms by (simp add: trie_lookup_def assert_args_def trie_walk_def walk_loop_list
        walk_list_lookup trie_keys_def deref_def leaf_at_def)
qed

lemma trie_scan_list:
  assumes "trie_wf h r" and "0 < sz" and "nat sz \<le> length target"
  defines "ks \<equiv> take (nat sz) target"
  shows "\<exists>res. trie_scan (Some r) target sz h = Inr (res, h) \<and> (res \<noteq> None \<longleftrightarrow> has_key_prefix h r ks)
           \<and> (\<forall>q. res = Some q \<longrightarrow> leaf_at h q)"
proof -
  have ne: "ks \<noteq> []" using assms by (auto simp: ks_def)
  obtain w where w: "walk_list r ks False True h = Inr (w, h)"
    "case w of
        Returned None \<Rightarrow> \<not> has_key_prefix h r ks
      | Returned (Some q) \<Rightarrow> has_key_prefix h r ks \<and> leaf_at h q
      | Reached q \<Rightarrow> \<not> has_key_prefix h r ks \<and> follow h r ks = Some q"
    using walk_list_scan [OF assms(1), of ks] by blast
  show ?thesis
  proof (cases w)
    case (Returned res)
    with w assms show ?thesis
      by (auto simp: trie_scan_def assert_args_def trie_walk_def walk_loop_list split: option.splits)
  next
    case (Reached q)
    with w obtain n where n: "t_mem h q = Some n" and q: "follow h r ks = Some q"
      using wf_alloc [OF assms(1)] by fastforce
    have "\<not> isleaf n"
    proof
      assume "isleaf n"
      then have "ks \<in> trie_keys h r" using q n by (auto simp: trie_keys_def leaf_at_def)
      then have "has_key_prefix h r ks"
        using ne by (auto simp: has_key_prefix_def intro!: exI [of _ "length ks"])
      with w Reached show False by simp
    qed
    with Reached w n assms show ?thesis
      by (auto simp: trie_scan_def assert_args_def trie_walk_def walk_loop_list deref_def)
  qed
qed

section \<open>Walking with creation: insert\<close>

text \<open>The heap after a fresh node \<open>f\<close> has been hung below \<open>a\<close> at index \<open>k\<close>.\<close>

definition hang_node :: "theap \<Rightarrow> addr \<Rightarrow> byte \<Rightarrow> theap" where
  "hang_node h a k =
     h\<lparr>t_mem := (\<lambda>x. if x = t_next h then Some zero_node
                     else if x = a then map_option (children_update (\<lambda>c. c(k \<mapsto> t_next h))) (t_mem h a)
                     else t_mem h x),
       t_next := Suc (t_next h), t_quota := t_quota h - 1\<rparr>"

lemma walk_child_create:
  assumes "t_mem h a = Some n" and "a < t_next h" and "children n k = None" and "0 < t_quota h"
  shows "walk_child a k True h = Inr (Some (t_next h), hang_node h a k)"
proof -
  have "(t_mem h)(t_next h \<mapsto> zero_node, a \<mapsto> n\<lparr>children := (children n)(k := Some (t_next h))\<rparr>)
      = t_mem (hang_node h a k)"
    using assms by (auto simp: hang_node_def)
  then show ?thesis
    using assms
    by (simp add: walk_child_def trie_init_def trie_malloc_def memset_node_def set_child_def
        deref_def hang_node_def)
qed

lemma walk_child_exists:
  "t_mem h a = Some n \<Longrightarrow> children n k = Some c \<Longrightarrow> walk_child a k create h = Inr (Some c, h)"
  by (simp add: walk_child_def deref_def)

lemma child_at_hang:
  assumes "t_mem h a = Some n" and "a < t_next h"
  shows "child_at (hang_node h a k) b x =
    (if b = t_next h then None else if b = a \<and> x = k then Some (t_next h) else child_at h b x)"
  using assms by (auto simp: child_at_def hang_node_def zero_node_def)

lemma leaf_at_hang:
  assumes "t_mem h a = Some n" and "a < t_next h"
  shows "leaf_at (hang_node h a k) b = (b \<noteq> t_next h \<and> leaf_at h b)"
  using assms by (auto simp: leaf_at_def hang_node_def zero_node_def)

lemma mem_hang:
  "t_mem h a = Some n \<Longrightarrow> t_mem (hang_node h a k) b = None \<longleftrightarrow> b \<noteq> t_next h \<and> t_mem h b = None"
  by (auto simp: hang_node_def)

lemma wf_follow_less:
  "trie_wf h r \<Longrightarrow> heap_ok h \<Longrightarrow> follow h r ks = Some q \<Longrightarrow> q < t_next h"
  by (auto simp: heap_ok_def dest: wf_alloc)

text \<open>
  Exactly one path is new, the one to the fresh node; the paths below it do not exist and every
  other path leads where it led.
\<close>

lemma follow_hang:
  assumes wf: "trie_wf h r" "heap_ok h" and a: "follow h r pre = Some a" and k: "child_at h a k = None"
  shows "follow (hang_node h a k) r ks =
    (if ks = pre @ [k] then Some (t_next h)
     else if prefix (pre @ [k]) ks then None else follow h r ks)"
proof (induction ks rule: rev_induct)
  case Nil
  then show ?case by simp
next
  case (snoc x ks)
  obtain n where n: "t_mem h a = Some n" using wf_alloc [OF wf(1) a] by blast
  have an: "a < t_next h" by (rule wf_follow_less [OF wf a])
  note child = child_at_hang [OF n an, of k]
  consider "ks = pre @ [k]" | "ks \<noteq> pre @ [k]" "prefix (pre @ [k]) ks"
    | "\<not> prefix (pre @ [k]) ks" by blast
  then show ?case
  proof cases
    case 1
    with snoc have "follow (hang_node h a k) r ks = Some (t_next h)" by simp
    moreover have "ks @ [x] \<noteq> pre @ [k]" "prefix (pre @ [k]) (ks @ [x])" using 1 by simp_all
    ultimately show ?thesis by (simp add: follow_snoc child)
  next
    case 2
    then show ?thesis using snoc by (auto simp: follow_snoc prefix_snoc)
  next
    case 3
    then have eq: "follow (hang_node h a k) r ks = follow h r ks" using snoc by auto
    show ?thesis
    proof (cases "follow h r ks")
      case None
      with a have "ks \<noteq> pre" by auto
      with 3 None eq show ?thesis by (auto simp: follow_snoc prefix_snoc)
    next
      case (Some b)
      then have "b = a \<longleftrightarrow> ks = pre" using wf_unique [OF wf(1) a, of ks] a by auto
      moreover have "b \<noteq> t_next h" using wf_follow_less [OF wf Some] by simp
      ultimately show ?thesis
        using 3 Some eq k by (auto simp: follow_snoc prefix_snoc child)
    qed
  qed
qed

lemma hang_node_wf:
  assumes wf: "trie_wf h r" "heap_ok h" and a: "follow h r pre = Some a" and k: "child_at h a k = None"
  shows "trie_wf (hang_node h a k) r" "heap_ok (hang_node h a k)"
    "follow (hang_node h a k) r (pre @ [k]) = Some (t_next h)"
    "trie_keys (hang_node h a k) r = trie_keys h r"
proof -
  obtain n where n: "t_mem h a = Some n" using wf_alloc [OF wf(1) a] by blast
  have an: "a < t_next h" by (rule wf_follow_less [OF wf a])
  note f = follow_hang [OF wf a k]
  show "follow (hang_node h a k) r (pre @ [k]) = Some (t_next h)" by (simp add: f)
  show "heap_ok (hang_node h a k)"
    using wf(2) n by (auto simp: heap_ok_def hang_node_def less_Suc_eq split: if_splits)
  have "t_mem (hang_node h a k) q \<noteq> None" if "follow (hang_node h a k) r ks = Some q" for ks q
    using that wf_alloc [OF wf(1), of ks q] by (auto simp: f mem_hang [OF n] split: if_splits)
  moreover have "ks = ks'"
    if "follow (hang_node h a k) r ks = Some q" "follow (hang_node h a k) r ks' = Some q" for ks ks' q
    using that wf_unique [OF wf(1)] wf_follow_less [OF wf, of _ "t_next h"]
    by (auto simp: f split: if_splits)
  ultimately show "trie_wf (hang_node h a k) r"
    by (auto simp: trie_wf_def reach_def)
  have none: "follow h r ks = None" if "prefix (pre @ [k]) ks" for ks
    using that a k by (auto simp: prefix_def follow_append follow_Cons)
  show "trie_keys (hang_node h a k) r = trie_keys h r"
    using none wf_follow_less [OF wf]
    by (fastforce simp: trie_keys_def f leaf_at_hang [OF n an] split: if_splits)
qed

lemma walk_list_create:
  "trie_wf h r \<Longrightarrow> heap_ok h \<Longrightarrow> follow h r pre = Some a \<Longrightarrow> length ks \<le> t_quota h \<Longrightarrow>
    \<exists>q h'. walk_list a ks True False h = Inr (Reached q, h') \<and> trie_wf h' r \<and> heap_ok h' \<and>
      follow h' r (pre @ ks) = Some q \<and> trie_keys h' r = trie_keys h r \<and>
      t_quota h \<le> t_quota h' + length ks"
proof (induction ks arbitrary: a pre h)
  case Nil
  then show ?case by simp
next
  case (Cons k ks)
  obtain n where n: "t_mem h a = Some n" using wf_alloc [OF Cons.prems(1,3)] by blast
  show ?case
  proof (cases "children n k")
    case (Some c)
    with n have "follow h r (pre @ [k]) = Some c"
      using Cons.prems(3) by (simp add: follow_snoc child_at_def)
    then show ?thesis
      using Cons.IH [of h "pre @ [k]" c] Cons.prems n Some
      by (fastforce simp: walk_child_exists scan_stops_def)
  next
    case None
    then have k: "child_at h a k = None" using n by (simp add: child_at_def)
    note new = hang_node_wf [OF Cons.prems(1-3) k]
    have q: "length ks \<le> t_quota (hang_node h a k)"
      "t_quota h \<le> Suc (t_quota (hang_node h a k))"
      using Cons.prems(4) by (simp_all add: hang_node_def)
    have "walk_child a k True h = Inr (Some (t_next h), hang_node h a k)"
      using n None Cons.prems wf_follow_less [OF Cons.prems(1-3)] by (intro walk_child_create) auto
    then show ?thesis
      using Cons.IH [OF new(1-3) q(1)] q(2) new(4) by (fastforce simp: scan_stops_def)
  qed
qed

lemma set_leaf_facts:
  assumes "t_mem h q = Some n"
  defines "h' \<equiv> h\<lparr>t_mem := (t_mem h)(q \<mapsto> n\<lparr>isleaf := True\<rparr>)\<rparr>"
  shows "set_leaf q h = Inr h'" "follow h' a ks = follow h a ks"
    "leaf_at h' b = (b = q \<or> leaf_at h b)" "t_mem h' b = None \<longleftrightarrow> t_mem h b = None"
    "heap_ok h \<Longrightarrow> heap_ok h'"
proof -
  show "set_leaf q h = Inr h'" using assms by (simp add: set_leaf_def deref_def)
  have "child_at h' b k = child_at h b k" for b k
    using assms by (simp add: child_at_def)
  then show "follow h' a ks = follow h a ks"
    by (induction ks arbitrary: a) (simp_all add: follow_Cons)
qed (use assms in \<open>auto simp: leaf_at_def heap_ok_def split: if_splits\<close>)

lemma trie_insert_list:
  assumes wf: "trie_wf h r" "heap_ok h" and "0 < sz" "nat sz \<le> length target"
    and room: "nat sz \<le> t_quota h"
  defines "ks \<equiv> take (nat sz) target"
  shows "\<exists>res h'. trie_insert (Some r) target sz h = Inr (res, h') \<and> trie_wf h' r \<and> heap_ok h' \<and>
      trie_keys h' r = insert ks (trie_keys h r) \<and> (res = None \<longleftrightarrow> ks \<in> trie_keys h r) \<and>
      t_quota h \<le> t_quota h' + nat sz"
proof -
  have len: "length ks = nat sz" using assms by simp
  obtain q h1 where w: "walk_list r ks True False h = Inr (Reached q, h1)" "trie_wf h1 r" "heap_ok h1"
      "follow h1 r ks = Some q" "trie_keys h1 r = trie_keys h r" "t_quota h \<le> t_quota h1 + length ks"
    using walk_list_create [OF wf, of "[]" r ks] room len by auto
  obtain n where n: "t_mem h1 q = Some n" using wf_alloc [OF w(2,4)] by blast
  have leaf: "isleaf n \<longleftrightarrow> ks \<in> trie_keys h r"
    unfolding w(5) [symmetric] using w(4) n by (simp add: trie_keys_def leaf_at_def)
  have ins: "trie_insert (Some r) target sz h =
      (if isleaf n then Inr (None, h1)
       else rbind (set_leaf q h1) (\<lambda>h2.
            rbind (deref q h2) (\<lambda>n2. Inr (if isleaf n2 then Some q else None, h2))))"
    using assms w(1) n
    by (simp add: trie_insert_def assert_args_def trie_walk_def walk_loop_list ks_def deref_def)
  show ?thesis
  proof (cases "isleaf n")
    case True
    with ins leaf w len show ?thesis by auto
  next
    case False
    define h2 where "h2 = h1\<lparr>t_mem := (t_mem h1)(q \<mapsto> n\<lparr>isleaf := True\<rparr>)\<rparr>"
    note sl = set_leaf_facts [OF n, folded h2_def]
    have "trie_keys h2 r = {ls. \<exists>b. follow h1 r ls = Some b \<and> (b = q \<or> leaf_at h1 b)}"
      by (simp add: trie_keys_def sl(2,3))
    also have "\<dots> = insert ks (trie_keys h1 r)"
      using w(4) wf_unique [OF w(2,4)] unfolding trie_keys_def by blast
    finally have "trie_keys h2 r = insert ks (trie_keys h1 r)" .
    moreover have "trie_wf h2 r"
      using w(2) by (auto simp: trie_wf_def reach_def sl(2,4))
    moreover have "deref q h2 = Inr (n\<lparr>isleaf := True\<rparr>)" "t_quota h2 = t_quota h1"
      by (simp_all add: deref_def h2_def)
    ultimately show ?thesis
      using False ins leaf w len sl(1,5) by auto
  qed
qed

section \<open>Destruction\<close>

lemma follow_frame:
  assumes "\<And>q. q \<in> reach h a \<Longrightarrow> t_mem h' q = t_mem h q"
  shows "follow h' a ks = follow h a ks"
proof (induction ks rule: rev_induct)
  case (snoc k ks)
  then show ?case
    using assms by (cases "follow h a ks") (auto simp: follow_snoc child_at_def dest: reachI)
qed simp

lemma reach_frame:
  assumes "\<And>q. q \<in> reach h a \<Longrightarrow> t_mem h' q = t_mem h q"
  shows "reach h' a = reach h a"
proof -
  have "follow h' a ks = follow h a ks" for ks using assms by (rule follow_frame)
  then show ?thesis by (simp add: reach_def)
qed

lemma wf_frame:
  assumes "trie_wf h a" and "\<And>q. q \<in> reach h a \<Longrightarrow> t_mem h' q = t_mem h q"
  shows "trie_wf h' a"
proof -
  have "follow h' a ks = follow h a ks" for ks using assms(2) by (rule follow_frame)
  moreover have "reach h' a = reach h a" using assms(2) by (rule reach_frame)
  ultimately show ?thesis using assms by (simp add: trie_wf_def)
qed

lemma reach_children:
  assumes "trie_wf h a"
  shows "reach h a = insert a (\<Union>k. \<Union>c \<in> set_option (child_at h a k). reach h c)"
proof (intro set_eqI iffI)
  fix q assume "q \<in> reach h a"
  then obtain ks where "follow h a ks = Some q" by (auto simp: reach_def)
  then show "q \<in> insert a (\<Union>k. \<Union>c \<in> set_option (child_at h a k). reach h c)"
    by (cases ks) (auto simp: follow_Cons reach_def bind_eq_Some_conv)
next
  fix q assume "q \<in> insert a (\<Union>k. \<Union>c \<in> set_option (child_at h a k). reach h c)"
  then show "q \<in> reach h a"
    by (auto simp: reach_def follow_Cons bind_eq_Some_conv intro: exI [of _ "[]"])
       (metis bind.bind_lunit follow_Cons)
qed

lemma children_disjoint:
  assumes "trie_wf h a" and "child_at h a k = Some c" and "child_at h a k' = Some c'" and "k \<noteq> k'"
  shows "reach h c \<inter> reach h c' = {}"
proof -
  have "k # ks = k' # ks'" if "follow h c ks = Some q" "follow h c' ks' = Some q" for q ks ks'
    using that assms(2,3) by (intro wf_unique [OF assms(1), of _ q]) (simp_all add: follow_Cons)
  with assms(4) show ?thesis by (auto simp: reach_def)
qed

lemma parent_not_reached:
  assumes "trie_wf h a" and "child_at h a k = Some c"
  shows "a \<notin> reach h c"
proof
  assume "a \<in> reach h c"
  then obtain ks where "follow h c ks = Some a" by (auto simp: reach_def)
  then have "k # ks = []"
    using assms(2) by (intro wf_unique [OF assms(1), of _ a]) (simp_all add: follow_Cons)
  then show False by simp
qed

lemma all_bytes_UNIV: "set all_bytes = UNIV"
proof -
  have "(b :: byte) \<in> of_nat ` {0..<256}" for b
    using unsigned_less [of b, where 'a = nat] by (intro image_eqI [of _ _ "unat b"]) simp_all
  then show ?thesis by (auto simp: all_bytes_def)
qed

lemma distinct_all_bytes: "distinct all_bytes"
proof -
  have "inj_on (of_nat :: nat \<Rightarrow> byte) {0..<256}"
  proof (rule inj_onI)
    fix x y :: nat
    assume "x \<in> {0..<256}" "y \<in> {0..<256}" "(of_nat x :: byte) = of_nat y"
    then have "unat (of_nat x :: byte) = unat (of_nat y :: byte)" "x < 256" "y < 256" by simp_all
    then show "x = y" by (simp add: unat_of_nat)
  qed
  then show ?thesis by (simp add: all_bytes_def distinct_map)
qed

definition freed :: "theap \<Rightarrow> addr set \<Rightarrow> theap \<Rightarrow> bool" where
  "freed h A h' \<longleftrightarrow> t_mem h' = (\<lambda>q. if q \<in> A then None else t_mem h q) \<and> t_next h' = t_next h"

definition below :: "theap \<Rightarrow> addr \<Rightarrow> byte set \<Rightarrow> addr set" where
  "below h a K = (\<Union>k \<in> K. \<Union>c \<in> set_option (child_at h a k). reach h c)"

text \<open>
  The loop over the children, given that the recursive call frees exactly the nodes below each
  child: a child destroyed later is not touched by those destroyed before.
\<close>

lemma destroy_children_ok:
  assumes wf: "trie_wf h a"
    and rec: "\<And>c g k. child_at h a k = Some c \<Longrightarrow> trie_wf g c \<Longrightarrow> reach g c = reach h c \<Longrightarrow>
      (\<And>ks. follow g c ks = follow h c ks) \<Longrightarrow> \<exists>g'. destroy c g = Inr g' \<and> freed g (reach h c) g'"
  shows "distinct ks \<Longrightarrow> set ks \<inter> D = {} \<Longrightarrow> freed h (below h a D) g \<Longrightarrow>
    \<exists>g'. destroy_children destroy a ks g = Inr g' \<and> freed h (below h a (D \<union> set ks)) g'"
proof (induction ks arbitrary: D g)
  case Nil
  then show ?case by simp
next
  case (Cons k ks)
  obtain n where n: "t_mem h a = Some n" using wf_alloc [OF wf, of "[]" a] by auto
  have "a \<notin> below h a D"
    using parent_not_reached [OF wf] by (auto simp: below_def)
  then have ga: "deref a g = Inr n" using Cons.prems(3) n by (simp add: freed_def deref_def)
  have nk: "children n k = child_at h a k" using n by (simp add: child_at_def)
  note IH = Cons.IH [of "insert k D"]
  show ?case
  proof (cases "child_at h a k")
    case None
    then have "below h a (insert k D) = below h a D" by (auto simp: below_def)
    with IH [of g] Cons.prems None ga nk show ?thesis by simp
  next
    case (Some c)
    have "reach h c \<inter> below h a D = {}"
      using children_disjoint [OF wf Some] Cons.prems(2) by (fastforce simp: below_def)
    then have frame: "t_mem g q = t_mem h q" if "q \<in> reach h c" for q
      using that Cons.prems(3) by (auto simp: freed_def)
    obtain g1 where g1: "destroy c g = Inr g1" "freed g (reach h c) g1"
      using rec [OF Some wf_frame [OF wf_child [OF wf Some] frame] reach_frame [OF frame]
          follow_frame [OF frame]] by blast
    have "below h a (insert k D) = below h a D \<union> reach h c"
      using Some by (auto simp: below_def)
    then have "freed h (below h a (insert k D)) g1"
      using g1(2) Cons.prems(3) by (auto simp: freed_def)
    with IH [of g1] Cons.prems g1 Some ga nk show ?thesis by simp
  qed
qed

lemma trie_destroy_ok:
  "trie_wf h a \<Longrightarrow> (\<And>ks. follow h a ks \<noteq> None \<Longrightarrow> length ks < d) \<Longrightarrow>
    \<exists>h'. trie_destroy d a h = Inr h' \<and> freed h (reach h a) h'"
proof (induction d arbitrary: a h)
  case 0
  from "0.prems"(2) [of "[]"] show ?case by simp
next
  case (Suc d)
  obtain n where n: "t_mem h a = Some n" using wf_alloc [OF Suc.prems(1), of "[]" a] by auto
  have "\<exists>g'. destroy_children (trie_destroy d) a all_bytes h = Inr g' \<and>
      freed h (below h a ({} \<union> set all_bytes)) g'"
  proof (rule destroy_children_ok [OF Suc.prems(1)])
    fix c g k
    assume c: "child_at h a k = Some c" and "trie_wf g c" "reach g c = reach h c"
      and f: "\<And>ks. follow g c ks = follow h c ks"
    have "length ks < d" if "follow g c ks \<noteq> None" for ks
      using Suc.prems(2) [of "k # ks"] that c f by (simp add: follow_Cons)
    with \<open>trie_wf g c\<close> \<open>reach g c = reach h c\<close> Suc.IH [of g c]
    show "\<exists>g'. trie_destroy d c g = Inr g' \<and> freed g (reach h c) g'" by simp
  qed (simp_all add: distinct_all_bytes freed_def below_def)
  then obtain g where g: "destroy_children (trie_destroy d) a all_bytes h = Inr g"
      "freed h (below h a UNIV) g"
    by (auto simp: all_bytes_UNIV)
  have "a \<notin> below h a UNIV"
    using parent_not_reached [OF Suc.prems(1)] by (auto simp: below_def)
  moreover have "reach h a = insert a (below h a UNIV)"
    unfolding below_def using Suc.prems(1) by (rule reach_children)
  ultimately show ?case
    using g n by (auto simp: trie_free_def freed_def fun_eq_iff)
qed

text \<open>Paths are shorter than the number of addresses ever handed out: a bound for the recursion.\<close>

lemma path_length:
  assumes wf: "trie_wf h r" "heap_ok h" and q: "follow h r ks = Some q"
  shows "length ks < t_next h"
proof -
  let ?f = "\<lambda>i. the (follow h r (take i ks))"
  have ex: "\<exists>p. follow h r (take i ks) = Some p" for i
    using q by (metis append_take_drop_id bind_eq_Some_conv follow_append)
  have "inj_on ?f {..length ks}"
  proof (rule inj_onI)
    fix i j assume "i \<in> {..length ks}" "j \<in> {..length ks}" and eq: "?f i = ?f j"
    moreover have "take i ks = take j ks"
      using ex [of i] ex [of j] eq by (auto intro: wf_unique [OF wf(1)])
    ultimately show "i = j" by (metis atMost_iff length_take min.absorb2)
  qed
  then have "card (?f ` {..length ks}) = Suc (length ks)" by (simp add: card_image)
  moreover have "?f ` {..length ks} \<subseteq> {..<t_next h}"
    using ex wf_follow_less [OF wf] by fastforce
  then have "card (?f ` {..length ks}) \<le> t_next h"
    using card_mono [of "{..<t_next h}"] by fastforce
  ultimately show ?thesis by simp
qed

lemma trie_init_ok:
  assumes "heap_ok h" and "0 < t_quota h"
  shows "\<exists>h'. trie_init None h = Inr (Some (t_next h), h') \<and> trie_wf h' (t_next h) \<and> heap_ok h' \<and>
      trie_keys h' (t_next h) = {} \<and> t_quota h' = t_quota h - 1 \<and> t_next h' = Suc (t_next h)"
proof -
  let ?h = "h\<lparr>t_next := Suc (t_next h), t_quota := t_quota h - 1,
    t_mem := (t_mem h)(t_next h \<mapsto> zero_node)\<rparr>"
  have init: "trie_init None h = Inr (Some (t_next h), ?h)"
    using assms by (simp add: trie_init_def trie_malloc_def memset_node_def)
  have "follow ?h (t_next h) ks = (if ks = [] then Some (t_next h) else None)" for ks
    by (cases ks) (simp_all add: follow_Cons child_at_def zero_node_def)
  moreover from this have "trie_wf ?h (t_next h)"
    by (auto simp: trie_wf_def reach_def split: if_splits)
  moreover have "heap_ok ?h" using assms by (auto simp: heap_ok_def less_Suc_eq)
  ultimately show ?thesis
    using init by (simp add: trie_keys_def leaf_at_def zero_node_def)
qed

lemma trie_insert_take:
  "nat sz \<le> length target \<Longrightarrow>
    trie_insert root target sz h = trie_insert root (take (nat sz) target) sz h"
  by (simp add: trie_insert_def trie_walk_def walk_loop_list)

section \<open>The contract of a key store with prefix scan\<close>

locale prefix_store =
  fixes ins :: "byte list \<Rightarrow> 'h \<Rightarrow> ('r \<times> 'h) res"
    and scan :: "byte list \<Rightarrow> 'h \<Rightarrow> bool res"
    and inv :: "'h \<Rightarrow> bool"
    and keys :: "'h \<Rightarrow> byte list set"
    and room :: "'h \<Rightarrow> nat"
  assumes ins_ok: "inv h \<Longrightarrow> ks \<noteq> [] \<Longrightarrow> length ks \<le> room h \<Longrightarrow>
      \<exists>r h'. ins ks h = Inr (r, h') \<and> inv h' \<and> keys h' = insert ks (keys h) \<and>
        room h \<le> room h' + length ks"
    and scan_ok: "inv h \<Longrightarrow> ks \<noteq> [] \<Longrightarrow>
      scan ks h = Inr (\<exists>n. 0 < n \<and> n \<le> length ks \<and> take n ks \<in> keys h)"
begin

lemma ins_all:
  "inv h \<Longrightarrow> [] \<notin> set rows \<Longrightarrow> sum_list (map length rows) \<le> room h \<Longrightarrow>
    \<exists>h'. for_each (\<lambda>ks s. rbind (ins ks s) (\<lambda>(r, s'). Inr s')) rows h = Inr h' \<and> inv h' \<and>
      keys h' = set rows \<union> keys h"
proof (induction rows arbitrary: h)
  case (Cons ks rows)
  then obtain r h1 where "ins ks h = Inr (r, h1)" "inv h1" "keys h1 = insert ks (keys h)"
      "room h \<le> room h1 + length ks"
    using ins_ok [of h ks] by auto
  with Cons.IH [of h1] Cons.prems show ?case by auto
qed simp

lemma scan_prefix:
  assumes "inv h" and "ks \<noteq> []" and "[] \<notin> keys h"
  shows "scan ks h = Inr (\<exists>row \<in> keys h. prefix row ks)"
proof -
  have "(\<exists>n. 0 < n \<and> n \<le> length ks \<and> take n ks \<in> keys h) \<longleftrightarrow> (\<exists>row \<in> keys h. prefix row ks)"
  proof
    assume "\<exists>row \<in> keys h. prefix row ks"
    then obtain row zs where "row \<in> keys h" "ks = row @ zs" by (auto simp: prefix_def)
    with assms(3) show "\<exists>n. 0 < n \<and> n \<le> length ks \<and> take n ks \<in> keys h"
      by (intro exI [of _ "length row"]) auto
  qed (auto intro: take_is_prefix)
  with scan_ok [OF assms(1,2)] show ?thesis by simp
qed

end

interpretation trie_store: prefix_store
  "\<lambda>ks h. trie_insert (Some r) ks (int (length ks)) h"
  "\<lambda>ks h. rbind (trie_scan (Some r) ks (int (length ks)) h) (\<lambda>(res, h'). Inr (res \<noteq> None))"
  "\<lambda>h. trie_wf h r \<and> heap_ok h" "\<lambda>h. trie_keys h r" t_quota
  for r
proof unfold_locales
  fix h :: theap and ks :: "byte list"
  assume "trie_wf h r \<and> heap_ok h" "ks \<noteq> []" "length ks \<le> t_quota h"
  then show "\<exists>res h'. trie_insert (Some r) ks (int (length ks)) h = Inr (res, h') \<and>
      (trie_wf h' r \<and> heap_ok h') \<and> trie_keys h' r = insert ks (trie_keys h r) \<and>
      t_quota h \<le> t_quota h' + length ks"
    using trie_insert_list [of h r "int (length ks)" ks] by fastforce
next
  fix h :: theap and ks :: "byte list"
  assume "trie_wf h r \<and> heap_ok h" "ks \<noteq> []"
  then show "rbind (trie_scan (Some r) ks (int (length ks)) h) (\<lambda>(res, h'). Inr (res \<noteq> None))
      = Inr (\<exists>n. 0 < n \<and> n \<le> length ks \<and> take n ks \<in> trie_keys h r)"
    using trie_scan_list [of h r "int (length ks)" ks] by (auto simp: has_key_prefix_def)
qed

section \<open>Properties\<close>

text \<open>The heap after the first \<open>trie_init\<close>, with room for \<open>q\<close> more nodes.\<close>

definition root_heap :: "nat \<Rightarrow> theap" where
  "root_heap q = \<lparr>t_mem = [0 \<mapsto> zero_node], t_next = 1, t_quota = q\<rparr>"

lemma root_heap_ok:
  "trie_wf (root_heap q) 0" "heap_ok (root_heap q)" "trie_keys (root_heap q) 0 = {}"
  "t_quota (root_heap q) = q" "t_next (root_heap q) = 1"
proof -
  let ?h = "\<lparr>t_mem = (\<lambda>_. None), t_next = 0, t_quota = Suc q\<rparr>"
  have "trie_init None ?h = Inr (Some 0, root_heap q)"
    by (simp add: trie_init_def trie_malloc_def memset_node_def root_heap_def)
  then show "trie_wf (root_heap q) 0" "heap_ok (root_heap q)" "trie_keys (root_heap q) 0 = {}"
    using trie_init_ok [of ?h] by (auto simp: heap_ok_def)
qed (simp_all add: root_heap_def)

lemma walk_list_oom:
  "trie_wf h a \<Longrightarrow> t_quota h = 0 \<Longrightarrow> follow h a ks = None \<Longrightarrow>
    walk_list a ks True False h = Inl NullDeref"
proof (induction ks arbitrary: a)
  case (Cons k ks)
  obtain n where n: "t_mem h a = Some n" using wf_alloc [OF Cons.prems(1), of "[]" a] by auto
  show ?case
  proof (cases "children n k")
    case None
    with n Cons.prems(2) show ?thesis
      by (simp add: walk_child_def deref_def trie_init_def trie_malloc_def memset_node_def)
  next
    case (Some c)
    then have "child_at h a k = Some c" using n by (simp add: child_at_def)
    with Cons n Some wf_child [OF Cons.prems(1)] show ?thesis
      by (simp add: walk_child_exists scan_stops_def follow_Cons)
  qed
qed simp

text \<open>
  C14: \<open>trie_insert\<close> on a well-formed trie with enough memory returns without undefined behaviour,
  keeps the trie well formed, adds exactly the given key to the stored keys, and returns
  \<open>NULL\<close> exactly when the key was already there.
\<close>

theorem trie_insert_adds_key:
  assumes "trie_wf h r" and "heap_ok h" and "0 < sz" and "nat sz \<le> length target"
    and "nat sz \<le> t_quota h"
  shows "\<exists>res h'. trie_insert (Some r) target sz h = Inr (res, h') \<and> trie_wf h' r \<and> heap_ok h' \<and>
      trie_keys h' r = insert (take (nat sz) target) (trie_keys h r) \<and>
      (res = None \<longleftrightarrow> take (nat sz) target \<in> trie_keys h r)"
  using trie_insert_list [OF assms] by blast

theorem trie_insert_adds_key_witness:
  "\<exists>res h'. trie_insert (Some 0) [66, 77] 2 (root_heap 5) = Inr (res, h') \<and> trie_wf h' 0 \<and>
      heap_ok h' \<and>
      trie_keys h' 0 = insert (take (nat 2) [66, 77]) (trie_keys (root_heap 5) 0) \<and>
      (res = None \<longleftrightarrow> take (nat 2) [66, 77] \<in> trie_keys (root_heap 5) 0)"
  by (rule trie_insert_adds_key) (simp_all add: root_heap_ok)

text \<open>
  C15: what a lookup finds after an insertion: \<open>trie_lookup\<close> returns a node for the inserted key and
  for the keys it found before, and for no other key; it never changes the trie.
\<close>

theorem trie_lookup_after_insert:
  assumes "trie_wf h r" and "heap_ok h" and "0 < sz" and "nat sz \<le> length target"
    and "nat sz \<le> t_quota h" and "0 < sz'" and "nat sz' \<le> length target'"
  shows "\<exists>res h' before after. trie_insert (Some r) target sz h = Inr (res, h') \<and>
      trie_lookup (Some r) target' sz' h = Inr (before, h) \<and>
      trie_lookup (Some r) target' sz' h' = Inr (after, h') \<and>
      (after \<noteq> None \<longleftrightarrow> before \<noteq> None \<or> take (nat sz') target' = take (nat sz) target)"
proof -
  obtain res h' where i: "trie_insert (Some r) target sz h = Inr (res, h')" "trie_wf h' r"
      "trie_keys h' r = insert (take (nat sz) target) (trie_keys h r)"
    using trie_insert_list [OF assms(1-5)] by blast
  obtain before where b: "trie_lookup (Some r) target' sz' h = Inr (before, h)"
      "before \<noteq> None \<longleftrightarrow> take (nat sz') target' \<in> trie_keys h r"
    using trie_lookup_list [OF assms(1,6,7)] by blast
  obtain after where "trie_lookup (Some r) target' sz' h' = Inr (after, h')"
      "after \<noteq> None \<longleftrightarrow> take (nat sz') target' \<in> trie_keys h' r"
    using trie_lookup_list [OF i(2) assms(6,7)] by blast
  with i b show ?thesis by auto
qed

theorem trie_lookup_after_insert_witness:
  "\<exists>res h' before after. trie_insert (Some 0) [66, 77] 2 (root_heap 5) = Inr (res, h') \<and>
      trie_lookup (Some 0) [66, 77, 1] 2 (root_heap 5) = Inr (before, root_heap 5) \<and>
      trie_lookup (Some 0) [66, 77, 1] 2 h' = Inr (after, h') \<and>
      (after \<noteq> None \<longleftrightarrow> before \<noteq> None \<or> take (nat 2) [66, 77, 1] = take (nat 2) ([66, 77] :: byte list))"
  by (rule trie_lookup_after_insert) (simp_all add: root_heap_ok)

text \<open>
  C16: \<open>trie_scan\<close> finds a node exactly when some nonempty prefix of the target, up to the given
  size, is a stored key; the node it returns is always a leaf.
\<close>

theorem trie_scan_finds_prefix:
  assumes "trie_wf h r" and "0 < sz" and "nat sz \<le> length target"
  shows "\<exists>res. trie_scan (Some r) target sz h = Inr (res, h) \<and>
      (res \<noteq> None \<longleftrightarrow> (\<exists>n. 0 < n \<and> n \<le> nat sz \<and> take n target \<in> trie_keys h r)) \<and>
      (\<forall>q. res = Some q \<longrightarrow> leaf_at h q)"
proof -
  have "has_key_prefix h r (take (nat sz) target) \<longleftrightarrow>
      (\<exists>n. 0 < n \<and> n \<le> nat sz \<and> take n target \<in> trie_keys h r)"
    using assms(3) by (auto simp: has_key_prefix_def min_def split: if_splits)
  with trie_scan_list [OF assms] show ?thesis by auto
qed

theorem trie_scan_finds_prefix_witness:
  "\<exists>res. trie_scan (Some 0) [66, 77, 1] 3 (root_heap 5) = Inr (res, root_heap 5) \<and>
      (res \<noteq> None \<longleftrightarrow>
        (\<exists>n. 0 < n \<and> n \<le> nat 3 \<and> take n [66, 77, 1] \<in> trie_keys (root_heap 5) 0)) \<and>
      (\<forall>q. res = Some q \<longrightarrow> leaf_at (root_heap 5) q)"
  by (rule trie_scan_finds_prefix) (simp_all add: root_heap_ok)

text \<open>
  C13: \<open>trie_destroy\<close> on a well-formed trie terminates, without a double free or an access to a freed
  node, and frees exactly the nodes of the trie: it leaks nothing and leaves every other block
  of the heap alone.  A recursion depth of the number of addresses ever handed out is enough.
\<close>

theorem trie_destroy_frees_all:
  assumes "trie_wf h r" and "heap_ok h"
  shows "\<exists>h'. trie_destroy (t_next h) r h = Inr h' \<and>
      t_mem h' = (\<lambda>a. if a \<in> reach h r then None else t_mem h a)"
proof -
  have "length ks < t_next h" if "follow h r ks \<noteq> None" for ks
    using that path_length [OF assms] by auto
  with trie_destroy_ok [OF assms(1), of "t_next h"] show ?thesis by (auto simp: freed_def)
qed

theorem trie_destroy_frees_all_witness:
  "\<exists>h'. trie_destroy (t_next (root_heap 5)) 0 (root_heap 5) = Inr h' \<and>
      t_mem h' = (\<lambda>a. if a \<in> reach (root_heap 5) 0 then None else t_mem (root_heap 5) a)"
  by (rule trie_destroy_frees_all) (simp_all add: root_heap_ok)

text \<open>
  The result of \<open>malloc\<close> is not checked: an insertion that needs a new node when no memory is
  left writes through a null pointer.
\<close>

theorem trie_insert_out_of_memory:
  assumes "trie_wf h r" and "0 < sz" and "nat sz \<le> length target"
    and "follow h r (take (nat sz) target) = None" and "t_quota h = 0"
  shows "trie_insert (Some r) target sz h = Inl NullDeref"
  using walk_list_oom [OF assms(1,5,4)] assms(2,3)
  by (simp add: trie_insert_def assert_args_def trie_walk_def walk_loop_list)

theorem trie_insert_out_of_memory_witness:
  "trie_insert (Some 0) [66, 77] 2 (root_heap 0) = Inl NullDeref"
  by (rule trie_insert_out_of_memory)
     (simp_all add: root_heap_ok, simp add: root_heap_def follow_Cons child_at_def zero_node_def)

end
