(* ===== verification/Magic.thy ===== *)
theory Magic
  imports Trie
begin

text \<open>
  The binary-file detector, \<open>src/src/magic.c\<close>: the table of file signatures, \<open>magic_init\<close>, which
  puts them into a trie, \<open>magic_scan\<close>, which tests the first bytes of a file against them, and
  \<open>magic_fini\<close>.  The trie is used through the contract \<open>prefix_store\<close> only.
\<close>

section \<open>Signatures and state\<close>

text \<open>The named constants of the file formats in order: name, number of hexadecimal digits, and value.\<close>

definition magic_constants :: "(string \<times> nat \<times> 64 word) list" where
  "magic_constants =
    [(''M_3GPP_FTYP'', 16, 0x0000001466747970),
     (''M_MP4_FTYP'', 16, 0x0000001866747970),
     (''M_3GPP2_FTYP'', 16, 0x0000002066747970),
     (''M_ICO'', 8, 0x00000100),
     (''M_VAX_COFF_EX'', 4, 0x0178),
     (''M_TAR_ZIP_LZW'', 4, 0x1F9D),
     (''M_TAR_ZIP_LZH'', 4, 0x1FA0),
     (''M_ARCH_BIN'', 16, 0x213C617263683E0A),
     (''M_PDF'', 8, 0x25504446),
     (''M_PSD'', 8, 0x38425053),
     (''M_BMP'', 4, 0x424D),
     (''M_ISO9660'', 10, 0x4344303031),
     (''M_GIF0'', 12, 0x474946383761),
     (''M_GIF1'', 12, 0x474946383961),
     (''M_MP3_V2'', 6, 0x494433),
     (''M_TIF'', 8, 0x49492A00),
     (''M_TIFF'', 8, 0x4D4D002A),
     (''M_EXE'', 4, 0x4D5A),
     (''M_OGG'', 8, 0x4F676753),
     (''M_ZIP'', 8, 0x504B0304),
     (''M_ZIP_EMPTY'', 8, 0x504B0506),
     (''M_ZIP_SPANNED'', 8, 0x504B0708),
     (''M_RAR15'', 14, 0x526172211A0700),
     (''M_RAR50'', 16, 0x526172211A070100),
     (''M_FLAC'', 8, 0x664C6143),
     (''M_ELF'', 8, 0x7F454C46),
     (''M_PNG'', 16, 0x89504E470D0A1A0A),
     (''M_MACH_O_FAT_CLASS'', 8, 0xCAFEBABE),
     (''M_MACH32_O_BE'', 8, 0xCEFAEDFE),
     (''M_MACH64_O_BE'', 8, 0xCFFAEDFE),
     (''M_MS_OFFICE'', 8, 0xD0CF11E0),
     (''M_MACH32_O_LE'', 8, 0xFEEDFACE),
     (''M_MACH64_O_LE'', 8, 0xFEEDFACF),
     (''M_MP3_V01'', 4, 0xFFFB)]"

text \<open>The rows of \<open>magic_index\<close>: eight bytes, the length of the signature, and a zero.\<close>

definition magic_index :: "byte list list" where
  "magic_index =
    [[0x00, 0x00, 0x00, 0x14, 0x66, 0x74, 0x79, 0x70, 8, 0],
     [0x00, 0x00, 0x00, 0x18, 0x66, 0x74, 0x79, 0x70, 8, 0],
     [0x00, 0x00, 0x00, 0x20, 0x66, 0x74, 0x79, 0x70, 8, 0],
     [0x00, 0x00, 0x01, 0x00, 0x00, 0x00, 0x00, 0x00, 4, 0],
     [0x01, 0x78, 0x00, 0x00, 0x00, 0x00, 0x00, 0x00, 2, 0],
     [0x1F, 0x9D, 0x00, 0x00, 0x00, 0x00, 0x00, 0x00, 2, 0],
     [0x1F, 0xA0, 0x00, 0x00, 0x00, 0x00, 0x00, 0x00, 2, 0],
     [0x21, 0x3C, 0x61, 0x72, 0x63, 0x68, 0x3E, 0x0A, 8, 0],
     [0x25, 0x50, 0x44, 0x46, 0x00, 0x00, 0x00, 0x00, 4, 0],
     [0x38, 0x42, 0x50, 0x53, 0x00, 0x00, 0x00, 0x00, 4, 0],
     [0x42, 0x4D, 0x00, 0x00, 0x00, 0x00, 0x00, 0x00, 2, 0],
     [0x43, 0x44, 0x30, 0x30, 0x31, 0x00, 0x00, 0x00, 5, 0],
     [0x47, 0x49, 0x46, 0x38, 0x37, 0x61, 0x00, 0x00, 6, 0],
     [0x47, 0x49, 0x46, 0x38, 0x39, 0x61, 0x00, 0x00, 6, 0],
     [0x49, 0x44, 0x33, 0x00, 0x00, 0x00, 0x00, 0x00, 3, 0],
     [0x49, 0x49, 0x2A, 0x00, 0x00, 0x00, 0x00, 0x00, 4, 0],
     [0x4D, 0x4D, 0x00, 0x2A, 0x00, 0x00, 0x00, 0x00, 4, 0],
     [0x4D, 0x5A, 0x00, 0x00, 0x00, 0x00, 0x00, 0x00, 2, 0],
     [0x4F, 0x67, 0x67, 0x53, 0x00, 0x00, 0x00, 0x00, 4, 0],
     [0x50, 0x4B, 0x03, 0x04, 0x00, 0x00, 0x00, 0x00, 4, 0],
     [0x50, 0x4B, 0x05, 0x06, 0x00, 0x00, 0x00, 0x00, 4, 0],
     [0x50, 0x4B, 0x07, 0x08, 0x00, 0x00, 0x00, 0x00, 4, 0],
     [0x52, 0x61, 0x72, 0x21, 0x1A, 0x07, 0x00, 0x00, 7, 0],
     [0x52, 0x61, 0x72, 0x21, 0x1A, 0x07, 0x01, 0x00, 8, 0],
     [0x66, 0x4C, 0x61, 0x43, 0x00, 0x00, 0x00, 0x00, 4, 0],
     [0x7F, 0x45, 0x4C, 0x46, 0x00, 0x00, 0x00, 0x00, 4, 0],
     [0x89, 0x50, 0x4E, 0x47, 0x0D, 0x0A, 0x1A, 0x0A, 8, 0],
     [0xCA, 0xFE, 0xBA, 0xBE, 0x00, 0x00, 0x00, 0x00, 4, 0],
     [0xCE, 0xFA, 0xED, 0xFE, 0x00, 0x00, 0x00, 0x00, 4, 0],
     [0xCF, 0xFA, 0xED, 0xFE, 0x00, 0x00, 0x00, 0x00, 4, 0],
     [0xD0, 0xCF, 0x11, 0xE0, 0x00, 0x00, 0x00, 0x00, 4, 0],
     [0xFE, 0xED, 0xFA, 0xCE, 0x00, 0x00, 0x00, 0x00, 4, 0],
     [0xFE, 0xED, 0xFA, 0xCF, 0x00, 0x00, 0x00, 0x00, 4, 0],
     [0xFF, 0xFB, 0x00, 0x00, 0x00, 0x00, 0x00, 0x00, 2, 0]]"

record magic_state =
  m_tr :: "addr option"      \<comment> \<open>the static \<open>tr\<close>\<close>
  m_heap :: theap

definition magic_insert_row :: "addr option \<Rightarrow> byte list \<Rightarrow> theap \<Rightarrow> theap res" where
  "magic_insert_row tr row h =
     rbind (rd row 8) (\<lambda>len. rbind (trie_insert tr row (uint len) h) (\<lambda>(_, h'). Inr h'))"

definition magic_init :: "magic_state \<Rightarrow> magic_state res" where
  "magic_init s =
     rbind (trie_init (m_tr s) (m_heap s)) (\<lambda>(tr, h).
     rbind (for_each (magic_insert_row tr) magic_index h) (\<lambda>h'.
     Inr \<lparr>m_tr = tr, m_heap = h'\<rparr>))"

text \<open>\<open>tr\<close> keeps its value when the trie is destroyed.\<close>

definition magic_fini :: "nat \<Rightarrow> magic_state \<Rightarrow> magic_state res" where
  "magic_fini depth s =
     (case m_tr s of None \<Rightarrow> Inl NullDeref
      | Some r \<Rightarrow> rbind (trie_destroy depth r (m_heap s)) (\<lambda>h. Inr (s\<lparr>m_heap := h\<rparr>)))"

text \<open>
  \<open>read\<close> fills the front of the buffer with what it delivers and leaves the rest as it was;
  \<open>junk\<close> is what the uninitialised \<open>magic_buf\<close> holds before the call and \<open>data\<close> what the file
  delivers (nothing, when \<open>read\<close> fails).
\<close>

definition read_into :: "byte list \<Rightarrow> byte list \<Rightarrow> byte list" where
  "read_into buf data = take (length buf) data @ drop (length data) buf"

definition magic_scan :: "magic_state \<Rightarrow> byte list \<Rightarrow> byte list \<Rightarrow> bool res" where
  "magic_scan s junk data =
     rbind (trie_scan (m_tr s) (read_into junk data) 16 (m_heap s)) (\<lambda>(r, h). Inr (r \<noteq> None))"

section \<open>The signatures\<close>

definition signature :: "byte list \<Rightarrow> byte list" where
  "signature row = take (unat (row ! 8)) row"

definition signatures :: "byte list set" where
  "signatures = signature ` set magic_index"

lemma magic_index_rows:
  "\<forall>row \<in> set magic_index. length row = 10 \<and> 0 < unat (row ! 8) \<and> unat (row ! 8) \<le> 8"
  by (simp add: magic_index_def)

lemma signature_bounds:
  assumes "sig \<in> signatures"
  shows "sig \<noteq> []" "length sig \<le> 8"
  using assms magic_index_rows by (auto simp: signatures_def signature_def)

lemma signature_list:
  "map signature magic_index =
    [[0x00, 0x00, 0x00, 0x14, 0x66, 0x74, 0x79, 0x70],
     [0x00, 0x00, 0x00, 0x18, 0x66, 0x74, 0x79, 0x70],
     [0x00, 0x00, 0x00, 0x20, 0x66, 0x74, 0x79, 0x70],
     [0x00, 0x00, 0x01, 0x00],
     [0x01, 0x78],
     [0x1F, 0x9D],
     [0x1F, 0xA0],
     [0x21, 0x3C, 0x61, 0x72, 0x63, 0x68, 0x3E, 0x0A],
     [0x25, 0x50, 0x44, 0x46],
     [0x38, 0x42, 0x50, 0x53],
     [0x42, 0x4D],
     [0x43, 0x44, 0x30, 0x30, 0x31],
     [0x47, 0x49, 0x46, 0x38, 0x37, 0x61],
     [0x47, 0x49, 0x46, 0x38, 0x39, 0x61],
     [0x49, 0x44, 0x33],
     [0x49, 0x49, 0x2A, 0x00],
     [0x4D, 0x4D, 0x00, 0x2A],
     [0x4D, 0x5A],
     [0x4F, 0x67, 0x67, 0x53],
     [0x50, 0x4B, 0x03, 0x04],
     [0x50, 0x4B, 0x05, 0x06],
     [0x50, 0x4B, 0x07, 0x08],
     [0x52, 0x61, 0x72, 0x21, 0x1A, 0x07, 0x00],
     [0x52, 0x61, 0x72, 0x21, 0x1A, 0x07, 0x01, 0x00],
     [0x66, 0x4C, 0x61, 0x43],
     [0x7F, 0x45, 0x4C, 0x46],
     [0x89, 0x50, 0x4E, 0x47, 0x0D, 0x0A, 0x1A, 0x0A],
     [0xCA, 0xFE, 0xBA, 0xBE],
     [0xCE, 0xFA, 0xED, 0xFE],
     [0xCF, 0xFA, 0xED, 0xFE],
     [0xD0, 0xCF, 0x11, 0xE0],
     [0xFE, 0xED, 0xFA, 0xCE],
     [0xFE, 0xED, 0xFA, 0xCF],
     [0xFF, 0xFB]]"
  by (simp add: magic_index_def signature_def)

lemma signatures_set: "signatures = set (map signature magic_index)"
  by (simp add: signatures_def)

lemma magic_index_nodes: "sum_list (map length (map signature magic_index)) = 155"
  by (simp add: magic_index_def signature_def)

section \<open>Initialisation and scanning\<close>

definition magic_ready :: "magic_state \<Rightarrow> bool" where
  "magic_ready s \<longleftrightarrow>
     (case m_tr s of None \<Rightarrow> False
      | Some r \<Rightarrow> trie_wf (m_heap s) r \<and> heap_ok (m_heap s) \<and> trie_keys (m_heap s) r = signatures)"

lemma magic_insert_row_signature:
  assumes "row \<in> set magic_index"
  shows "magic_insert_row (Some r) row h =
    rbind (trie_insert (Some r) (signature row) (int (length (signature row))) h) (\<lambda>(x, h'). Inr h')"
proof -
  have len: "length row = 10" "unat (row ! 8) \<le> 8"
    using assms magic_index_rows by auto
  then have "length (signature row) = unat (row ! 8)" by (simp add: signature_def)
  moreover have "trie_insert (Some r) row (uint (row ! 8)) h
      = trie_insert (Some r) (signature row) (uint (row ! 8)) h"
    using len trie_insert_take [of "uint (row ! 8)" row "Some r" h] by (simp add: signature_def)
  ultimately show ?thesis
    using len by (simp add: magic_insert_row_def)
qed

text \<open>A fresh detector with memory for the root and the 155 nodes the signatures can need.\<close>

definition magic_fresh :: "magic_state \<Rightarrow> bool" where
  "magic_fresh s \<longleftrightarrow> m_tr s = None \<and> heap_ok (m_heap s) \<and> 156 \<le> t_quota (m_heap s)"

lemma magic_init_ready:
  assumes "magic_fresh s"
  shows "\<exists>s'. magic_init s = Inr s' \<and> magic_ready s'"
proof -
  obtain h r where h: "trie_init None (m_heap s) = Inr (Some r, h)" "trie_wf h r" "heap_ok h"
      "trie_keys h r = {}" "155 \<le> t_quota h"
    using trie_init_ok [of "m_heap s"] assms by (auto simp: magic_fresh_def)
  have ne: "[] \<notin> set (map signature magic_index)"
    using signature_bounds(1) by (auto simp: signatures_def)
  let ?f = "\<lambda>ks s. rbind (trie_insert (Some r) ks (int (length ks)) s) (\<lambda>(x, s'). Inr s')"
  obtain h' where h': "for_each ?f (map signature magic_index) h = Inr h'"
      "trie_wf h' r \<and> heap_ok h'" "trie_keys h' r = signatures"
    using trie_store.ins_all [of h r "map signature magic_index"] h ne magic_index_nodes
    by (auto simp: signatures_def)
  have "for_each (magic_insert_row (Some r)) magic_index h = Inr h'"
    using h'(1) unfolding for_each_map
    by (subst for_each_cong [OF magic_insert_row_signature]) simp_all
  with h h' assms show ?thesis
    by (auto simp: magic_init_def magic_ready_def magic_fresh_def)
qed

lemma length_read_into [simp]: "length (read_into buf data) = length buf"
  by (simp add: read_into_def)

lemma magic_scan_buffer:
  assumes "magic_ready s" and "length junk = 16"
  shows "magic_scan s junk data = Inr (\<exists>sig \<in> signatures. prefix sig (read_into junk data))"
proof -
  obtain r where r: "m_tr s = Some r" "trie_wf (m_heap s) r \<and> heap_ok (m_heap s)"
      "trie_keys (m_heap s) r = signatures"
    using assms(1) by (auto simp: magic_ready_def split: option.splits)
  have ne: "read_into junk data \<noteq> []"
    using assms(2) length_read_into [of junk data] by (metis list.size(3) numeral_neq_zero)
  have "rbind (trie_scan (Some r) (read_into junk data) (int (length (read_into junk data))) (m_heap s))
      (\<lambda>(res, h'). Inr (res \<noteq> None)) = Inr (\<exists>sig \<in> signatures. prefix sig (read_into junk data))"
    using trie_store.scan_prefix [OF r(2) ne] signature_bounds(1) r(3) by auto
  with r(1) assms(2) show ?thesis by (simp add: magic_scan_def)
qed

lemma prefix_read_into:
  assumes "length sig \<le> length data" and "length sig \<le> length junk"
  shows "prefix sig (read_into junk data) \<longleftrightarrow> prefix sig data"
proof -
  have "take (length sig) (read_into junk data) = take (length sig) data"
    using assms by (simp add: read_into_def min_def)
  moreover have "length sig \<le> length (read_into junk data)" using assms by simp
  ultimately show ?thesis
    using assms(1) by (metis append_take_drop_id append_eq_conv_conj prefix_def)
qed

section \<open>Properties\<close>

definition fresh_detector :: magic_state where
  "fresh_detector = \<lparr>m_tr = None, m_heap = \<lparr>t_mem = (\<lambda>_. None), t_next = 0, t_quota = 1000\<rparr>\<rparr>"

lemma fresh_detector_fresh: "magic_fresh fresh_detector"
  by (simp add: magic_fresh_def fresh_detector_def heap_ok_def)

text \<open>
  C17: after \<open>magic_init\<close>, \<open>magic_scan\<close> classifies a file with at least eight bytes as binary exactly
  when the file starts with one of the signatures of the table, whatever the uninitialised
  buffer held.
\<close>

theorem magic_scan_classifies:
  assumes "magic_fresh s" and "length junk = 16" and "8 \<le> length data"
  shows "rbind (magic_init s) (\<lambda>s'. magic_scan s' junk data)
    = Inr (\<exists>sig \<in> signatures. prefix sig data)"
proof -
  obtain s' where s': "magic_init s = Inr s'" "magic_ready s'"
    using magic_init_ready [OF assms(1)] by blast
  have "prefix sig (read_into junk data) \<longleftrightarrow> prefix sig data" if "sig \<in> signatures" for sig
    using signature_bounds(2) [OF that] assms(2,3) by (intro prefix_read_into) auto
  then show ?thesis
    using magic_scan_buffer [OF s'(2) assms(2)] s'(1) by auto
qed

theorem magic_scan_classifies_witness:
  "rbind (magic_init fresh_detector) (\<lambda>s'. magic_scan s' (replicate 16 0) [66, 77, 1, 2, 3, 4, 5, 6, 7])
    = Inr (\<exists>sig \<in> signatures. prefix sig [66, 77, 1, 2, 3, 4, 5, 6, 7])"
  by (rule magic_scan_classifies) (simp_all add: fresh_detector_fresh)

text \<open>
  On a shorter file the answer depends on the uninitialised part of the buffer: the one-byte
  file \<open>0x1F\<close> starts with no signature, and it is taken for a binary file or not depending on
  what the stack happens to hold.
\<close>

theorem magic_scan_indeterminate:
  "rbind (magic_init fresh_detector)
     (\<lambda>s. magic_scan s [0, 0x9D, 0, 0, 0, 0, 0, 0, 0, 0, 0, 0, 0, 0, 0, 0] [0x1F]) = Inr True \<and>
   rbind (magic_init fresh_detector)
     (\<lambda>s. magic_scan s [0, 0, 0, 0, 0, 0, 0, 0, 0, 0, 0, 0, 0, 0, 0, 0] [0x1F]) = Inr False \<and>
   \<not> (\<exists>sig \<in> signatures. prefix sig [0x1F])"
proof -
  obtain s where s: "magic_init fresh_detector = Inr s" "magic_ready s"
    using magic_init_ready [OF fresh_detector_fresh] by blast
  have "\<exists>sig \<in> signatures. prefix sig [0x1F, 0x9D, 0, 0, 0, 0, 0, 0, 0, 0, 0, 0, 0, 0, 0, 0]"
    "\<not> (\<exists>sig \<in> signatures. prefix sig [0x1F, 0, 0, 0, 0, 0, 0, 0, 0, 0, 0, 0, 0, 0, 0, 0])"
    "\<not> (\<exists>sig \<in> signatures. prefix sig [0x1F])"
    unfolding signatures_set signature_list by simp_all
  then show ?thesis
    using s(1) by (simp add: magic_scan_buffer [OF s(2)] read_into_def)
qed

text \<open>
  The table agrees with the named constants: the signature of each row, read as a big-endian number, is the
  constant of the format, its length is that in which the constant is written, and no two
  formats share a signature.
\<close>

theorem magic_index_constants:
  "map (\<lambda>row. (2 * length (signature row), word_rcat (signature row))) magic_index = map snd magic_constants \<and>
   distinct (map snd magic_constants)"
proof -
  have "map (\<lambda>row. (2 * length (signature row), word_rcat (signature row))) magic_index =
      map (\<lambda>sig. (2 * length sig, word_rcat sig :: 64 word)) (map signature magic_index)"
    by simp
  also have "\<dots> = map snd magic_constants"
    unfolding signature_list by (simp add: magic_constants_def word_rcat_def horner_sum_simps)
  finally have "map (\<lambda>row. (2 * length (signature row), word_rcat (signature row))) magic_index = map snd magic_constants" .
  moreover have "distinct (map snd magic_constants)" unfolding magic_constants_def by code_simp
  ultimately show ?thesis by blast
qed

end
