(* ===== verification/Dispatch.thy ===== *)
theory Dispatch
  imports Magic File
begin

text \<open>
  The dispatcher thread, \<open>src/src/thread.c\<close> lines 159 to 283: the traversal of the current
  directory, the filter for version-control directories, special files and binary files, and the
  records it writes to the pipe.  \<open>dispatcher_thread\<close> models the \<open>fts\<close> variant, which \<open>thread.h\<close>
  selects; \<open>dispatcher_readdir\<close> the \<open>readdir\<close> variant.

  The file system is a tree and the order of its entries is the order of the lists.  What \<open>fts\<close> has
  still to visit is a list of items: \<open>fts_read\<close> takes the first one, and a directory is visited before
  and after its contents, which are left out when the loop asked for \<open>FTS_SKIP\<close>.  The outcomes of
  \<open>open\<close>, \<open>read\<close> and \<open>write\<close> are parameters (\<open>denv\<close>); \<open>open\<close> fails when as many descriptors are in use
  as the process may have.
\<close>

section \<open>The file system\<close>

datatype fnode =
    FDir "byte list" "fnode list"
  | FReg "byte list"
  | FOther "byte list"

record fts_entry =
  e_name :: "byte list"
  e_path :: "byte list"
  e_pathlen :: nat
  e_isreg :: bool

record denv =
  de_can_open :: "byte list \<Rightarrow> bool"
  de_fd :: "int set \<Rightarrow> int"                  \<comment> \<open>the descriptor \<open>open\<close> delivers, given those in use\<close>
  de_limit :: nat                              \<comment> \<open>how many descriptors the process may have\<close>
  de_content :: "byte list \<Rightarrow> byte list"     \<comment> \<open>what \<open>read\<close> delivers from the file of a path\<close>
  de_junk :: "byte list"                       \<comment> \<open>what the stack holds where \<open>magic_buf\<close> is\<close>
  de_write :: "fileinfo \<Rightarrow> bool"             \<comment> \<open>whether \<open>write\<close> to the pipe takes the record\<close>

record dstate =
  d_pipe :: "fileinfo list"
  d_proc :: proc

definition entry :: "byte list \<Rightarrow> byte list \<Rightarrow> bool \<Rightarrow> fts_entry" where
  "entry name path isreg = \<lparr>e_name = name, e_path = path, e_pathlen = length path, e_isreg = isreg\<rparr>"

definition child_path :: "byte list \<Rightarrow> byte list \<Rightarrow> byte list" where
  "child_path parent name = parent @ 47 # name"

fun node_name :: "fnode \<Rightarrow> byte list" where
  "node_name (FDir name cs) = name"
| "node_name (FReg name) = name"
| "node_name (FOther name) = name"

text \<open>
  What \<open>fts\<close> has to visit: a node at a path, or a directory again after its contents.
  \<open>fts_visit\<close> is the entry \<open>fts_read\<close> returns for an item, \<open>fts_after\<close> what has to be visited in its
  place afterwards.
\<close>

datatype fts_item =
    FtsPre "byte list" fnode
  | FtsPost "byte list" "byte list"

fun fts_visit :: "fts_item \<Rightarrow> fts_entry" where
  "fts_visit (FtsPre path (FReg name)) = entry name path True"
| "fts_visit (FtsPre path (FOther name)) = entry name path False"
| "fts_visit (FtsPre path (FDir name cs)) = entry name path False"
| "fts_visit (FtsPost path name) = entry name path False"

fun fts_after :: "bool \<Rightarrow> fts_item \<Rightarrow> fts_item list" where
  "fts_after skip (FtsPre path (FDir name cs)) =
     (if skip then [] else map (\<lambda>c. FtsPre (child_path path (node_name c)) c) cs) @ [FtsPost path name]"
| "fts_after skip (FtsPre path (FReg name)) = []"
| "fts_after skip (FtsPre path (FOther name)) = []"
| "fts_after skip (FtsPost path name) = []"

text \<open>The visits a traversal can take; every visit makes the sum over the items smaller.\<close>

fun node_visits :: "fnode \<Rightarrow> nat" where
  "node_visits (FDir name cs) = 2 + sum_list (map node_visits cs)"
| "node_visits (FReg name) = 1"
| "node_visits (FOther name) = 1"

fun item_visits :: "fts_item \<Rightarrow> nat" where
  "item_visits (FtsPre path t) = node_visits t"
| "item_visits (FtsPost path name) = 1"

lemma after_visits: "sum_list (map item_visits (fts_after skip it)) < item_visits it"
  by (cases "(skip, it)" rule: fts_after.cases) (simp_all add: comp_def)

text \<open>The loop over \<open>fts_read\<close>; the body says whether it asked to skip the entry.\<close>

function fts_loop :: "(fts_entry \<Rightarrow> 's \<Rightarrow> (bool \<times> 's) res) \<Rightarrow> fts_item list \<Rightarrow> 's \<Rightarrow> 's res" where
  "fts_loop body [] s = Inr s"
| "fts_loop body (it # its) s =
     rbind (body (fts_visit it) s) (\<lambda>(skip, s1). fts_loop body (fts_after skip it @ its) s1)"
  by pat_completeness auto
termination
  by (relation "measure (\<lambda>(body, its, s). sum_list (map item_visits its))") (simp_all add: after_visits)

section \<open>The dispatcher\<close>

definition open_file :: "denv \<Rightarrow> byte list \<Rightarrow> proc \<Rightarrow> (int \<times> proc) option" where
  "open_file env path p =
     (if de_can_open env path \<and> card (dom (p_open p)) < de_limit env
      then let fd = de_fd env (dom (p_open p)) in Some (fd, p\<lparr>p_open := (p_open p)(fd \<mapsto> OFile path)\<rparr>)
      else None)"

text \<open>The tests of an entry up to \<open>open\<close>: whether it is skipped, and the descriptor if one was opened.\<close>

definition entry_open :: "denv \<Rightarrow> fts_entry \<Rightarrow> proc \<Rightarrow> bool \<times> (int \<times> proc) option" where
  "entry_open env e p =
     (if e_name e = bytes ''.git'' then (True, None)
      else if e_name e = bytes ''.svn'' then (True, None)
      else if e_name e = bytes ''.hg'' then (True, None)
      else if \<not> e_isreg e then (False, None)
      else (False, open_file env (e_path e) p))"

text \<open>The test for a binary file; the record for a file that passes, with its copy of the name.\<close>

definition scan_file ::
  "magic_state \<Rightarrow> denv \<Rightarrow> byte list \<Rightarrow> byte list \<Rightarrow> int \<Rightarrow> fileinfo option res" where
  "scan_file ms env path filename fd =
     rbind (magic_scan ms (de_junk env) (de_content env path)) (\<lambda>binary.
     Inr (if binary then None
          else Some \<lparr>fi_fd = fd, fi_filename = filename, fi_pmap = None, fi_size = 0\<rparr>))"

definition copy_name :: "byte list \<Rightarrow> proc \<Rightarrow> proc" where
  "copy_name name p = p\<lparr>p_names := add_mset name (p_names p)\<rparr>"

text \<open>From the opened file to the write, shared by both variants.\<close>

definition send_file ::
  "magic_state \<Rightarrow> denv \<Rightarrow> byte list \<Rightarrow> byte list \<Rightarrow> int \<Rightarrow> dstate \<Rightarrow> dstate res" where
  "send_file ms env path filename fd st =
     rbind (scan_file ms env path filename fd) (\<lambda>r.
     case r of
       None \<Rightarrow> Inr (st\<lparr>d_proc := close_fd fd (d_proc st)\<rparr>)
     | Some fi \<Rightarrow>
         let st1 = st\<lparr>d_proc := copy_name filename (d_proc st)\<rparr>
         in Inr (if de_write env fi then st1\<lparr>d_pipe := d_pipe st1 @ [fi]\<rparr> else st1))"

definition dispatch_entry ::
  "magic_state \<Rightarrow> denv \<Rightarrow> fts_entry \<Rightarrow> dstate \<Rightarrow> (bool \<times> dstate) res" where
  "dispatch_entry ms env e st =
     (case entry_open env e (d_proc st) of
        (skip, None) \<Rightarrow> Inr (skip, st)
      | (skip, Some (fd, p1)) \<Rightarrow>
          rbind (send_file ms env (e_path e) (take (e_pathlen e) (e_path e)) fd (st\<lparr>d_proc := p1\<rparr>)) (\<lambda>st1.
          Inr (skip, st1)))"

text \<open>
  The result holds the pipe, whether its write end was closed, and the detector.  The recursion
  of \<open>magic_fini\<close> is bounded by the number of nodes ever allocated, which suffices.
\<close>

definition dispatcher_thread ::
  "denv \<Rightarrow> int \<Rightarrow> fnode \<Rightarrow> magic_state \<Rightarrow> dstate \<Rightarrow> (dstate \<times> bool \<times> magic_state) res" where
  "dispatcher_thread env pipe_fd tree ms st =
     rbind (magic_init ms) (\<lambda>ms1.
     rbind (fts_loop (dispatch_entry ms1 env) [FtsPre (bytes ''.'') tree] st) (\<lambda>st1.
     let st2 = st1\<lparr>d_proc := close_fd pipe_fd (d_proc st1)\<rparr> in
     rbind (magic_fini (t_next (m_heap ms1)) ms1) (\<lambda>ms2. Inr (st2, True, ms2))))"

text \<open>
  The loop over \<open>readdir\<close>; an entry is its name and whether it is a regular file.  A file that
  cannot be opened ends the thread at once: the flag says whether the loop ran to its end.
\<close>

fun readdir_loop ::
  "magic_state \<Rightarrow> denv \<Rightarrow> (byte list \<times> bool) list \<Rightarrow> dstate \<Rightarrow> (bool \<times> dstate) res" where
  "readdir_loop ms env [] st = Inr (True, st)"
| "readdir_loop ms env ((name, isreg) # es) st =
     (let fullpath = take 511 (child_path (bytes ''.'') name) in
      if \<not> isreg then readdir_loop ms env es st
      else
        (case open_file env fullpath (d_proc st) of
           None \<Rightarrow> Inr (False, st)
         | Some (fd, p1) \<Rightarrow>
             rbind (send_file ms env fullpath name fd (st\<lparr>d_proc := p1\<rparr>)) (readdir_loop ms env es)))"

definition dispatcher_readdir ::
  "denv \<Rightarrow> int \<Rightarrow> (byte list \<times> bool) list option \<Rightarrow> magic_state \<Rightarrow> dstate \<Rightarrow>
    (dstate \<times> bool \<times> magic_state) res" where
  "dispatcher_readdir env pipe_fd dir ms st =
     rbind (magic_init ms) (\<lambda>ms1.
     case dir of
       None \<Rightarrow> Inr (st, False, ms1)
     | Some es \<Rightarrow>
         rbind (readdir_loop ms1 env es st) (\<lambda>(completed, st1).
         if \<not> completed then Inr (st1, False, ms1)
         else
           let st2 = st1\<lparr>d_proc := close_fd pipe_fd (d_proc st1)\<rparr> in
           rbind (magic_fini (t_next (m_heap ms1)) ms1) (\<lambda>ms2. Inr (st2, True, ms2))))"

section \<open>Walking a tree\<close>

text \<open>The regular files of a tree outside the directories with a name to skip, in the order of the walk.\<close>

fun fts_files :: "(byte list \<Rightarrow> bool) \<Rightarrow> byte list \<Rightarrow> fnode \<Rightarrow> fts_entry list" where
  "fts_files skip path (FReg name) = [entry name path True]"
| "fts_files skip path (FOther name) = []"
| "fts_files skip path (FDir name cs) =
     (if skip name then [] else concat (map (\<lambda>c. fts_files skip (child_path path (node_name c)) c) cs))"

fun item_files :: "(byte list \<Rightarrow> bool) \<Rightarrow> fts_item \<Rightarrow> fts_entry list" where
  "item_files skip (FtsPre path t) = fts_files skip path t"
| "item_files skip (FtsPost path name) = []"

definition items_files :: "(byte list \<Rightarrow> bool) \<Rightarrow> fts_item list \<Rightarrow> fts_entry list" where
  "items_files skip its = concat (map (item_files skip) its)"

text \<open>One visit accounts for the entry itself, if it is a regular file, and for what it leaves to visit.\<close>

lemma items_files_visit:
  "items_files skip (it # its) =
     (if e_isreg (fts_visit it) then [fts_visit it] else []) @
     items_files skip (fts_after (skip (e_name (fts_visit it))) it @ its)"
  by (cases it rule: fts_visit.cases) (auto simp: items_files_def entry_def comp_def)

lemma fts_visit_path [simp]: "e_pathlen (fts_visit it) = length (e_path (fts_visit it))"
  by (cases it rule: fts_visit.cases) (simp_all add: entry_def)

text \<open>
  The contract of a loop body: it returns while there is room, takes up room for the items of the entry
  only, appends these to what was emitted, and whether it skips depends on the name only.
\<close>

locale tree_visitor =
  fixes body :: "fts_entry \<Rightarrow> 's \<Rightarrow> (bool \<times> 's) res" and inv :: "'s \<Rightarrow> bool"
    and emitted :: "'s \<Rightarrow> 'b list" and items :: "fts_entry \<Rightarrow> 'b list" and skip :: "byte list \<Rightarrow> bool"
    and room :: "'s \<Rightarrow> nat"
  assumes body_ok: "inv s \<Longrightarrow> e_pathlen e = length (e_path e) \<Longrightarrow> 0 < room s \<Longrightarrow>
      \<exists>s'. body e s = Inr (skip (e_name e), s') \<and> inv s' \<and> emitted s' = emitted s @ items e \<and>
           room s \<le> room s' + length (items e)"
    and dir_items: "\<not> e_isreg e \<Longrightarrow> items e = []"
begin

lemma loop_emits:
  assumes "inv s" and "length (concat (map items (items_files skip its))) < room s"
  shows "\<exists>s'. fts_loop body its s = Inr s' \<and> inv s' \<and>
    emitted s' = emitted s @ concat (map items (items_files skip its))"
  using assms
proof (induction "sum_list (map item_visits its)" arbitrary: its s rule: less_induct)
  case less
  show ?case
  proof (cases its)
    case (Cons it rest)
    let ?e = "fts_visit it"
    let ?its = "fts_after (skip (e_name ?e)) it @ rest"
    have files: "items_files skip its = (if e_isreg ?e then [?e] else []) @ items_files skip ?its"
      unfolding Cons by (rule items_files_visit)
    obtain s1 where s1: "body ?e s = Inr (skip (e_name ?e), s1)" "inv s1" "emitted s1 = emitted s @ items ?e"
      "room s \<le> room s1 + length (items ?e)"
      using body_ok [OF less.prems(1), of ?e] less.prems(2) by auto
    have "length (concat (map items (items_files skip ?its))) < room s1"
      using less.prems(2) s1(4) dir_items [of ?e] unfolding files by (auto split: if_splits)
    then obtain s' where "fts_loop body ?its s1 = Inr s'" "inv s'"
      "emitted s' = emitted s1 @ concat (map items (items_files skip ?its))"
      using less.hyps [of ?its s1] after_visits s1(2) by (auto simp: Cons)
    with s1 show ?thesis
      unfolding files by (auto simp: Cons dir_items)
  qed (use less.prems in \<open>simp add: items_files_def\<close>)
qed

end

section \<open>What the dispatcher sends\<close>

definition vcs_name :: "byte list \<Rightarrow> bool" where
  "vcs_name name \<longleftrightarrow> name = bytes ''.git'' \<or> name = bytes ''.svn'' \<or> name = bytes ''.hg''"

definition looks_binary :: "denv \<Rightarrow> byte list \<Rightarrow> bool" where
  "looks_binary env path \<longleftrightarrow>
     (\<exists>sig \<in> signatures. prefix sig (read_into (de_junk env) (de_content env path)))"

definition sent_paths :: "denv \<Rightarrow> fts_entry \<Rightarrow> byte list list" where
  "sent_paths env e =
     (if e_isreg e \<and> \<not> vcs_name (e_name e) \<and> de_can_open env (e_path e) \<and> \<not> looks_binary env (e_path e)
      then [e_path e] else [])"

definition searched_paths :: "denv \<Rightarrow> fts_item list \<Rightarrow> byte list list" where
  "searched_paths env its = concat (map (sent_paths env) (items_files vcs_name its))"

text \<open>
  What \<open>open\<close>, the stack buffer and the pipe are relied on for: a new descriptor is one not in use,
  the buffer has 16 bytes, and a write of one record is taken whole.
\<close>

definition denv_ok :: "denv \<Rightarrow> bool" where
  "denv_ok env \<longleftrightarrow> (\<forall>F. finite F \<longrightarrow> de_fd env F \<notin> F) \<and> length (de_junk env) = 16 \<and> (\<forall>fi. de_write env fi)"

lemma searched_paths_visit:
  "searched_paths env (it # its) =
     sent_paths env (fts_visit it) @ searched_paths env (fts_after (vcs_name (e_name (fts_visit it))) it @ its)"
  unfolding searched_paths_def items_files_visit [of vcs_name it its]
  by (cases "e_isreg (fts_visit it)") (simp_all add: sent_paths_def)

lemma searched_paths_length: "length (searched_paths env its) \<le> length (items_files vcs_name its)"
proof -
  have "length (concat (map (sent_paths env) es)) \<le> length es" for es
    by (induction es) (simp_all add: sent_paths_def)
  then show ?thesis by (simp add: searched_paths_def)
qed

lemma entry_open_skip: "fst (entry_open env e p) = vcs_name (e_name e)"
  by (auto simp: entry_open_def vcs_name_def)

lemma entry_open_None:
  assumes "entry_open env e p = (skip, None)" and "card (dom (p_open p)) < de_limit env"
  shows "sent_paths env e = []"
  using assms by (auto simp: entry_open_def sent_paths_def vcs_name_def open_file_def Let_def split: if_splits)

lemma entry_open_Some:
  assumes "entry_open env e p = (skip, Some (fd, p1))" and "denv_ok env" and "finite (dom (p_open p))"
  shows "fd \<notin> dom (p_open p)" and "p1 = p\<lparr>p_open := (p_open p)(fd \<mapsto> OFile (e_path e))\<rparr>"
    and "sent_paths env e = (if looks_binary env (e_path e) then [] else [e_path e])"
    and "card (dom (p_open p)) < de_limit env" and "e_isreg e"
  using assms
  by (auto simp: entry_open_def sent_paths_def vcs_name_def open_file_def denv_ok_def Let_def split: if_splits)

lemma scan_file_ok:
  assumes "magic_ready ms" and "denv_ok env"
  shows "scan_file ms env path filename fd =
    Inr (if looks_binary env path then None
         else Some \<lparr>fi_fd = fd, fi_filename = filename, fi_pmap = None, fi_size = 0\<rparr>)"
  using magic_scan_buffer [of ms "de_junk env" "de_content env path"] assms
  by (simp add: scan_file_def looks_binary_def denv_ok_def)

text \<open>The open descriptors are those of the start and one for every record in the pipe.\<close>

definition disp_inv :: "magic_state \<Rightarrow> denv \<Rightarrow> fdtab \<Rightarrow> dstate \<Rightarrow> bool" where
  "disp_inv ms env F0 st \<longleftrightarrow>
     magic_ready ms \<and> denv_ok env \<and> finite (dom F0) \<and>
     p_open (d_proc st) = F0 ++ map_of (map (\<lambda>fi. (fi_fd fi, OFile (fi_filename fi))) (d_pipe st)) \<and>
     distinct (map fi_fd (d_pipe st)) \<and> dom F0 \<inter> fi_fd ` set (d_pipe st) = {}"

definition disp_room :: "denv \<Rightarrow> dstate \<Rightarrow> nat" where
  "disp_room env st = de_limit env - card (dom (p_open (d_proc st)))"

lemma disp_inv_dom: "disp_inv ms env F0 st \<Longrightarrow> dom (p_open (d_proc st)) = dom F0 \<union> fi_fd ` set (d_pipe st)"
  by (auto simp: disp_inv_def dom_map_of_conv_image_fst image_comp comp_def)

lemma map_of_snoc: "k \<notin> fst ` set xs \<Longrightarrow> map_of (xs @ [(k, v)]) = (map_of xs)(k \<mapsto> v)"
  by (induction xs) (auto simp: fun_eq_iff)

lemma dispatch_entry_ok:
  assumes inv: "disp_inv ms env F0 st" and len: "e_pathlen e = length (e_path e)"
    and room: "0 < disp_room env st"
  shows "\<exists>st'. dispatch_entry ms env e st = Inr (vcs_name (e_name e), st') \<and> disp_inv ms env F0 st' \<and>
    map fi_filename (d_pipe st') = map fi_filename (d_pipe st) @ sent_paths env e \<and>
    disp_room env st \<le> disp_room env st' + length (sent_paths env e)"
proof (cases "entry_open env e (d_proc st)")
  case (Pair skip r)
  note i = inv [unfolded disp_inv_def] and D = disp_inv_dom [OF inv]
  have skip: "skip = vcs_name (e_name e)" using entry_open_skip [of env e "d_proc st"] Pair by simp
  have fin: "finite (dom (p_open (d_proc st)))" unfolding D using i by simp
  show ?thesis
  proof (cases r)
    case None
    have "sent_paths env e = []"
      using entry_open_None [of env e "d_proc st"] Pair None room by (simp add: disp_room_def)
    with None inv skip show ?thesis by (simp add: dispatch_entry_def Pair)
  next
    case (Some q)
    obtain fd p1 where q: "q = (fd, p1)" by (cases q)
    note O = entry_open_Some [OF _ _ fin, of env e skip fd p1, unfolded Pair Some q, OF refl]
    have env: "denv_ok env" and ms: "magic_ready ms" using i by simp_all
    note O = O [OF env]
    have fresh: "fd \<notin> dom F0" "fd \<notin> fi_fd ` set (d_pipe st)" using O(1) unfolding D by auto
    show ?thesis
    proof (cases "looks_binary env (e_path e)")
      case True
      have "dispatch_entry ms env e st = Inr (skip, st)"
        using True O(1,2) by (simp add: dispatch_entry_def Pair Some q send_file_def scan_file_ok [OF ms env]
            close_fd_def fun_upd_idem domIff)
      with True O(3) inv skip show ?thesis by simp
    next
      case False
      let ?fi = "\<lparr>fi_fd = fd, fi_filename = e_path e, fi_pmap = None, fi_size = 0\<rparr>"
      let ?st = "st\<lparr>d_proc := copy_name (e_path e) p1, d_pipe := d_pipe st @ [?fi]\<rparr>"
      have st': "dispatch_entry ms env e st = Inr (skip, ?st)"
        using False env by (simp add: dispatch_entry_def Pair Some q send_file_def scan_file_ok [OF ms env] len
            denv_ok_def)
      have "disp_inv ms env F0 ?st"
        using i fresh O(2) map_of_snoc [of fd "map (\<lambda>fi. (fi_fd fi, OFile (fi_filename fi))) (d_pipe st)"]
        by (auto simp: disp_inv_def copy_name_def image_comp comp_def)
      moreover have "disp_room env st \<le> disp_room env ?st + 1"
        using O(1,2) fin by (simp add: disp_room_def copy_name_def)
      ultimately show ?thesis using st' skip O(3,5) False by simp
    qed
  qed
qed

interpretation dispatch_visit: tree_visitor "dispatch_entry ms env" "disp_inv ms env F0"
  "\<lambda>st. map fi_filename (d_pipe st)" "sent_paths env" vcs_name "disp_room env"
  for ms env F0
  by unfold_locales (erule (2) dispatch_entry_ok, simp_all add: sent_paths_def)

lemma magic_fini_ok:
  assumes "magic_ready ms"
  obtains ms' where "magic_fini (t_next (m_heap ms)) ms = Inr ms'"
proof -
  obtain r where r: "m_tr ms = Some r" "trie_wf (m_heap ms) r" "heap_ok (m_heap ms)"
    using assms by (auto simp: magic_ready_def split: option.splits)
  have "length ks < t_next (m_heap ms)" if "follow (m_heap ms) r ks \<noteq> None" for ks
    using that path_length [OF r(2,3)] by auto
  with trie_destroy_ok [OF r(2), of "t_next (m_heap ms)"]
  obtain h where "trie_destroy (t_next (m_heap ms)) r (m_heap ms) = Inr h" by blast
  then show thesis using that r(1) by (simp add: magic_fini_def)
qed

definition disp_start :: "proc \<Rightarrow> dstate" where
  "disp_start p = \<lparr>d_pipe = [], d_proc = p\<rparr>"

lemma dispatcher_ok:
  assumes "magic_fresh ms" and "denv_ok env" and "finite (dom (p_open p))"
    and "card (dom (p_open p)) + length (searched_paths env [FtsPre (bytes ''.'') tree]) < de_limit env"
  shows "\<exists>st' ms'. dispatcher_thread env pipe_fd tree ms (disp_start p) = Inr (st', True, ms') \<and>
           map fi_filename (d_pipe st') = searched_paths env [FtsPre (bytes ''.'') tree] \<and>
           p_open (d_proc st') =
             (p_open p ++ map_of (map (\<lambda>fi. (fi_fd fi, OFile (fi_filename fi))) (d_pipe st')))(pipe_fd := None) \<and>
           distinct (map fi_fd (d_pipe st')) \<and> dom (p_open p) \<inter> fi_fd ` set (d_pipe st') = {}"
proof -
  obtain ms1 where ms1: "magic_init ms = Inr ms1" "magic_ready ms1"
    using magic_init_ready [OF assms(1)] by blast
  let ?its = "[FtsPre (bytes ''.'') tree]"
  have inv: "disp_inv ms1 env (p_open p) (disp_start p)"
    using ms1(2) assms(2,3) by (simp add: disp_inv_def disp_start_def)
  have room: "length (concat (map (sent_paths env) (items_files vcs_name ?its))) < disp_room env (disp_start p)"
    using assms(4) by (simp add: searched_paths_def disp_room_def disp_start_def)
  obtain st1 where st1: "fts_loop (dispatch_entry ms1 env) ?its (disp_start p) = Inr st1"
    "disp_inv ms1 env (p_open p) st1" "map fi_filename (d_pipe st1) = searched_paths env ?its"
    using dispatch_visit.loop_emits [OF inv room] by (auto simp: searched_paths_def disp_start_def)
  obtain ms2 where "magic_fini (t_next (m_heap ms1)) ms1 = Inr ms2" by (rule magic_fini_ok [OF ms1(2)])
  with ms1(1) st1 show ?thesis
    by (simp add: dispatcher_thread_def Let_def disp_inv_def)
qed

section \<open>Properties\<close>

definition all_files_env :: "nat \<Rightarrow> (byte list \<Rightarrow> byte list) \<Rightarrow> denv" where
  "all_files_env limit content = \<lparr>de_can_open = (\<lambda>p. True), de_fd = (\<lambda>F. 1 + Max (insert 2 F)),
     de_limit = limit, de_content = content, de_junk = replicate 16 0, de_write = (\<lambda>fi. True)\<rparr>"

lemma all_files_env_ok: "denv_ok (all_files_env limit content)"
proof -
  have "1 + Max (insert 2 F) \<notin> F" if "finite F" for F :: "int set"
    using Max_ge [of "insert 2 F" "1 + Max (insert 2 F)"] that by auto
  then show ?thesis by (simp add: denv_ok_def all_files_env_def)
qed

text \<open>
  C10: the dispatcher on its own, with nobody reading its pipe and closing what it opened, and a process
  that may have more descriptors than those open at the start plus one for each file it sends: it writes one record to the
  pipe, in the order of the walk, for every regular
  file that is not below a directory named \<open>.git\<close>, \<open>.svn\<close> or \<open>.hg\<close> (nor has such a name itself), can
  be opened and is not taken for binary; it then closes the pipe and frees the signature trie.
  The descriptors it leaves open are exactly those in the records, one each, referring to the
  file named there: those of binary files are closed.  It is also assumed that \<open>open\<close> delivers unused
  descriptors and that a \<open>write\<close> takes a record (\<open>denv_ok\<close>).  With too few descriptors files are lost
  without a message; beside workers, which close files, a fixed number suffices for any tree.
\<close>

theorem dispatcher_sends_text_files:
  assumes "magic_fresh ms" and "denv_ok env" and "finite (dom (p_open p))"
    and "card (dom (p_open p)) + length (searched_paths env [FtsPre (bytes ''.'') tree]) < de_limit env"
  shows "\<exists>st' ms'. dispatcher_thread env pipe_fd tree ms (disp_start p) = Inr (st', True, ms') \<and>
           map fi_filename (d_pipe st') = searched_paths env [FtsPre (bytes ''.'') tree] \<and>
           p_open (d_proc st') =
             (p_open p ++ map_of (map (\<lambda>fi. (fi_fd fi, OFile (fi_filename fi))) (d_pipe st')))(pipe_fd := None) \<and>
           distinct (map fi_fd (d_pipe st')) \<and> dom (p_open p) \<inter> fi_fd ` set (d_pipe st') = {}"
  using assms by (rule dispatcher_ok)

theorem dispatcher_sends_text_files_witness:
  "\<exists>st' ms'. dispatcher_thread (all_files_env 9 (\<lambda>p. [65, 66])) 4
       (FDir [46] [FReg [97], FDir (bytes ''.git'') [FReg [98]]]) fresh_detector
       (disp_start \<lparr>p_open = [4 \<mapsto> OPipe], p_maps = 0, p_names = {#}\<rparr>) = Inr (st', True, ms') \<and>
     map fi_filename (d_pipe st') = searched_paths (all_files_env 9 (\<lambda>p. [65, 66]))
       [FtsPre (bytes ''.'') (FDir [46] [FReg [97], FDir (bytes ''.git'') [FReg [98]]])] \<and>
     p_open (d_proc st') = (p_open \<lparr>p_open = [4 \<mapsto> OPipe], p_maps = 0, p_names = {#}\<rparr> ++
       map_of (map (\<lambda>fi. (fi_fd fi, OFile (fi_filename fi))) (d_pipe st')))(4 := None) \<and>
     distinct (map fi_fd (d_pipe st')) \<and>
     dom (p_open \<lparr>p_open = [4 \<mapsto> OPipe], p_maps = 0, p_names = {#}\<rparr>) \<inter> fi_fd ` set (d_pipe st') = {}"
proof (rule dispatcher_sends_text_files)
  let ?tree = "FDir [46] [FReg [97], FDir (bytes ''.git'') [FReg [98]]]"
  have "length (searched_paths (all_files_env 9 (\<lambda>p. [65, 66])) [FtsPre (bytes ''.'') ?tree]) \<le> 1"
    using searched_paths_length [of "all_files_env 9 (\<lambda>p. [65, 66])" "[FtsPre (bytes ''.'') ?tree]"]
    by (simp add: items_files_def vcs_name_def split: if_splits)
  then show "card (dom (p_open \<lparr>p_open = [4 \<mapsto> OPipe], p_maps = 0, p_names = {#}\<rparr>)) +
      length (searched_paths (all_files_env 9 (\<lambda>p. [65, 66])) [FtsPre (bytes ''.'') ?tree])
      < de_limit (all_files_env 9 (\<lambda>p. [65, 66]))"
    by (simp add: all_files_env_def)
qed (simp_all add: fresh_detector_fresh all_files_env_ok)

text \<open>
  The \<open>readdir\<close> variant gives up at the first regular file it cannot open: it returns without
  closing the pipe, so that the workers never see its end.
\<close>

theorem readdir_stops_at_unreadable:
  assumes "magic_fresh ms" and "\<not> de_can_open env (take 511 (child_path (bytes ''.'') name))"
  shows "\<exists>ms'. dispatcher_readdir env pipe_fd (Some ((name, True) # es)) ms st = Inr (st, False, ms')"
proof -
  obtain ms1 where "magic_init ms = Inr ms1" using magic_init_ready [OF assms(1)] by blast
  with assms(2) show ?thesis by (simp add: dispatcher_readdir_def Let_def open_file_def)
qed

theorem readdir_stops_at_unreadable_witness:
  "\<exists>ms'. dispatcher_readdir ((all_files_env 9 (\<lambda>p. []))\<lparr>de_can_open := (\<lambda>p. False)\<rparr>) 4 (Some [([97], True)])
     fresh_detector (disp_start \<lparr>p_open = [4 \<mapsto> OPipe], p_maps = 0, p_names = {#}\<rparr>) =
     Inr (disp_start \<lparr>p_open = [4 \<mapsto> OPipe], p_maps = 0, p_names = {#}\<rparr>, False, ms')"
  by (rule readdir_stops_at_unreadable) (simp_all add: fresh_detector_fresh)

end
