(* ===== verification/Options.thy ===== *)
theory Options
  imports Prelude
begin

text \<open>
  The command line, \<open>src/src/options.c\<close>: \<open>parse_options\<close> over the global \<open>opt\<close> of
  \<open>src/src/options.h\<close>.

  What \<open>getopt_long\<close> delivers is a parameter: the list of its results, each with the value it
  stores in \<open>opt_idx\<close> (it stores one only for a long option) and \<open>optarg\<close>, and the final \<open>optind\<close>.
  \<open>opt_idx\<close> itself starts out uninitialised.
\<close>

section \<open>State and operations\<close>

record cli_options =
  o_str_matching_algo :: int
  o_search_pattern :: "byte list option"
  o_search_patlen :: int
  o_input_file :: "byte list option"
  o_input_dirs :: "byte list list option"
  o_list_matching_files :: bool

datatype getopt_result =
    ShortOpt byte                              \<comment> \<open>a short option or \<open>?\<close>; \<open>optarg\<close> is \<open>NULL\<close>\<close>
  | LongOpt nat "byte list option"             \<comment> \<open>a long option: its index, \<open>optarg\<close>\<close>

text \<open>The names in \<open>longopts\<close>; the table has no terminating entry.\<close>

definition longopts :: "byte list list" where
  "longopts = [bytes ''kmp'', bytes ''file'']"

definition print_usage :: "'a res" where
  "print_usage = Inl (ExitWith 1)"

text \<open>\<open>case 0\<close> of the switch, reached by fall-through from \<open>case 'l'\<close> as well.\<close>

definition option_case0 ::
  "nat option \<Rightarrow> byte list option \<Rightarrow> cli_options \<Rightarrow> cli_options res" where
  "option_case0 opt_idx optarg opt =
     (case opt_idx of
        None \<Rightarrow> Inl Indeterminate
      | Some i \<Rightarrow>
          rbind (rd longopts i) (\<lambda>name.
          if name = bytes ''file'' then Inr (opt\<lparr>o_input_file := optarg\<rparr>) else Inr opt))"

text \<open>
  \<open>getopt_long\<close> stores the value 0 through the flag of \<open>--kmp\<close>, \<open>&opt.str_matching_algo\<close>; both long
  options make it return 0.
\<close>

fun parse_loop ::
  "getopt_result list \<Rightarrow> nat option \<Rightarrow> cli_options \<Rightarrow> cli_options res" where
  "parse_loop [] opt_idx opt = Inr opt"
| "parse_loop (LongOpt i optarg # rs) opt_idx opt =
     rbind (option_case0 (Some i) optarg (if i = 0 then opt\<lparr>o_str_matching_algo := 0\<rparr> else opt))
       (parse_loop rs (Some i))"
| "parse_loop (ShortOpt c # rs) opt_idx opt =
     (if c = 108 then
        rbind (option_case0 opt_idx None (opt\<lparr>o_list_matching_files := True\<rparr>)) (parse_loop rs opt_idx)
      else print_usage)"

text \<open>The length of the pattern, a \<open>size_t\<close>, is stored in an \<open>int\<close>.\<close>

definition parse_options ::
  "byte list list \<Rightarrow> getopt_result list \<Rightarrow> nat \<Rightarrow> cli_options \<Rightarrow> cli_options res" where
  "parse_options argv results optind opt =
     rbind (parse_loop results None opt) (\<lambda>opt1.
     if length argv \<le> optind then print_usage
     else
       rbind (rd argv optind) (\<lambda>pattern.
       let opt2 = opt1\<lparr>o_search_pattern := Some pattern,
                       o_search_patlen := int_of_u32 (u32 (length pattern))\<rparr>;
           opt3 = (if Suc optind < length argv then opt2\<lparr>o_input_dirs := Some (drop (Suc optind) argv)\<rparr>
                   else opt2)
       in if o_input_file opt3 = None \<and> o_input_dirs opt3 = None \<and> o_search_pattern opt3 = None
          then print_usage else Inr opt3))"

section \<open>What the options mean\<close>

text \<open>The argument of the last \<open>--file\<close>.\<close>

definition last_file :: "getopt_result list \<Rightarrow> byte list option \<Rightarrow> byte list option" where
  "last_file rs f = foldl (\<lambda>f r. case r of LongOpt i a \<Rightarrow> if i = 1 then a else f | ShortOpt c \<Rightarrow> f) f rs"

definition long_only :: "getopt_result list \<Rightarrow> bool" where
  "long_only rs = list_all (\<lambda>r. case r of LongOpt i a \<Rightarrow> i < 2 | ShortOpt c \<Rightarrow> False) rs"

definition asks_kmp :: "getopt_result list \<Rightarrow> bool" where
  "asks_kmp rs = list_ex (\<lambda>r. case r of LongOpt i a \<Rightarrow> i = 0 | ShortOpt c \<Rightarrow> False) rs"

lemma longopts_names: "longopts ! 0 \<noteq> bytes ''file''" "longopts ! Suc 0 = bytes ''file''" "length longopts = 2"
  by (simp_all add: longopts_def bytes_def)

lemma option_case0_long:
  "i < 2 \<Longrightarrow> option_case0 (Some i) a opt = Inr (if i = 1 then opt\<lparr>o_input_file := a\<rparr> else opt)"
  using longopts_names by (cases "i = 0") (auto simp: option_case0_def less_2_cases_iff)

lemma parse_loop_long:
  assumes "long_only rs"
  shows "parse_loop rs idx opt =
    Inr (opt\<lparr>o_str_matching_algo := if asks_kmp rs then 0 else o_str_matching_algo opt,
             o_input_file := last_file rs (o_input_file opt)\<rparr>)"
  using assms
proof (induction rs arbitrary: idx opt)
  case (Cons r rs)
  then obtain i a where r: "r = LongOpt i a" "i < 2" "long_only rs"
    by (auto simp: long_only_def split: getopt_result.splits)
  then show ?case
    using Cons.IH [OF r(3)]
    by (cases "i = 0") (auto simp: option_case0_long asks_kmp_def last_file_def)
qed (simp add: asks_kmp_def last_file_def)

section \<open>Properties\<close>

definition no_options :: cli_options where
  "no_options = \<lparr>o_str_matching_algo = 0, o_search_pattern = None, o_search_patlen = 0,
     o_input_file = None, o_input_dirs = None, o_list_matching_files = False\<rparr>"

text \<open>
  C35: with long options only, \<open>parse_options\<close> stores the argument of the last \<open>--file\<close>, takes the
  first operand as the pattern together with its length, and the remaining operands as
  directories; without an operand it prints the usage and exits with status 1.
\<close>

theorem parse_options_long:
  assumes "long_only rs" and "\<forall>a \<in> set argv. length a \<le> INT_MAX"
  shows "parse_options argv rs optind opt =
    (if length argv \<le> optind then Inl (ExitWith 1)
     else Inr (opt\<lparr>o_str_matching_algo := if asks_kmp rs then 0 else o_str_matching_algo opt,
                   o_input_file := last_file rs (o_input_file opt),
                   o_search_pattern := Some (argv ! optind),
                   o_search_patlen := int (length (argv ! optind)),
                   o_input_dirs := if Suc optind < length argv then Some (drop (Suc optind) argv)
                                   else o_input_dirs opt\<rparr>))"
proof -
  have "length (argv ! optind) \<le> INT_MAX" if "optind < length argv" using assms(2) that by simp
  then show ?thesis
    by (auto simp: parse_options_def parse_loop_long [OF assms(1)] print_usage_def Let_def int_limits)
qed

theorem parse_options_long_witness:
  "parse_options [[115], [45], [102], [97, 98], [100]] [LongOpt 1 (Some [102])] 3 no_options =
     Inr \<lparr>o_str_matching_algo = 0, o_search_pattern = Some [97, 98], o_search_patlen = 2,
       o_input_file = Some [102], o_input_dirs = Some [[100]], o_list_matching_files = False\<rparr>"
  using parse_options_long [of "[LongOpt 1 (Some [102])]" "[[115], [45], [102], [97, 98], [100]]" 3 no_options]
  by (simp add: long_only_def asks_kmp_def last_file_def no_options_def INT_MAX_def)

text \<open>
  The case for \<open>-l\<close> falls through and reads \<open>opt_idx\<close>: as the first option it reads an
  uninitialised variable, and after \<open>--file\<close> it overwrites the file name with \<open>NULL\<close>.
\<close>

theorem parse_options_list_falls_through:
  "parse_options argv (ShortOpt 108 # rs) optind opt = Inl Indeterminate \<and>
   parse_loop [LongOpt 1 f, ShortOpt 108] None opt =
     Inr (opt\<lparr>o_list_matching_files := True, o_input_file := None\<rparr>)"
  by (simp add: parse_options_def option_case0_long) (simp add: option_case0_def)

end
