(* ===== verification/System.thy ===== *)
theory System
  imports Worker Dispatch Options
begin

text \<open>
  The running program: the interleaving of the dispatcher with the two workers that \<open>test_procon\<close> of
  \<open>src/src/main.c\<close> starts and joins.

  The threads share the pipe, standard output and the process with its descriptor table.  The steps
  of the dispatcher are the start with \<open>magic_init\<close>, one call of \<open>fts_read\<close> with the tests up to
  \<open>open\<close>, the test for a binary file, the \<open>write\<close> to the pipe and the end.  The steps of a worker are
  its start, the \<open>read\<close> of one record or of the end of file (under \<open>readmtx\<close>), and the processing of
  one file, whose effects on shared state are one critical section of \<open>outmtx\<close> and the release of its
  descriptor and mapping.  The pipe holds at most \<open>cap\<close> records.  A step that fails ends the process
  (\<open>s_died\<close>).  A call that never returns (a search whose loop does not end, \<open>NoReturn\<close>) is no end: its thread
  goes on for ever, which is a step that changes nothing and can be taken again and again.  Descriptor numbers released by a worker can be given out again by \<open>open\<close>.
\<close>

section \<open>State and steps\<close>

text \<open>The globals the threads read, and the parameters of the model.\<close>

record cfg =
  c_opt :: cli_options
  c_pipefd :: "int \<times> int"
  c_result :: "(int \<times> int) list"
  c_os :: os
  c_env :: denv
  c_memalign :: "nat \<Rightarrow> nat list option"
  c_lim :: nat                \<comment> \<open>the largest block \<open>realloc\<close> delivers\<close>
  c_cap :: nat                \<comment> \<open>how many records the pipe holds\<close>

datatype wthread =
    Fresh worker              \<comment> \<open>created\<close>
  | Idle worker               \<comment> \<open>before \<open>read\<close>\<close>
  | Busy fileinfo worker      \<comment> \<open>processing a file\<close>
  | Exited worker             \<comment> \<open>returned\<close>

datatype dthread =
    DStart fnode                               \<comment> \<open>created; the tree below the current directory\<close>
  | DRead "fts_item list"                      \<comment> \<open>before \<open>fts_read\<close>\<close>
  | DScan fts_entry int "fts_item list"        \<comment> \<open>the file is open\<close>
  | DWrite fileinfo "fts_item list"            \<comment> \<open>the file is not binary; before \<open>write\<close>\<close>
  | DExited                                    \<comment> \<open>returned\<close>

record sys =
  s_disp :: dthread
  s_magic :: magic_state
  s_pipe :: "fileinfo list"
  s_closed :: bool            \<comment> \<open>whether the write end is closed\<close>
  s_thr :: "wthread list"
  s_out :: "byte list list"
  s_proc :: proc
  s_died :: "cerror option"   \<comment> \<open>how the process was ended, if it was\<close>

text \<open>A null pattern is a block without bytes: no access to it is allowed.\<close>

definition c_pattern :: "cfg \<Rightarrow> byte list" where
  "c_pattern c = (case o_search_pattern (c_opt c) of None \<Rightarrow> [] | Some p \<Rightarrow> p)"

definition c_patlen :: "cfg \<Rightarrow> nat" where
  "c_patlen c = nat (o_search_patlen (c_opt c) mod int SIZE_MOD)"

abbreviation c_list_only :: "cfg \<Rightarrow> bool" where
  "c_list_only c \<equiv> o_list_matching_files (c_opt c)"

text \<open>A worker sees the shared output and process, and its changes to them are shared.\<close>

definition sharing :: "sys \<Rightarrow> worker \<Rightarrow> worker" where
  "sharing s wk = wk\<lparr>wk_out := s_out s, wk_proc := s_proc s\<rparr>"

definition publish :: "sys \<Rightarrow> worker \<Rightarrow> wthread list \<Rightarrow> sys" where
  "publish s wk thr = s\<lparr>s_thr := thr, s_out := wk_out wk, s_proc := wk_proc wk\<rparr>"

text \<open>The operations a thread performs in a step.\<close>

definition start_work :: "cfg \<Rightarrow> sys \<Rightarrow> worker \<Rightarrow> worker res" where
  "start_work c s wk = worker_start (c_memalign c) (c_pattern c) (c_patlen c) (sharing s wk)"

definition do_file :: "cfg \<Rightarrow> sys \<Rightarrow> fileinfo \<Rightarrow> worker \<Rightarrow> worker res" where
  "do_file c s fi wk = worker_file (c_os c) (c_patlen c) (c_list_only c) fi (sharing s wk)"

definition scan_entry :: "cfg \<Rightarrow> sys \<Rightarrow> fts_entry \<Rightarrow> int \<Rightarrow> fileinfo option res" where
  "scan_entry c s e fd = scan_file (s_magic s) (c_env c) (e_path e) (take (e_pathlen e) (e_path e)) fd"

definition end_magic :: "sys \<Rightarrow> magic_state res" where
  "end_magic s = magic_fini (t_next (m_heap (s_magic s))) (s_magic s)"

definition disp_fails :: "cfg \<Rightarrow> sys \<Rightarrow> cerror \<Rightarrow> bool" where
  "disp_fails c s err =
     (case s_disp s of
        DStart tree \<Rightarrow> magic_init (s_magic s) = Inl err
      | DScan e fd its \<Rightarrow> scan_entry c s e fd = Inl err
      | DRead its \<Rightarrow> its = [] \<and> end_magic s = Inl err
      | DWrite fi its \<Rightarrow> False
      | DExited \<Rightarrow> False)"

definition work_fails :: "cfg \<Rightarrow> sys \<Rightarrow> cerror \<Rightarrow> bool" where
  "work_fails c s err =
     list_ex (\<lambda>t. case t of Fresh wk \<Rightarrow> start_work c s wk = Inl err | Busy fi wk \<Rightarrow> do_file c s fi wk = Inl err
                | Idle wk \<Rightarrow> False | Exited wk \<Rightarrow> False) (s_thr s)"

text \<open>Some thread is in a call that never returns.\<close>

definition spins :: "cfg \<Rightarrow> sys \<Rightarrow> bool" where
  "spins c s \<longleftrightarrow> disp_fails c s NoReturn \<or> work_fails c s NoReturn"

inductive sys_step :: "cfg \<Rightarrow> sys \<Rightarrow> sys \<Rightarrow> bool" for c where
  disp_init: "s_died s = None \<Longrightarrow> s_disp s = DStart tree \<Longrightarrow> magic_init (s_magic s) = Inr ms \<Longrightarrow>
    sys_step c s (s\<lparr>s_disp := DRead [FtsPre (bytes ''.'') tree], s_magic := ms\<rparr>)"
| disp_next: "s_died s = None \<Longrightarrow> s_disp s = DRead (it # its) \<Longrightarrow>
    entry_open (c_env c) (fts_visit it) (s_proc s) = (skip, None) \<Longrightarrow>
    sys_step c s (s\<lparr>s_disp := DRead (fts_after skip it @ its)\<rparr>)"
| disp_open: "s_died s = None \<Longrightarrow> s_disp s = DRead (it # its) \<Longrightarrow>
    entry_open (c_env c) (fts_visit it) (s_proc s) = (skip, Some (fd, p1)) \<Longrightarrow>
    sys_step c s (s\<lparr>s_disp := DScan (fts_visit it) fd (fts_after skip it @ its), s_proc := p1\<rparr>)"
| disp_binary: "s_died s = None \<Longrightarrow> s_disp s = DScan e fd its \<Longrightarrow> scan_entry c s e fd = Inr None \<Longrightarrow>
    sys_step c s (s\<lparr>s_disp := DRead its, s_proc := close_fd fd (s_proc s)\<rparr>)"
| disp_text: "s_died s = None \<Longrightarrow> s_disp s = DScan e fd its \<Longrightarrow> scan_entry c s e fd = Inr (Some fi) \<Longrightarrow>
    sys_step c s (s\<lparr>s_disp := DWrite fi its, s_proc := copy_name (fi_filename fi) (s_proc s)\<rparr>)"
| disp_write: "s_died s = None \<Longrightarrow> s_disp s = DWrite fi its \<Longrightarrow> length (s_pipe s) < c_cap c \<Longrightarrow>
    sys_step c s (s\<lparr>s_disp := DRead its,
      s_pipe := (if de_write (c_env c) fi then s_pipe s @ [fi] else s_pipe s)\<rparr>)"
| disp_end: "s_died s = None \<Longrightarrow> s_disp s = DRead [] \<Longrightarrow> end_magic s = Inr ms \<Longrightarrow>
    sys_step c s (s\<lparr>s_disp := DExited, s_magic := ms, s_closed := True,
      s_proc := close_fd (snd (c_pipefd c)) (s_proc s)\<rparr>)"
| work_start: "s_died s = None \<Longrightarrow> s_thr s = ts @ Fresh wk # us \<Longrightarrow> start_work c s wk = Inr wk' \<Longrightarrow>
    sys_step c s (publish s wk' (ts @ Idle wk' # us))"
| work_read: "s_died s = None \<Longrightarrow> s_thr s = ts @ Idle wk # us \<Longrightarrow> s_pipe s = fi # fis \<Longrightarrow>
    sys_step c s (s\<lparr>s_pipe := fis, s_thr := ts @ Busy fi wk # us\<rparr>)"
| work_file: "s_died s = None \<Longrightarrow> s_thr s = ts @ Busy fi wk # us \<Longrightarrow> do_file c s fi wk = Inr wk' \<Longrightarrow>
    sys_step c s (publish s wk' (ts @ Idle wk' # us))"
| work_eof: "s_died s = None \<Longrightarrow> s_thr s = ts @ Idle wk # us \<Longrightarrow> s_pipe s = [] \<Longrightarrow> s_closed s \<Longrightarrow>
    wk' = worker_finish (snd (c_result c ! length ts)) (sharing s wk) \<Longrightarrow>
    sys_step c s (publish s wk' (ts @ Exited wk' # us))"
| thread_fails: "s_died s = None \<Longrightarrow> disp_fails c s err \<or> work_fails c s err \<Longrightarrow> err \<noteq> NoReturn \<Longrightarrow>
    sys_step c s (s\<lparr>s_died := Some err\<rparr>)"
| thread_spins: "s_died s = None \<Longrightarrow> spins c s \<Longrightarrow> sys_step c s s"

definition exited :: "wthread \<Rightarrow> bool" where
  "exited t = (case t of Exited wk \<Rightarrow> True | Fresh wk \<Rightarrow> False | Idle wk \<Rightarrow> False | Busy fi wk \<Rightarrow> False)"

lemma exited_simps [simp]:
  "exited (Exited wk)" "\<not> exited (Fresh wk)" "\<not> exited (Idle wk)" "\<not> exited (Busy fi wk)"
  by (simp_all add: exited_def)

text \<open>All threads have been joined.\<close>

definition finished :: "sys \<Rightarrow> bool" where
  "finished s \<longleftrightarrow> s_died s = None \<and> s_disp s = DExited \<and> list_all exited (s_thr s)"

text \<open>\<open>test_procon\<close>: the dispatcher and two workers are created.\<close>

definition NCPU :: nat where
  "NCPU = 2"

definition new_thread :: "nat \<Rightarrow> worker" where
  "new_thread lim = new_worker lim Map.empty"

definition test_procon :: "cfg \<Rightarrow> fnode \<Rightarrow> magic_state \<Rightarrow> proc \<Rightarrow> sys" where
  "test_procon c tree ms p =
     \<lparr>s_disp = DStart tree, s_magic = ms, s_pipe = [], s_closed = False,
      s_thr = [Fresh (new_thread (c_lim c)), Fresh (new_thread (c_lim c))], s_out = [], s_proc = p,
      s_died = None\<rparr>"

section \<open>A bound on the steps\<close>

text \<open>
  Every step decreases \<open>work_left\<close>, unless a thread is in a call that never returns: a regular file still
  to visit counts six, one in the pipe three.
\<close>

fun node_work :: "fnode \<Rightarrow> nat" where
  "node_work (FDir name cs) = 2 + sum_list (map node_work cs)"
| "node_work (FReg name) = 6"
| "node_work (FOther name) = 1"

fun item_work :: "fts_item \<Rightarrow> nat" where
  "item_work (FtsPre path t) = node_work t"
| "item_work (FtsPost path name) = 1"

definition items_work :: "fts_item list \<Rightarrow> nat" where
  "items_work its = sum_list (map item_work its)"

definition disp_work :: "dthread \<Rightarrow> nat" where
  "disp_work d =
     (case d of DStart tree \<Rightarrow> 2 + node_work tree | DRead its \<Rightarrow> 1 + items_work its
      | DScan e fd its \<Rightarrow> 6 + items_work its | DWrite fi its \<Rightarrow> 5 + items_work its | DExited \<Rightarrow> 0)"

definition thread_work :: "wthread \<Rightarrow> nat" where
  "thread_work t = (case t of Fresh wk \<Rightarrow> 2 | Idle wk \<Rightarrow> 1 | Busy fi wk \<Rightarrow> 2 | Exited wk \<Rightarrow> 0)"

definition work_left :: "sys \<Rightarrow> nat" where
  "work_left s =
     (if s_died s = None
      then 1 + disp_work (s_disp s) + 3 * length (s_pipe s) + sum_list (map thread_work (s_thr s)) else 0)"

lemma items_work_simps [simp]:
  "items_work [] = 0" "items_work (it # its) = item_work it + items_work its"
  "items_work (its @ its') = items_work its + items_work its'"
  by (simp_all add: items_work_def)

lemma after_work:
  "items_work (fts_after skip it) < item_work it"
  "e_isreg (fts_visit it) \<Longrightarrow> items_work (fts_after skip it) + 6 \<le> item_work it"
  by (cases "(skip, it)" rule: fts_after.cases; simp add: items_work_def comp_def entry_def)+

lemma entry_open_regular: "entry_open env e p = (skip, Some q) \<Longrightarrow> e_isreg e"
  by (auto simp: entry_open_def split: if_splits)

lemma work_left_decreases: "sys_step c s s' \<Longrightarrow> \<not> spins c s \<Longrightarrow> work_left s' < work_left s"
proof (induction rule: sys_step.induct)
  case (disp_next s it its skip)
  then show ?case using after_work(1) [of skip it] by (simp add: work_left_def disp_work_def)
next
  case (disp_open s it its skip fd p1)
  then show ?case
    using after_work(2) [OF entry_open_regular [OF disp_open.hyps(3)], of skip]
    by (simp add: work_left_def disp_work_def)
qed (simp_all add: work_left_def disp_work_def thread_work_def publish_def)

end
