(* ===== verification/System_Inv.thy ===== *)
theory System_Inv
  imports System
begin

text \<open>
  The invariants of the running program: what the descriptors in use are and which file each refers
  to, which files have still to be reported, and how far each thread is.  From them follow progress
  in every state before the end and the state at the end.
\<close>

section \<open>The assumptions on a run\<close>

text \<open>
  The pattern is not empty and its length fits an \<open>int\<close>; the environment behaves as documented
  (\<open>memalign_ok\<close>, \<open>denv_ok\<close>); the kernel serves every file that is searched and each of these files is one the
  worker reports faithfully (\<open>paths_ok\<close> with \<open>file_ok\<close> of \<open>Worker\<close>: a condition on their sizes and contents);
  the process may have enough descriptors, and the ends of the pipes are among those open at the start.
\<close>

definition root_items :: "fnode \<Rightarrow> fts_item list" where
  "root_items tree = [FtsPre (bytes ''.'') tree]"

definition tree_paths :: "cfg \<Rightarrow> fnode \<Rightarrow> byte list list" where
  "tree_paths c tree = searched_paths (c_env c) (root_items tree)"

definition cfg_ok :: "cfg \<Rightarrow> byte list \<Rightarrow> fdtab \<Rightarrow> byte list list \<Rightarrow> bool" where
  "cfg_ok c p tab paths \<longleftrightarrow>
     o_search_pattern (c_opt c) = Some p \<and> o_search_patlen (c_opt c) = int (length p) \<and>
     length p \<le> INT_MAX \<and> p \<noteq> [] \<and> memalign_ok (c_memalign c) (length p) \<and>
     DEFAULT_SIZE \<le> c_lim c \<and> c_lim c < SIZE_MOD \<and> 0 < c_cap c \<and> denv_ok (c_env c) \<and>
     paths_ok (c_os c) (c_list_only c) (c_lim c) p (de_content (c_env c)) paths \<and>
     finite (dom tab) \<and> 0 \<in> dom tab \<and> card (dom tab) + c_cap c + NCPU < de_limit (c_env c) \<and>
     snd (c_pipefd c) \<in> dom tab \<and> length (c_result c) = NCPU \<and> snd ` set (c_result c) \<subseteq> dom tab"

lemma cfg_ok_pattern [simp]: "cfg_ok c p tab paths \<Longrightarrow> c_pattern c = p \<and> c_patlen c = length p"
  by (simp add: cfg_ok_def c_pattern_def c_patlen_def int_limits)

section \<open>What the threads hold\<close>

lemma reports_mset: "mset paths = mset paths' \<Longrightarrow> mset (reports lo p content paths) = mset (reports lo p content paths')"
proof -
  have "mset (reports lo p content xs) = (\<Sum>path \<in># mset xs. mset (file_output lo p path (content path)))" for xs
    by (induction xs) simp_all
  then show "mset paths = mset paths' \<Longrightarrow> mset (reports lo p content paths) = mset (reports lo p content paths')"
    by simp
qed
definition busy :: "wthread list \<Rightarrow> fileinfo list" where
  "busy ts = concat (map (\<lambda>t. case t of Busy fi wk \<Rightarrow> [fi] | Fresh wk \<Rightarrow> [] | Idle wk \<Rightarrow> [] | Exited wk \<Rightarrow> []) ts)"

lemma busy_simps [simp]:
  "busy [] = []" "busy (ts @ us) = busy ts @ busy us" "busy (Fresh wk # us) = busy us"
  "busy (Idle wk # us) = busy us" "busy (Exited wk # us) = busy us" "busy (Busy fi wk # us) = fi # busy us"
  by (simp_all add: busy_def)

definition disp_records :: "dthread \<Rightarrow> fileinfo list" where
  "disp_records d = (case d of DWrite fi its \<Rightarrow> [fi] | DStart t \<Rightarrow> [] | DRead its \<Rightarrow> [] | DScan e fd its \<Rightarrow> [] | DExited \<Rightarrow> [])"

definition scan_fds :: "dthread \<Rightarrow> int list" where
  "scan_fds d = (case d of DScan e fd its \<Rightarrow> [fd] | DStart t \<Rightarrow> [] | DRead its \<Rightarrow> [] | DWrite fi its \<Rightarrow> [] | DExited \<Rightarrow> [])"

text \<open>The records of files opened and not yet processed, and the descriptors of files in use.\<close>

definition records :: "sys \<Rightarrow> fileinfo list" where
  "records s = disp_records (s_disp s) @ s_pipe s @ busy (s_thr s)"

definition own_fds :: "sys \<Rightarrow> int list" where
  "own_fds s = scan_fds (s_disp s) @ map fi_fd (records s)"

text \<open>The paths of the files the dispatcher has still to send.\<close>

definition coming :: "cfg \<Rightarrow> sys \<Rightarrow> byte list list" where
  "coming c s =
     (case s_disp s of
        DStart tree \<Rightarrow> tree_paths c tree
      | DRead its \<Rightarrow> searched_paths (c_env c) its
      | DScan e fd its \<Rightarrow> (if looks_binary (c_env c) (e_path e) then [] else [e_path e]) @ searched_paths (c_env c) its
      | DWrite fi its \<Rightarrow> searched_paths (c_env c) its
      | DExited \<Rightarrow> [])"

lemmas held_defs = records_def own_fds_def disp_records_def scan_fds_def coming_def

definition exited_tids :: "wthread list \<Rightarrow> nat set" where
  "exited_tids ts = {i. i < length ts \<and> exited (ts ! i)}"

lemma exited_tids_upd:
  assumes "i < length xs" and "\<not> exited (xs ! i)"
  shows "exited_tids (xs[i := t]) = (if exited t then insert i (exited_tids xs) else exited_tids xs)"
  using assms by (auto simp: exited_tids_def nth_list_update split: if_splits)

lemma exited_tids_mid:
  assumes "\<not> exited t"
  shows "exited_tids (ts @ t' # us) =
    (if exited t' then insert (length ts) (exited_tids (ts @ t # us)) else exited_tids (ts @ t # us))"
  using exited_tids_upd [of "length ts" "ts @ t # us" t'] assms by simp

text \<open>The descriptors of the start that have been closed: the write ends the threads own.\<close>

definition closed_fds :: "cfg \<Rightarrow> sys \<Rightarrow> int set" where
  "closed_fds c s =
     (if s_closed s then {snd (c_pipefd c)} else {}) \<union> (\<lambda>i. snd (c_result c ! i)) ` exited_tids (s_thr s)"

section \<open>The invariants\<close>

definition thread_ok :: "byte list \<Rightarrow> nat \<Rightarrow> wthread \<Rightarrow> bool" where
  "thread_ok p lim t =
     (case t of Fresh wk \<Rightarrow> wk = new_thread lim | Idle wk \<Rightarrow> wk_ready p wk \<and> wk_lim wk = lim
      | Busy fi wk \<Rightarrow> wk_ready p wk \<and> wk_lim wk = lim | Exited wk \<Rightarrow> True)"

definition disp_ok :: "sys \<Rightarrow> bool" where
  "disp_ok s =
     (case s_disp s of DStart tree \<Rightarrow> magic_fresh (s_magic s) | DExited \<Rightarrow> True | DRead its \<Rightarrow> magic_ready (s_magic s)
      | DScan e fd its \<Rightarrow> magic_ready (s_magic s) \<and> e_pathlen e = length (e_path e) \<and>
                          p_open (s_proc s) fd = Some (OFile (e_path e))
      | DWrite fi its \<Rightarrow> magic_ready (s_magic s))"

definition thr_inv :: "cfg \<Rightarrow> byte list \<Rightarrow> sys \<Rightarrow> bool" where
  "thr_inv c p s \<longleftrightarrow>
     s_died s = None \<and> length (s_thr s) = NCPU \<and> list_all (thread_ok p (c_lim c)) (s_thr s) \<and> disp_ok s"

definition flow_inv :: "cfg \<Rightarrow> sys \<Rightarrow> bool" where
  "flow_inv c s \<longleftrightarrow>
     length (s_pipe s) \<le> c_cap c \<and> (s_closed s \<longleftrightarrow> s_disp s = DExited) \<and>
     (s_disp s \<noteq> DExited \<or> s_pipe s \<noteq> [] \<longrightarrow> \<not> list_ex exited (s_thr s))"

definition fd_inv :: "cfg \<Rightarrow> fdtab \<Rightarrow> sys \<Rightarrow> bool" where
  "fd_inv c tab s \<longleftrightarrow>
     list_all (\<lambda>fi. p_open (s_proc s) (fi_fd fi) = Some (OFile (fi_filename fi))) (records s) \<and>
     distinct (own_fds s) \<and> dom tab \<inter> set (own_fds s) = {} \<and>
     dom (p_open (s_proc s)) = (dom tab - closed_fds c s) \<union> set (own_fds s)"

text \<open>
  What has been printed are reports of the files in \<open>printed\<close>, and these are the files of the tree
  that are neither still to be sent nor in a record.  The copies of names still allocated are those in
  the records and those of the files that got no report.
\<close>

abbreviation reported :: "cfg \<Rightarrow> byte list \<Rightarrow> byte list list \<Rightarrow> byte list list \<Rightarrow> bool" where
  "reported c p \<equiv> reports_ok (c_list_only c) p (de_content (c_env c))"

abbreviation reported_with ::
  "cfg \<Rightarrow> byte list \<Rightarrow> byte list list \<Rightarrow> byte list list \<Rightarrow> byte list multiset \<Rightarrow> bool" where
  "reported_with c p \<equiv> reports_with (c_list_only c) p (de_content (c_env c))"

definition unreported :: "cfg \<Rightarrow> sys \<Rightarrow> byte list list" where
  "unreported c s = coming c s @ map fi_filename (records s)"

definition out_inv :: "cfg \<Rightarrow> byte list \<Rightarrow> byte list list \<Rightarrow> sys \<Rightarrow> bool" where
  "out_inv c p all s \<longleftrightarrow>
     (\<exists>printed names. mset all = mset printed + mset (unreported c s) \<and>
        reported_with c p printed (s_out s) names \<and>
        p_names (s_proc s) = mset (map fi_filename (records s)) + names) \<and>
     p_maps (s_proc s) = 0"

lemma out_inv_unreported: "out_inv c p all s \<Longrightarrow> set (unreported c s) \<subseteq> set all"
  unfolding out_inv_def by (metis mset_subset_eq_add_right set_mset_mono set_mset_mset)

text \<open>A step that prints nothing and keeps the files still to be reported.\<close>

lemma out_inv_keep:
  assumes "out_inv c p all s" and "mset (unreported c s') = mset (unreported c s)" and "s_out s' = s_out s"
    and "s_proc s' = s_proc s" and "mset (records s') = mset (records s)"
  shows "out_inv c p all s'"
  using assms by (simp add: out_inv_def mset_map)

definition sys_inv :: "cfg \<Rightarrow> byte list \<Rightarrow> fdtab \<Rightarrow> byte list list \<Rightarrow> sys \<Rightarrow> bool" where
  "sys_inv c p tab all s \<longleftrightarrow> thr_inv c p s \<and> flow_inv c s \<and> fd_inv c tab s \<and> out_inv c p all s"

text \<open>How many descriptors are in use.\<close>

lemma busy_length: "length (busy ts) \<le> length ts"
  by (induction ts) (auto simp: busy_def split: wthread.split)

lemma fds_in_use:
  assumes "sys_inv c p tab all s" and "finite (dom tab)"
  shows "finite (dom (p_open (s_proc s)))"
    and "card (dom (p_open (s_proc s))) \<le> card (dom tab) + length (own_fds s)"
    and "length (own_fds s) \<le> c_cap c + NCPU + length (scan_fds (s_disp s)) + length (disp_records (s_disp s))"
proof -
  have D: "dom (p_open (s_proc s)) = (dom tab - closed_fds c s) \<union> set (own_fds s)"
    and l: "length (s_pipe s) \<le> c_cap c" "length (s_thr s) = NCPU"
    using assms(1) by (simp_all add: sys_inv_def fd_inv_def flow_inv_def thr_inv_def)
  show "finite (dom (p_open (s_proc s)))" unfolding D using assms(2) by simp
  have "card (dom (p_open (s_proc s))) \<le> card (dom tab - closed_fds c s) + card (set (own_fds s))"
    unfolding D by (rule card_Un_le)
  also have "\<dots> \<le> card (dom tab) + length (own_fds s)"
    using assms(2) by (intro add_mono card_mono card_length) auto
  finally show "card (dom (p_open (s_proc s))) \<le> card (dom tab) + length (own_fds s)" .
  show "length (own_fds s) \<le> c_cap c + NCPU + length (scan_fds (s_disp s)) + length (disp_records (s_disp s))"
    using l busy_length [of "s_thr s"] by (simp add: own_fds_def records_def)
qed

section \<open>The threads do not fail\<close>

lemma wk_sharing [simp]:
  "wk_ready p (sharing s wk) = wk_ready p wk" "wk_lim (sharing s wk) = wk_lim wk"
  "wk_out (sharing s wk) = s_out s" "wk_proc (sharing s wk) = s_proc s"
  by (simp_all add: sharing_def wk_ready_def)

lemma worker_start_sharing:
  "worker_start m p n (sharing s wk) = rbind (worker_start m p n wk) (\<lambda>w. Inr (sharing s w))"
  by (simp add: worker_start_def sharing_def rbind_def split: sum.split)

lemma start_work_ok:
  assumes "cfg_ok c p tab paths"
  obtains wk' where "start_work c s (new_thread (c_lim c)) = Inr wk'" and "wk_ready p wk'"
    and "wk_lim wk' = c_lim c" and "wk_out wk' = s_out s" and "wk_proc wk' = s_proc s"
proof -
  note C = assms [unfolded cfg_ok_def]
  have "p \<noteq> []" using C by simp
  then obtain w where w: "worker_start (c_memalign c) p (length p) (new_thread (c_lim c)) = Inr w"
    "wk_ready p w" "wk_lim w = c_lim c"
    using worker_start_ok [of "c_memalign c" p "c_lim c" Map.empty] C unfolding new_thread_def by metis
  have "start_work c s (new_thread (c_lim c)) = Inr (sharing s w)"
    using w(1) cfg_ok_pattern [OF assms] by (simp add: start_work_def worker_start_sharing)
  with w(2,3) show thesis by (intro that [of "sharing s w"]) simp_all
qed

lemma do_file_ok:
  assumes inv: "sys_inv c p tab paths s" and C: "cfg_ok c p tab paths" and thr: "s_thr s = ts @ Busy fi wk # us"
  obtains wk' out where "do_file c s fi wk = Inr wk'" and "worker_did p fi out (sharing s wk) wk'"
    and "report_ok (c_list_only c) p (fi_filename fi) (de_content (c_env c) (fi_filename fi)) out"
proof -
  let ?t = "de_content (c_env c) (fi_filename fi)"
  note C' = C [unfolded cfg_ok_def]
  have fi: "fi \<in> set (records s)" by (simp add: records_def thr)
  have "fi_filename fi \<in> set paths"
    using fi inv out_inv_unreported [of c p paths s] by (auto simp: sys_inv_def unreported_def)
  then have "os_serves (c_os c) (OFile (fi_filename fi)) ?t" "file_ok (c_list_only c) (c_lim c) p ?t"
    using C' by (auto simp: paths_ok_def list_all_iff)
  moreover have "p_open (s_proc s) (fi_fd fi) = Some (OFile (fi_filename fi))" "fi_fd fi \<noteq> 0"
    using inv fi C' by (auto simp: sys_inv_def fd_inv_def list_all_iff own_fds_def)
  moreover have "wk_ready p wk" "wk_lim wk = c_lim c"
    using inv by (simp_all add: sys_inv_def thr_inv_def thr thread_ok_def)
  ultimately show thesis
    using worker_file_ok [of p "sharing s wk" "c_os c" "OFile (fi_filename fi)" ?t fi "c_list_only c"]
      cfg_ok_pattern [OF C] that by (auto simp: do_file_def)
qed

lemma scan_entry_ok:
  assumes "sys_inv c p tab paths s" and "cfg_ok c p tab paths" and "s_disp s = DScan e fd its"
  shows "scan_entry c s e fd =
    Inr (if looks_binary (c_env c) (e_path e) then None
         else Some \<lparr>fi_fd = fd, fi_filename = e_path e, fi_pmap = None, fi_size = 0\<rparr>)"
  using assms scan_file_ok [of "s_magic s" "c_env c"]
  by (simp add: sys_inv_def thr_inv_def disp_ok_def cfg_ok_def scan_entry_def)

lemma end_magic_ok:
  assumes "sys_inv c p tab paths s" and "s_disp s = DRead its"
  obtains ms where "end_magic s = Inr ms"
  using assms magic_fini_ok [of "s_magic s"] by (auto simp: sys_inv_def thr_inv_def disp_ok_def end_magic_def)

lemma no_failure:
  assumes inv: "sys_inv c p tab paths s" and C: "cfg_ok c p tab paths"
  shows "\<not> disp_fails c s err" and "\<not> work_fails c s err"
proof -
  show "\<not> disp_fails c s err"
  proof (cases "s_disp s")
    case (DStart tree)
    then have "magic_fresh (s_magic s)" using inv by (simp add: sys_inv_def thr_inv_def disp_ok_def)
    with DStart show ?thesis using magic_init_ready [of "s_magic s"] by (auto simp: disp_fails_def)
  next
    case (DRead its)
    obtain ms where "end_magic s = Inr ms" by (rule end_magic_ok [OF inv DRead])
    with DRead show ?thesis by (simp add: disp_fails_def)
  next
    case (DScan e fd its)
    with scan_entry_ok [OF inv C DScan] show ?thesis by (simp add: disp_fails_def)
  qed (simp_all add: disp_fails_def)
  show "\<not> work_fails c s err"
  proof
    assume "work_fails c s err"
    then obtain t where t: "t \<in> set (s_thr s)" "case t of Fresh wk \<Rightarrow> start_work c s wk = Inl err
        | Busy fi wk \<Rightarrow> do_file c s fi wk = Inl err | Idle wk \<Rightarrow> False | Exited wk \<Rightarrow> False"
      by (auto simp: work_fails_def list_ex_iff)
    obtain ts us where thr: "s_thr s = ts @ t # us" using t(1) by (meson split_list)
    show False
    proof (cases t)
      case (Fresh wk)
      then have "wk = new_thread (c_lim c)" using inv by (simp add: sys_inv_def thr_inv_def thr thread_ok_def)
      moreover obtain wk' where "start_work c s (new_thread (c_lim c)) = Inr wk'" by (rule start_work_ok [OF C])
      ultimately show False using t(2) Fresh by simp
    next
      case (Busy fi wk)
      obtain wk' where "do_file c s fi wk = Inr wk'" by (rule do_file_ok [OF inv C thr [unfolded Busy]])
      with Busy show False using t(2) by simp
    qed (use t(2) in auto)
  qed
qed

lemma no_spinning: "sys_inv c p tab paths s \<Longrightarrow> cfg_ok c p tab paths \<Longrightarrow> \<not> spins c s"
  using no_failure unfolding spins_def by blast

section \<open>The invariants are kept\<close>

lemmas inv_defs = sys_inv_def thr_inv_def flow_inv_def fd_inv_def out_inv_def unreported_def

lemma closed_fds_cong: "s_closed s' = s_closed s \<Longrightarrow> s_thr s' = s_thr s \<Longrightarrow> closed_fds c s' = closed_fds c s"
  by (simp add: closed_fds_def)

lemma own_fds_record: "fi \<in> set (records s) \<Longrightarrow> fi_fd fi \<in> set (own_fds s)"
  by (simp add: own_fds_def)

lemma disp_ok_cong:
  "s_disp s' = s_disp s \<Longrightarrow> s_magic s' = s_magic s \<Longrightarrow> p_open (s_proc s') = p_open (s_proc s) \<Longrightarrow> disp_ok s' = disp_ok s"
  by (simp add: disp_ok_def split: dthread.split)

lemma inv_disp_init:
  assumes inv: "sys_inv c p tab all s" and d: "s_disp s = DStart tree" and ms: "magic_init (s_magic s) = Inr ms"
  shows "sys_inv c p tab all (s\<lparr>s_disp := DRead [FtsPre (bytes ''.'') tree], s_magic := ms\<rparr>)"
proof -
  have "magic_ready ms"
    using inv d ms magic_init_ready [of "s_magic s"] by (auto simp: inv_defs disp_ok_def)
  with inv d show ?thesis
    by (simp add: inv_defs disp_ok_def held_defs closed_fds_def tree_paths_def root_items_def)
qed

lemma inv_disp_next:
  assumes inv: "sys_inv c p tab all s" and C: "cfg_ok c p tab all" and d: "s_disp s = DRead (it # its)"
    and o: "entry_open (c_env c) (fts_visit it) (s_proc s) = (skip, None)"
  shows "sys_inv c p tab all (s\<lparr>s_disp := DRead (fts_after skip it @ its)\<rparr>)"
proof -
  have "card (dom (p_open (s_proc s))) < de_limit (c_env c)"
    using fds_in_use [OF inv] C by (simp add: cfg_ok_def d scan_fds_def disp_records_def)
  then have "sent_paths (c_env c) (fts_visit it) = []" by (rule entry_open_None [OF o])
  moreover have "skip = vcs_name (e_name (fts_visit it))" using entry_open_skip o by (metis fst_conv)
  ultimately have "searched_paths (c_env c) (fts_after skip it @ its) = searched_paths (c_env c) (it # its)"
    by (simp add: searched_paths_visit)
  with inv d show ?thesis by (simp add: inv_defs disp_ok_def held_defs closed_fds_def)
qed

lemma inv_disp_open:
  assumes inv: "sys_inv c p tab all s" and C: "cfg_ok c p tab all" and d: "s_disp s = DRead (it # its)"
    and o: "entry_open (c_env c) (fts_visit it) (s_proc s) = (skip, Some (fd, p1))"
  shows "sys_inv c p tab all
    (s\<lparr>s_disp := DScan (fts_visit it) fd (fts_after skip it @ its), s_proc := p1\<rparr>)" (is "sys_inv c p tab all ?s")
proof -
  have env: "denv_ok (c_env c)" and fin: "finite (dom (p_open (s_proc s)))"
    using C fds_in_use(1) [OF inv] by (simp_all add: cfg_ok_def)
  note O = entry_open_Some [OF o env fin]
  have skip: "skip = vcs_name (e_name (fts_visit it))" using entry_open_skip o by (metis fst_conv)
  have I: "dom (p_open (s_proc s)) = (dom tab - closed_fds c s) \<union> set (own_fds s)"
    "\<not> s_closed s" "\<not> list_ex exited (s_thr s)"
    using inv d by (auto simp: inv_defs)
  have "exited_tids (s_thr s) = {}" using I(3) by (auto simp: exited_tids_def list_ex_iff)
  then have "closed_fds c s = {}" using I(2) by (simp add: closed_fds_def)
  with I(1) O(1) have fresh: "fd \<notin> dom tab" "fd \<notin> set (own_fds s)" by auto
  have open1: "p_open p1 = (p_open (s_proc s))(fd \<mapsto> OFile (e_path (fts_visit it)))" "p_maps p1 = p_maps (s_proc s)"
    "p_names p1 = p_names (s_proc s)"
    using O(2) by simp_all
  have rec: "records ?s = records s" "own_fds ?s = fd # own_fds s" by (simp_all add: held_defs d)
  have "coming c ?s = coming c s"
    using O(3) skip by (simp add: coming_def d searched_paths_visit)
  moreover have "fi_fd fi \<noteq> fd" if "fi \<in> set (records s)" for fi using fresh that by (auto simp: own_fds_def)
  ultimately have "fd_inv c tab ?s" "out_inv c p all ?s"
    using inv fresh open1 rec by (auto simp: inv_defs list_all_iff closed_fds_cong [of ?s s])
  moreover have "thr_inv c p ?s" "flow_inv c ?s"
    using inv d open1 by (simp_all add: inv_defs disp_ok_def)
  ultimately show ?thesis by (simp add: sys_inv_def)
qed

lemma inv_disp_binary:
  assumes inv: "sys_inv c p tab all s" and C: "cfg_ok c p tab all" and d: "s_disp s = DScan e fd its"
    and sc: "scan_entry c s e fd = Inr None"
  shows "sys_inv c p tab all (s\<lparr>s_disp := DRead its, s_proc := close_fd fd (s_proc s)\<rparr>)"
    (is "sys_inv c p tab all ?s")
proof -
  have bin: "looks_binary (c_env c) (e_path e)" using scan_entry_ok [OF inv C d] sc by (simp split: if_splits)
  have rec: "records ?s = records s" "own_fds s = fd # own_fds ?s" "coming c ?s = coming c s"
    using bin by (simp_all add: held_defs d)
  have "distinct (own_fds s)" "dom tab \<inter> set (own_fds s) = {}"
    "dom (p_open (s_proc s)) = (dom tab - closed_fds c s) \<union> set (own_fds s)"
    using inv by (simp_all add: inv_defs)
  note own = this [unfolded rec(2)]
  have "fi_fd fi \<noteq> fd" if "fi \<in> set (records s)" for fi
    using own(1) that rec(1) by (auto simp: own_fds_def)
  then have "list_all (\<lambda>fi. p_open (s_proc ?s) (fi_fd fi) = Some (OFile (fi_filename fi))) (records ?s)"
    using inv rec(1) by (simp add: inv_defs list_all_iff)
  then have "fd_inv c tab ?s" using own by (auto simp: fd_inv_def closed_fds_cong [of ?s s])
  moreover have "out_inv c p all ?s" using inv rec by (simp add: inv_defs)
  moreover have "thr_inv c p ?s" "flow_inv c ?s"
    using inv d by (simp_all add: inv_defs disp_ok_def)
  ultimately show ?thesis by (simp add: sys_inv_def)
qed

lemma inv_disp_text:
  assumes inv: "sys_inv c p tab all s" and C: "cfg_ok c p tab all" and d: "s_disp s = DScan e fd its"
    and sc: "scan_entry c s e fd = Inr (Some fi)"
  shows "sys_inv c p tab all (s\<lparr>s_disp := DWrite fi its, s_proc := copy_name (fi_filename fi) (s_proc s)\<rparr>)"
    (is "sys_inv c p tab all ?s")
proof -
  have isText: "\<not> looks_binary (c_env c) (e_path e)" "fi_fd fi = fd" "fi_filename fi = e_path e"
    using scan_entry_ok [OF inv C d] sc by (auto split: if_splits)
  have cp: "p_open (copy_name name q) = p_open q" "p_maps (copy_name name q) = p_maps q" "p_names (copy_name name q) = add_mset name (p_names q)"
    for name q
    by (simp_all add: copy_name_def)
  have rec: "records ?s = fi # records s" "own_fds ?s = own_fds s" "coming c s = e_path e # coming c ?s"
    using isText by (simp_all add: held_defs d)
  have "p_open (s_proc s) fd = Some (OFile (e_path e))" using inv d by (simp add: inv_defs disp_ok_def)
  then have "fd_inv c tab ?s" using inv rec(1,2) isText by (simp add: inv_defs cp closed_fds_def)
  moreover have "out_inv c p all ?s" using inv rec(1,3) isText(3) by (simp add: inv_defs cp ac_simps)
  moreover have "thr_inv c p ?s" "flow_inv c ?s"
    using inv d by (simp_all add: inv_defs disp_ok_def)
  ultimately show ?thesis by (simp add: sys_inv_def)
qed

lemma inv_disp_write:
  assumes inv: "sys_inv c p tab all s" and C: "cfg_ok c p tab all" and d: "s_disp s = DWrite fi its"
    and room: "length (s_pipe s) < c_cap c"
  shows "sys_inv c p tab all (s\<lparr>s_disp := DRead its,
      s_pipe := (if de_write (c_env c) fi then s_pipe s @ [fi] else s_pipe s)\<rparr>)" (is "sys_inv c p tab all ?s")
proof -
  have w: "de_write (c_env c) fi" using C by (simp add: cfg_ok_def denv_ok_def)
  have rec: "mset (records ?s) = mset (records s)" "coming c ?s = coming c s" "scan_fds (s_disp ?s) = scan_fds (s_disp s)"
    using w by (simp_all add: held_defs d)
  have set_eq: "set (records ?s) = set (records s)" "length (records ?s) = length (records s)"
    using rec(1) by (metis set_mset_mset, metis size_mset)
  have own: "mset (own_fds ?s) = mset (own_fds s)"
    using rec(1,3) by (simp add: own_fds_def)
  then have "distinct (own_fds ?s) = distinct (own_fds s)" "set (own_fds ?s) = set (own_fds s)"
    by (rule mset_eq_imp_distinct_iff, metis set_mset_mset)
  then have "fd_inv c tab ?s" using inv set_eq by (simp add: inv_defs list_all_iff closed_fds_cong [of ?s s])
  moreover have "out_inv c p all ?s"
    by (rule out_inv_keep [of c p all s]) (use inv set_eq rec in \<open>simp_all add: inv_defs\<close>)
  moreover have "thr_inv c p ?s" "flow_inv c ?s"
    using inv d room by (auto simp: inv_defs disp_ok_def)
  ultimately show ?thesis by (simp add: sys_inv_def)
qed

lemma inv_disp_end:
  assumes inv: "sys_inv c p tab all s" and C: "cfg_ok c p tab all" and d: "s_disp s = DRead []"
  shows "sys_inv c p tab all (s\<lparr>s_disp := DExited, s_magic := ms, s_closed := True,
      s_proc := close_fd (snd (c_pipefd c)) (s_proc s)\<rparr>)" (is "sys_inv c p tab all ?s")
proof -
  have rec: "records ?s = records s" "own_fds ?s = own_fds s" "coming c ?s = coming c s"
    by (simp_all add: held_defs d searched_paths_def items_files_def)
  have fd: "snd (c_pipefd c) \<notin> set (own_fds s)" using inv C by (auto simp: inv_defs cfg_ok_def)
  have cl: "closed_fds c ?s = insert (snd (c_pipefd c)) (closed_fds c s)" by (simp add: closed_fds_def)
  have "fi_fd fi \<noteq> snd (c_pipefd c)" if "fi \<in> set (records s)" for fi using fd own_fds_record [OF that] by metis
  then have "fd_inv c tab ?s" using inv fd unfolding inv_defs rec cl by (auto simp: list_all_iff)
  moreover have "thr_inv c p ?s" "flow_inv c ?s" "out_inv c p all ?s"
    using inv d rec by (auto simp: inv_defs disp_ok_def)
  ultimately show ?thesis by (simp add: sys_inv_def)
qed

lemma inv_work_start:
  assumes inv: "sys_inv c p tab all s" and thr: "s_thr s = ts @ Fresh wk # us"
    and wk: "wk_ready p wk'" "wk_lim wk' = c_lim c" "wk_out wk' = s_out s" "wk_proc wk' = s_proc s"
  shows "sys_inv c p tab all (publish s wk' (ts @ Idle wk' # us))" (is "sys_inv c p tab all ?s")
proof -
  have same: "records ?s = records s" "own_fds ?s = own_fds s" "coming c ?s = coming c s" "closed_fds c ?s = closed_fds c s"
    using exited_tids_mid [of "Fresh wk" ts "Idle wk'" us]
    by (simp_all add: held_defs publish_def thr closed_fds_def)
  have "fd_inv c tab ?s" "out_inv c p all ?s"
    using inv wk(3,4) unfolding inv_defs same by (simp_all add: publish_def)
  moreover have "thr_inv c p ?s" "flow_inv c ?s"
    using inv wk disp_ok_cong [of ?s s] unfolding inv_defs thr by (auto simp: publish_def thread_ok_def)
  ultimately show ?thesis by (simp add: sys_inv_def)
qed

lemma inv_work_read:
  assumes inv: "sys_inv c p tab all s" and thr: "s_thr s = ts @ Idle wk # us" and pipe: "s_pipe s = fi # fis"
  shows "sys_inv c p tab all (s\<lparr>s_pipe := fis, s_thr := ts @ Busy fi wk # us\<rparr>)" (is "sys_inv c p tab all ?s")
proof -
  have rec: "mset (records ?s) = mset (records s)" "coming c ?s = coming c s" "scan_fds (s_disp ?s) = scan_fds (s_disp s)"
    "closed_fds c ?s = closed_fds c s"
    using exited_tids_mid [of "Idle wk" ts "Busy fi wk" us]
    by (simp_all add: records_def coming_def closed_fds_def thr pipe)
  have set_eq: "set (records ?s) = set (records s)" "length (records ?s) = length (records s)"
    using rec(1) by (metis set_mset_mset, metis size_mset)
  have own: "mset (own_fds ?s) = mset (own_fds s)"
    using rec(1,3) by (simp add: own_fds_def)
  then have "distinct (own_fds ?s) = distinct (own_fds s)" "set (own_fds ?s) = set (own_fds s)"
    by (rule mset_eq_imp_distinct_iff, metis set_mset_mset)
  then have "fd_inv c tab ?s" using inv set_eq rec(4) by (simp add: inv_defs list_all_iff)
  moreover have "out_inv c p all ?s"
    by (rule out_inv_keep [of c p all s]) (use inv set_eq rec in \<open>simp_all add: inv_defs\<close>)
  moreover have "thr_inv c p ?s" "flow_inv c ?s"
    using inv disp_ok_cong [of ?s s] unfolding inv_defs thr pipe by (auto simp: thread_ok_def)
  ultimately show ?thesis by (simp add: sys_inv_def)
qed

text \<open>Processing one file adds its report to the output.\<close>

lemma out_inv_report:
  assumes inv: "out_inv c p all s" and rec: "mset (records s) = add_mset fi (mset (records s'))"
    and rep: "report_ok (c_list_only c) p (fi_filename fi) (de_content (c_env c) (fi_filename fi)) out"
    and s': "s_out s' = s_out s @ out" "p_maps (s_proc s') = p_maps (s_proc s)"
      "p_names (s_proc s') = p_names (s_proc s) - freed_name (fi_filename fi) out" "coming c s' = coming c s"
  shows "out_inv c p all s'"
proof -
  let ?n = "fi_filename fi"
  obtain printed names where P: "mset all = mset printed + mset (unreported c s)"
    "reported_with c p printed (s_out s) names" "p_names (s_proc s) = mset (map fi_filename (records s)) + names"
    using inv by (auto simp: out_inv_def)
  have "mset all = mset (printed @ [?n]) + mset (unreported c s')"
    using P(1) rec s'(4) by (simp add: unreported_def)
  moreover have "reported_with c p (printed @ [?n]) (s_out s') (names + ({#?n#} - freed_name ?n out))"
    unfolding s'(1) by (rule reports_with_append [OF P(2) rep])
  moreover have "p_names (s_proc s') = mset (map fi_filename (records s')) + (names + ({#?n#} - freed_name ?n out))"
    using P(3) rec s'(3) by (simp add: freed_name_def)
  ultimately show ?thesis using inv s'(2) unfolding out_inv_def by metis
qed

lemma inv_work_file:
  assumes inv: "sys_inv c p tab all s" and thr: "s_thr s = ts @ Busy fi wk # us"
    and did: "worker_did p fi out (sharing s wk) wk'"
    and rep: "report_ok (c_list_only c) p (fi_filename fi) (de_content (c_env c) (fi_filename fi)) out"
  shows "sys_inv c p tab all (publish s wk' (ts @ Idle wk' # us))" (is "sys_inv c p tab all ?s")
proof -
  note d = did [unfolded worker_did_def wk_sharing]
  have rec: "mset (records s) = add_mset fi (mset (records ?s))" "coming c ?s = coming c s"
    "scan_fds (s_disp ?s) = scan_fds (s_disp s)" "closed_fds c ?s = closed_fds c s"
    using exited_tids_mid [of "Busy fi wk" ts "Idle wk'" us]
    by (simp_all add: records_def coming_def closed_fds_def thr publish_def)
  have set_eq: "set (records s) = insert fi (set (records ?s))" "length (records s) = Suc (length (records ?s))"
    using rec(1) by (metis set_mset_add_mset_insert set_mset_mset, metis size_add_mset size_mset)
  have own: "mset (own_fds s) = mset (fi_fd fi # own_fds ?s)"
    using rec(1,3) by (simp add: own_fds_def)
  then have "distinct (own_fds s) = distinct (fi_fd fi # own_fds ?s)" "set (own_fds s) = set (fi_fd fi # own_fds ?s)"
    by (rule mset_eq_imp_distinct_iff, metis set_mset_mset)
  then have own': "fi_fd fi \<notin> set (own_fds ?s)" "distinct (own_fds ?s)" "set (own_fds s) = insert (fi_fd fi) (set (own_fds ?s))"
    "fi_fd fi \<notin> dom tab"
    using inv by (auto simp: inv_defs)
  have op: "p_open (s_proc ?s) = (p_open (s_proc s))(fi_fd fi := None)" using d by (simp add: publish_def)
  have "fi_fd fi' \<noteq> fi_fd fi" if "fi' \<in> set (records ?s)" for fi'
    using own'(1) own_fds_record [OF that] by metis
  then have "fd_inv c tab ?s"
    using inv own' set_eq(1) unfolding inv_defs rec op by (auto simp: list_all_iff)
  moreover have "out_inv c p all ?s"
    by (rule out_inv_report [OF _ rec(1) rep]) (use inv d rec(2) in \<open>simp_all add: sys_inv_def publish_def\<close>)
  moreover have "thr_inv c p ?s" "flow_inv c ?s"
    using inv d own'(1,4) unfolding inv_defs thr
    by (auto simp: publish_def disp_ok_def thread_ok_def own_fds_def scan_fds_def split: dthread.splits)
  ultimately show ?thesis by (simp add: sys_inv_def)
qed

lemma inv_work_eof:
  assumes inv: "sys_inv c p tab all s" and C: "cfg_ok c p tab all" and thr: "s_thr s = ts @ Idle wk # us"
    and eof: "s_pipe s = []" "s_closed s"
    and wk': "wk' = worker_finish (snd (c_result c ! length ts)) (sharing s wk)"
  shows "sys_inv c p tab all (publish s wk' (ts @ Exited wk' # us))" (is "sys_inv c p tab all ?s")
proof -
  let ?fd = "snd (c_result c ! length ts)"
  have same: "records ?s = records s" "own_fds ?s = own_fds s" "coming c ?s = coming c s"
    "closed_fds c ?s = insert ?fd (closed_fds c s)"
    using exited_tids_mid [of "Idle wk" ts "Exited wk'" us]
    by (simp_all add: held_defs publish_def thr closed_fds_def)
  have "length ts < length (c_result c)" using inv C thr by (auto simp: inv_defs cfg_ok_def)
  then have "?fd \<in> dom tab" using C by (force simp: cfg_ok_def)
  then have fd: "?fd \<notin> set (own_fds s)" using inv by (auto simp: inv_defs)
  have f: "wk_out wk' = s_out s" "p_open (wk_proc wk') = (p_open (s_proc s))(?fd := None)"
    "p_maps (wk_proc wk') = p_maps (s_proc s)" "p_names (wk_proc wk') = p_names (s_proc s)"
    unfolding wk' by (simp_all add: worker_finish_frees)
  have "fi_fd fi \<noteq> ?fd" if "fi \<in> set (records s)" for fi using fd own_fds_record [OF that] by metis
  then have "fd_inv c tab ?s"
    using inv fd f(2) unfolding inv_defs same by (auto simp: publish_def list_all_iff)
  moreover have "out_inv c p all ?s" using inv f unfolding inv_defs same by (simp add: publish_def)
  moreover have "s_disp s = DExited" using inv eof(2) by (simp add: inv_defs)
  then have "thr_inv c p ?s" "flow_inv c ?s"
    using inv eof unfolding inv_defs thr by (auto simp: publish_def disp_ok_def thread_ok_def)
  ultimately show ?thesis by (simp add: sys_inv_def)
qed

lemma sys_step_inv:
  assumes "sys_step c s s'" and C: "cfg_ok c p tab all" and inv: "sys_inv c p tab all s"
  shows "sys_inv c p tab all s'"
  using assms(1)
proof (cases rule: sys_step.cases)
  case (work_start ts wk us wk')
  have "wk = new_thread (c_lim c)" using inv work_start(3) by (simp add: inv_defs thread_ok_def)
  then show ?thesis using start_work_ok [OF C, of s] inv_work_start [OF inv work_start(3)] work_start(1,4) by (metis sum.inject(2))
next
  case (work_file ts fi wk us wk')
  then show ?thesis using do_file_ok [OF inv C work_file(3)] inv_work_file [OF inv work_file(3)] by (metis sum.inject(2))
next
  case (disp_write fi its)
  then show ?thesis using inv_disp_write [OF inv C] by blast
next
  case (thread_fails err)
  then show ?thesis using no_failure [OF inv C] by blast
next
  case thread_spins
  then show ?thesis using inv by simp
qed (auto intro: inv_disp_init inv_disp_next inv_disp_open inv_disp_binary inv_disp_text inv_disp_write inv_disp_end
      inv_work_read inv_work_eof simp: inv C)

lemma sys_steps_inv:
  assumes "(sys_step c)\<^sup>*\<^sup>* s s'" and "cfg_ok c p tab all" and "sys_inv c p tab all s"
  shows "sys_inv c p tab all s'"
  using assms by (induction rule: rtranclp_induct) (auto intro: sys_step_inv)

text \<open>With the invariant every step brings the end nearer.\<close>

lemma sys_step_decreases:
  assumes "sys_step c s s'" and "cfg_ok c p tab all" and "sys_inv c p tab all s"
  shows "work_left s' < work_left s"
  using work_left_decreases [OF assms(1)] no_spinning [OF assms(3,2)] by blast

lemma sys_steps_bound:
  assumes "((sys_step c) ^^ n) s s'" and C: "cfg_ok c p tab all" and inv: "sys_inv c p tab all s"
  shows "n + work_left s' \<le> work_left s"
  using assms(1)
proof (induction n arbitrary: s')
  case (Suc n)
  then obtain s1 where s1: "((sys_step c) ^^ n) s s1" "sys_step c s1 s'" by auto
  have "sys_inv c p tab all s1" using sys_steps_inv [OF relpowp_imp_rtranclp [OF s1(1)] C inv] .
  then show ?case using Suc.IH [OF s1(1)] sys_step_decreases [OF s1(2) C] by fastforce
qed simp

section \<open>Progress\<close>

lemma worker_can_step:
  assumes inv: "sys_inv c p tab all s" and C: "cfg_ok c p tab all"
    and thr: "s_thr s = ts @ t # us" "\<not> exited t" and "s_pipe s \<noteq> [] \<or> s_closed s"
  shows "\<exists>s'. sys_step c s s'"
proof (cases t)
  case (Fresh wk)
  moreover from this have "wk = new_thread (c_lim c)" using inv thr(1) by (simp add: inv_defs thread_ok_def)
  ultimately show ?thesis using inv thr(1) start_work_ok [OF C, of s] work_start [of s ts wk us c]
    by (metis sys_inv_def thr_inv_def)
next
  case (Idle wk)
  have alive: "s_died s = None" using inv by (simp add: inv_defs)
  have thr': "s_thr s = ts @ Idle wk # us" using thr(1) Idle by simp
  show ?thesis
  proof (cases "s_pipe s")
    case Nil
    then show ?thesis using assms(5) work_eof [OF alive thr' Nil _ refl] by blast
  next
    case (Cons fi fis)
    then show ?thesis using work_read [OF alive thr' Cons] by blast
  qed
next
  case (Busy fi wk)
  have alive: "s_died s = None" using inv by (simp add: inv_defs)
  have thr': "s_thr s = ts @ Busy fi wk # us" using thr(1) Busy by simp
  obtain wk' where "do_file c s fi wk = Inr wk'" by (rule do_file_ok [OF inv C thr'])
  then show ?thesis using work_file [OF alive thr'] by blast
qed (use thr(2) in simp)

lemma sys_progress:
  assumes inv: "sys_inv c p tab all s" and C: "cfg_ok c p tab all" and "\<not> finished s"
  shows "\<exists>s'. sys_step c s s'"
proof -
  have alive: "s_died s = None" and len: "length (s_thr s) = NCPU" using inv by (simp_all add: inv_defs)
  then obtain t0 us0 where thr0: "s_thr s = [] @ t0 # us0" by (cases "s_thr s") (auto simp: NCPU_def)
  show ?thesis
  proof (cases "s_disp s")
    case (DStart tree)
    then obtain ms where "magic_init (s_magic s) = Inr ms"
      using inv magic_init_ready [of "s_magic s"] by (auto simp: inv_defs disp_ok_def)
    then show ?thesis using disp_init [OF alive DStart] by blast
  next
    case (DRead its)
    show ?thesis
    proof (cases its)
      case Nil
      obtain ms where "end_magic s = Inr ms" by (rule end_magic_ok [OF inv DRead])
      then show ?thesis using disp_end [OF alive, of ms c] DRead Nil by auto
    next
      case (Cons it its')
      obtain skip r where o: "entry_open (c_env c) (fts_visit it) (s_proc s) = (skip, r)" by fastforce
      show ?thesis
        using disp_next [OF alive DRead [unfolded Cons], of c skip] disp_open [OF alive DRead [unfolded Cons], of c skip] o
        by (cases r) auto
    qed
  next
    case (DScan e fd its)
    show ?thesis
      using scan_entry_ok [OF inv C DScan] disp_binary [OF alive DScan] disp_text [OF alive DScan]
      by (cases "looks_binary (c_env c) (e_path e)") auto
  next
    case (DWrite fi its)
    show ?thesis
    proof (cases "length (s_pipe s) < c_cap c")
      case False
      then have "s_pipe s \<noteq> []" using C by (auto simp: cfg_ok_def)
      moreover have "\<not> exited t0" using inv DWrite thr0 by (simp add: inv_defs)
      ultimately show ?thesis using worker_can_step [OF inv C thr0] by blast
    qed (use disp_write [OF alive DWrite] in blast)
  next
    case DExited
    then obtain t where "t \<in> set (s_thr s)" "\<not> exited t" using assms(3) alive by (auto simp: finished_def list_all_iff)
    moreover from this obtain ts us where "s_thr s = ts @ t # us" by (meson split_list)
    moreover have "s_closed s" using inv DExited by (simp add: inv_defs)
    ultimately show ?thesis using worker_can_step [OF inv C] by blast
  qed
qed

text \<open>From a state with the invariant some run reaches the end.\<close>

lemma sys_reaches_end:
  assumes "sys_inv c p tab all s" and C: "cfg_ok c p tab all"
  shows "\<exists>s'. (sys_step c)\<^sup>*\<^sup>* s s' \<and> finished s'"
  using assms(1)
proof (induction "work_left s" arbitrary: s rule: less_induct)
  case less
  show ?case
  proof (cases "finished s")
    case False
    then obtain s1 where s1: "sys_step c s s1" using sys_progress [OF less.prems C] by blast
    then obtain s' where "(sys_step c)\<^sup>*\<^sup>* s1 s'" "finished s'"
      using less.hyps [OF sys_step_decreases [OF s1 C less.prems] sys_step_inv [OF s1 C less.prems]] by blast
    with s1 show ?thesis by (meson converse_rtranclp_into_rtranclp)
  qed blast
qed

section \<open>Start and end\<close>

lemma test_procon_inv:
  assumes "cfg_ok c p (p_open pr) (tree_paths c tree)" and "magic_fresh ms" and "p_maps pr = 0" and "p_names pr = {#}"
  shows "sys_inv c p (p_open pr) (tree_paths c tree) (test_procon c tree ms pr)"
proof -
  let ?s = "test_procon c tree ms pr"
  have "exited_tids (s_thr ?s) = {}"
    by (auto simp: exited_tids_def test_procon_def nth_Cons' split: if_splits)
  then have "closed_fds c ?s = {}" by (simp add: closed_fds_def test_procon_def)
  with assms show ?thesis
    by (simp add: inv_defs) (simp add: test_procon_def disp_ok_def thread_ok_def held_defs NCPU_def)
qed

lemma finished_state:
  assumes inv: "sys_inv c p tab all s" and C: "cfg_ok c p tab all" and fin: "finished s"
  shows "\<exists>paths. mset paths = mset all \<and> reported_with c p paths (s_out s) (p_names (s_proc s))"
    and "dom (p_open (s_proc s)) = dom tab - insert (snd (c_pipefd c)) (snd ` set (c_result c))"
    and "p_maps (s_proc s) = 0"
proof -
  have f: "s_disp s = DExited" "list_all exited (s_thr s)" using fin by (simp_all add: finished_def)
  have I: "length (s_thr s) = NCPU" "s_closed s" "s_disp s \<noteq> DExited \<or> s_pipe s \<noteq> [] \<longrightarrow> \<not> list_ex exited (s_thr s)"
    using inv f(1) by (simp_all add: inv_defs)
  have "list_ex exited (s_thr s)" using f(2) I(1) by (cases "s_thr s") (auto simp: NCPU_def)
  with I(3) have pipe: "s_pipe s = []" by blast
  have "busy ts = []" if "list_all exited ts" for ts
    using that by (induction ts) (auto simp: busy_def exited_def split: wthread.splits)
  with f pipe have rec: "records s = []" "own_fds s = []" "coming c s = []" by (simp_all add: held_defs)
  have "exited_tids (s_thr s) = {0..<length (c_result c)}"
    using f(2) I(1) C by (auto simp: exited_tids_def list_all_length cfg_ok_def)
  moreover have "snd ` set (c_result c) = (\<lambda>i. snd (c_result c ! i)) ` {0..<length (c_result c)}"
    using arg_cong [OF nth_image [of "length (c_result c)" "c_result c"], of "(`) snd"] by (simp add: image_image)
  ultimately have "closed_fds c s = insert (snd (c_pipefd c)) (snd ` set (c_result c))"
    using I(2) by (simp add: closed_fds_def)
  then show "dom (p_open (s_proc s)) = dom tab - insert (snd (c_pipefd c)) (snd ` set (c_result c))"
    using inv rec by (simp add: inv_defs)
  show "\<exists>paths. mset paths = mset all \<and> reported_with c p paths (s_out s) (p_names (s_proc s))" "p_maps (s_proc s) = 0"
    using inv rec by (auto simp: inv_defs)
qed

end
