(* ===== verification/Program.thy ===== *)
theory Program
  imports System_Inv
begin

text \<open>
  The rest of \<open>src/src/main.c\<close>: \<open>sf_init\<close>, \<open>sf_exit\<close>, \<open>sf_check_buffer\<close> and \<open>main\<close>.

  \<open>main_run\<close> relates the command line, the directory tree and the parameters of the environment to
  the ways the program can end: with an error, with a return from \<open>main\<close> in a final state, or not at all,
  in a call that never returns.
\<close>

section \<open>Pipes\<close>

text \<open>\<open>pipes i\<close> is the outcome of the \<open>i\<close>-th call of \<open>pipe\<close>: the read end and the write end.\<close>

definition pipe_call :: "(nat \<Rightarrow> (int \<times> int) option) \<Rightarrow> nat \<Rightarrow> proc \<Rightarrow> ((int \<times> int) \<times> proc) res" where
  "pipe_call pipes i p =
     (case pipes i of
        None \<Rightarrow> Inl (ExitWith 1)
      | Some (r, w) \<Rightarrow> Inr ((r, w), p\<lparr>p_open := (p_open p)(r \<mapsto> OPipe, w \<mapsto> OPipe)\<rparr>))"

fun result_pipes :: "(nat \<Rightarrow> (int \<times> int) option) \<Rightarrow> nat list \<Rightarrow> proc \<Rightarrow> ((int \<times> int) list \<times> proc) res" where
  "result_pipes pipes [] p = Inr ([], p)"
| "result_pipes pipes (i # is) p =
     rbind (pipe_call pipes (Suc i) p) (\<lambda>(fds, p1).
     rbind (result_pipes pipes is p1) (\<lambda>(ps, p2). Inr (fds # ps, p2)))"

definition sf_init ::
  "(nat \<Rightarrow> (int \<times> int) option) \<Rightarrow> proc \<Rightarrow> ((int \<times> int) \<times> (int \<times> int) list \<times> proc) res" where
  "sf_init pipes p =
     rbind (pipe_call pipes 0 p) (\<lambda>(pipefd, p1).
     rbind (result_pipes pipes [0..<NCPU] p1) (\<lambda>(result, p2). Inr (pipefd, result, p2)))"

definition sf_exit :: "int \<times> int \<Rightarrow> proc \<Rightarrow> proc" where
  "sf_exit pipefd p = close_fd (fst pipefd) p"

lemma sf_exit_simps [simp]:
  "dom (p_open (sf_exit pipefd p)) = dom (p_open p) - {fst pipefd}" "p_maps (sf_exit pipefd p) = p_maps p"
  "p_names (sf_exit pipefd p) = p_names p"
  by (simp_all add: sf_exit_def close_fd_def)

section \<open>The program\<close>

text \<open>The command line, the tree and the environment.\<close>

record menv =
  me_argv :: "byte list list"
  me_getopt :: "getopt_result list"
  me_optind :: nat
  me_opt :: cli_options                         \<comment> \<open>\<open>opt\<close> before \<open>main\<close>\<close>
  me_pipes :: "nat \<Rightarrow> (int \<times> int) option"
  me_tree :: fnode
  me_magic :: magic_state                       \<comment> \<open>\<open>tr\<close> and the heap before \<open>main\<close>\<close>
  me_os :: os
  me_env :: denv
  me_memalign :: "nat \<Rightarrow> nat list option"
  me_lim :: nat
  me_cap :: nat

definition std_proc :: proc where
  "std_proc = \<lparr>p_open = [0 \<mapsto> OStd, 1 \<mapsto> OStd, 2 \<mapsto> OStd], p_maps = 0, p_names = {#}\<rparr>"

definition main_cfg :: "menv \<Rightarrow> cli_options \<Rightarrow> int \<times> int \<Rightarrow> (int \<times> int) list \<Rightarrow> cfg" where
  "main_cfg M opt pipefd result =
     \<lparr>c_opt = opt, c_pipefd = pipefd, c_result = result, c_os = me_os M, c_env = me_env M,
      c_memalign = me_memalign M, c_lim = me_lim M, c_cap = me_cap M\<rparr>"

text \<open>\<open>main\<close> up to the creation of the threads.\<close>

definition main_start :: "menv \<Rightarrow> (cfg \<times> sys) res" where
  "main_start M =
     rbind (parse_options (me_argv M) (me_getopt M) (me_optind M) (me_opt M)) (\<lambda>opt.
     rbind (sf_init (me_pipes M) std_proc) (\<lambda>(pipefd, result, p).
     let c = main_cfg M opt pipefd result in Inr (c, test_procon c (me_tree M) (me_magic M) p)))"

text \<open>The ways a run can go: an error, a thread in a call that never returns, a return from \<open>main\<close>.\<close>

datatype main_end = MainError cerror | MainHangs | MainReturn int sys

inductive main_run :: "menv \<Rightarrow> main_end \<Rightarrow> bool" for M where
  main_stops: "main_start M = Inl err \<Longrightarrow> main_run M (MainError err)"
| main_dies: "main_start M = Inr (c, s0) \<Longrightarrow> (sys_step c)\<^sup>*\<^sup>* s0 s \<Longrightarrow> s_died s = Some err \<Longrightarrow>
    main_run M (MainError err)"
| main_hangs: "main_start M = Inr (c, s0) \<Longrightarrow> (sys_step c)\<^sup>*\<^sup>* s0 s \<Longrightarrow> s_died s = None \<Longrightarrow> spins c s \<Longrightarrow>
    main_run M MainHangs"
| main_returns: "main_start M = Inr (c, s0) \<Longrightarrow> (sys_step c)\<^sup>*\<^sup>* s0 s \<Longrightarrow> finished s \<Longrightarrow>
    main_run M (MainReturn 0 (s\<lparr>s_proc := sf_exit (c_pipefd c) (s_proc s)\<rparr>))"

inductive_cases main_runE: "main_run M r"

section \<open>The poll loop\<close>

text \<open>
  \<open>sf_check_buffer\<close>, which \<open>test_procon\<close> has commented out.  The outcomes of \<open>poll\<close> are a parameter; of
  a ready descriptor they hold the events on \<open>fdset[0]\<close> and what \<open>read\<close> delivers (\<open>None\<close> on failure).
  The state is what was printed and whether the buffer of \<open>stdout\<close> is an array that no longer exists:
  \<open>setvbuf\<close> gives it a local array of the block.
\<close>

record poll_events =
  pe_in :: bool
  pe_hup :: bool
  pe_data :: "byte list option"

datatype poll_result = PollReady poll_events | PollTimeout | PollFail

record chk =
  ck_out :: "byte list list"
  ck_dangling :: bool

definition RESULT_SIZE :: nat where
  "RESULT_SIZE = 256"

definition show_result :: "byte list option \<Rightarrow> chk \<Rightarrow> chk res" where
  "show_result data st =
     (let n = (case data of None \<Rightarrow> [] | Some bs \<Rightarrow> take RESULT_SIZE bs);
          result = n @ replicate (RESULT_SIZE - length n) 0
      in
      rbind (c_string (Some result)) (\<lambda>s.
      Inr (st\<lparr>ck_out := ck_out st @ [91 # dec_digits (length s) @ 93 # s @ [newline]], ck_dangling := True\<rparr>)))"

fun sf_check_buffer :: "poll_result list \<Rightarrow> chk \<Rightarrow> (int \<times> chk) res" where
  "sf_check_buffer [] st = Inl NoReturn"
| "sf_check_buffer (PollFail # rs) st = Inr (- 1, st)"
| "sf_check_buffer (PollTimeout # rs) st = sf_check_buffer rs st"
| "sf_check_buffer (PollReady ev # rs) st =
     (if pe_in ev \<and> pe_data ev = Some [] then Inr (0, st)
      else
        rbind (if pe_in ev then show_result (pe_data ev) st else Inr st) (\<lambda>st1.
        if pe_hup ev then Inr (- 1, st1) else sf_check_buffer rs st1))"

section \<open>The start of a run\<close>

text \<open>\<open>pipe\<close> succeeds and delivers descriptors that were not in use.\<close>

definition pipes_ok :: "(nat \<Rightarrow> (int \<times> int) option) \<Rightarrow> bool" where
  "pipes_ok pipes =
     (case (pipes 0, pipes 1, pipes 2) of
        (Some (r0, w0), Some (r1, w1), Some (r2, w2)) \<Rightarrow> distinct [0, 1, 2, r0, w0, r1, w1, r2, w2]
      | _ \<Rightarrow> False)"

lemma sf_init_ok:
  assumes "pipes_ok pipes"
  obtains r0 w0 r1 w1 r2 w2 p where "sf_init pipes std_proc = Inr ((r0, w0), [(r1, w1), (r2, w2)], p)"
    and "dom (p_open p) = {0, 1, 2, r0, w0, r1, w1, r2, w2}" and "p_maps p = 0" and "p_names p = {#}"
    and "distinct [0, 1, 2, r0, w0, r1, w1, r2, w2]" and "pipes 1 = Some (r1, w1)" and "pipes 2 = Some (r2, w2)"
proof -
  have "pipes 0 \<noteq> None" "pipes 1 \<noteq> None" "pipes 2 \<noteq> None"
    using assms by (auto simp: pipes_ok_def split: option.splits)
  then obtain r0 w0 r1 w1 r2 w2 where P: "pipes 0 = Some (r0, w0)" "pipes 1 = Some (r1, w1)"
    "pipes 2 = Some (r2, w2)" by auto
  have P4: "distinct [0, 1, 2, r0, w0, r1, w1, r2, w2]"
    using assms unfolding pipes_ok_def P by (simp only: prod.case option.case)
  let ?p = "std_proc\<lparr>p_open := (p_open std_proc)(r0 \<mapsto> OPipe, w0 \<mapsto> OPipe, r1 \<mapsto> OPipe, w1 \<mapsto> OPipe,
      r2 \<mapsto> OPipe, w2 \<mapsto> OPipe)\<rparr>"
  have "sf_init pipes std_proc = Inr ((r0, w0), [(r1, w1), (r2, w2)], ?p)"
    using P by (simp add: sf_init_def pipe_call_def NCPU_def numeral_2_eq_2)
  moreover have "dom (p_open ?p) = {0, 1, 2, r0, w0, r1, w1, r2, w2}" by (auto simp: std_proc_def)
  moreover have "p_maps ?p = 0" "p_names ?p = {#}" by (simp_all add: std_proc_def)
  ultimately show thesis by (rule that [OF _ _ _ _ P4 P(2,3)])
qed

text \<open>
  What the program is given: a command line that names a nonempty pattern; an environment that behaves
  as documented (\<open>memalign_ok\<close>, \<open>denv_ok\<close>, \<open>pipes_ok\<close>); files that the kernel serves and the worker reports faithfully
  (\<open>paths_ok\<close> over the files the dispatcher sends, that is \<open>file_ok\<close> of each: a condition on their sizes and
  contents); and more descriptors than the nine of the start, one for every record the pipe can hold
  and one for every worker.
\<close>

definition BASE_FDS :: nat where
  "BASE_FDS = 9"

definition main_ok :: "menv \<Rightarrow> cli_options \<Rightarrow> byte list \<Rightarrow> bool" where
  "main_ok M opt p \<longleftrightarrow>
     parse_options (me_argv M) (me_getopt M) (me_optind M) (me_opt M) = Inr opt \<and>
     o_search_pattern opt = Some p \<and> o_search_patlen opt = int (length p) \<and> length p \<le> INT_MAX \<and> p \<noteq> [] \<and>
     memalign_ok (me_memalign M) (length p) \<and> DEFAULT_SIZE \<le> me_lim M \<and> me_lim M < SIZE_MOD \<and> 0 < me_cap M \<and>
     denv_ok (me_env M) \<and> pipes_ok (me_pipes M) \<and> magic_fresh (me_magic M) \<and>
     paths_ok (me_os M) (o_list_matching_files opt) (me_lim M) p (de_content (me_env M))
       (searched_paths (me_env M) (root_items (me_tree M))) \<and>
     BASE_FDS + me_cap M + NCPU < de_limit (me_env M)"

lemma main_start_ok:
  assumes "main_ok M opt p"
  obtains c s0 tab where "main_start M = Inr (c, s0)" and "cfg_ok c p tab (tree_paths c (me_tree M))"
    and "sys_inv c p tab (tree_paths c (me_tree M)) s0" and "c_opt c = opt" and "c_env c = me_env M" and "c_cap c = me_cap M"
    and "\<exists>r1 w1 r2 w2. me_pipes M 1 = Some (r1, w1) \<and> me_pipes M 2 = Some (r2, w2) \<and> distinct [0, 1, 2, r1, r2] \<and>
      dom tab - insert (snd (c_pipefd c)) (snd ` set (c_result c)) - {fst (c_pipefd c)} = {0, 1, 2, r1, r2}"
    and "card (dom tab) = BASE_FDS"
proof -
  note A = assms [unfolded main_ok_def]
  then have "pipes_ok (me_pipes M)" by blast
  then obtain r0 w0 r1 w1 r2 w2 pr where P: "sf_init (me_pipes M) std_proc = Inr ((r0, w0), [(r1, w1), (r2, w2)], pr)"
    "dom (p_open pr) = {0, 1, 2, r0, w0, r1, w1, r2, w2}" "p_maps pr = 0" "p_names pr = {#}"
    "distinct [0, 1, 2, r0, w0, r1, w1, r2, w2]" "me_pipes M 1 = Some (r1, w1)" "me_pipes M 2 = Some (r2, w2)"
    by (rule sf_init_ok)
  let ?c = "main_cfg M opt (r0, w0) [(r1, w1), (r2, w2)]"
  have c: "c_opt ?c = opt" "c_env ?c = me_env M" "c_cap ?c = me_cap M" "c_pipefd ?c = (r0, w0)"
    "c_result ?c = [(r1, w1), (r2, w2)]" "c_lim ?c = me_lim M" "c_os ?c = me_os M" "c_memalign ?c = me_memalign M"
    by (simp_all add: main_cfg_def)
  have start: "main_start M = Inr (?c, test_procon ?c (me_tree M) (me_magic M) pr)"
    using A P(1) by (simp add: main_start_def Let_def)
  have card: "card (dom (p_open pr)) = BASE_FDS" unfolding P(2) using P(5) by (simp add: BASE_FDS_def)
  have cfg: "cfg_ok ?c p (p_open pr) (tree_paths ?c (me_tree M))"
    using A card unfolding cfg_ok_def c tree_paths_def P(2) by (simp add: NCPU_def)
  then have inv: "sys_inv ?c p (p_open pr) (tree_paths ?c (me_tree M)) (test_procon ?c (me_tree M) (me_magic M) pr)"
    using A P(3,4) by (intro test_procon_inv) simp_all
  have "dom (p_open pr) - insert (snd (c_pipefd ?c)) (snd ` set (c_result ?c)) - {fst (c_pipefd ?c)} =
      {0, 1, 2, r1, r2}" and "distinct [0, 1, 2, r1, r2]"
    using P(5) unfolding c P(2) by auto
  with P(6,7) have "\<exists>r1 w1 r2 w2. me_pipes M 1 = Some (r1, w1) \<and> me_pipes M 2 = Some (r2, w2) \<and>
      distinct [0, 1, 2, r1, r2] \<and>
      dom (p_open pr) - insert (snd (c_pipefd ?c)) (snd ` set (c_result ?c)) - {fst (c_pipefd ?c)} = {0, 1, 2, r1, r2}"
    by blast
  then show thesis by (rule that [OF start cfg inv c(1-3) _ card])
qed

lemma main_start_work:
  assumes "main_start M = Inr (c, s0)"
  shows "work_left s0 = 7 + node_work (me_tree M)"
  using assms
  by (auto simp: main_start_def res_iffs Let_def test_procon_def work_left_def disp_work_def thread_work_def)

lemma main_reachable:
  assumes "main_ok M opt p" and "main_start M = Inr (c, s0)" and "(sys_step c)\<^sup>*\<^sup>* s0 s"
  obtains tab where "cfg_ok c p tab (tree_paths c (me_tree M))" and "sys_inv c p tab (tree_paths c (me_tree M)) s"
    and "card (dom tab) = BASE_FDS" and "c_cap c = me_cap M"
proof -
  obtain c' s0' tab where S: "main_start M = Inr (c', s0')" "cfg_ok c' p tab (tree_paths c' (me_tree M))"
    "sys_inv c' p tab (tree_paths c' (me_tree M)) s0'" "card (dom tab) = BASE_FDS" "c_cap c' = me_cap M"
    by (rule main_start_ok [OF assms(1)])
  moreover have "c' = c" "s0' = s0" using S(1) assms(2) by simp_all
  ultimately show thesis using that sys_steps_inv [OF assms(3)] by blast
qed

section \<open>Running out of descriptors\<close>

definition opened :: "cfg \<Rightarrow> byte list \<Rightarrow> proc \<Rightarrow> fileinfo \<times> proc" where
  "opened c path p =
     (let fd = de_fd (c_env c) (dom (p_open p))
      in (\<lparr>fi_fd = fd, fi_filename = path, fi_pmap = None, fi_size = 0\<rparr>,
          copy_name path (p\<lparr>p_open := (p_open p)(fd \<mapsto> OFile path)\<rparr>)))"

text \<open>The dispatcher opens, tests and sends one text file.\<close>

lemma dispatcher_sends_one:
  assumes s: "s_died s = None" "s_disp s = DRead (FtsPre path (FReg a) # its)" "magic_ready (s_magic s)"
    and env: "denv_ok (c_env c)" "card (dom (p_open (s_proc s))) < de_limit (c_env c)" "length (s_pipe s) < c_cap c"
    and path: "\<not> vcs_name a" "de_can_open (c_env c) path" "\<not> looks_binary (c_env c) path"
  shows "(sys_step c)\<^sup>*\<^sup>* s (s\<lparr>s_proc := snd (opened c path (s_proc s)), s_disp := DRead its,
    s_pipe := s_pipe s @ [fst (opened c path (s_proc s))]\<rparr>)"
proof -
  let ?fd = "de_fd (c_env c) (dom (p_open (s_proc s)))" and ?e = "entry a path True"
  let ?p = "(s_proc s)\<lparr>p_open := (p_open (s_proc s))(?fd \<mapsto> OFile path)\<rparr>"
  let ?fi = "\<lparr>fi_fd = ?fd, fi_filename = path, fi_pmap = None, fi_size = 0\<rparr>"
  have o: "entry_open (c_env c) ?e (s_proc s) = (False, Some (?fd, ?p))"
    using path(1,2) env(2) by (simp add: entry_open_def entry_def vcs_name_def open_file_def Let_def)
  let ?s1 = "s\<lparr>s_disp := DScan ?e ?fd its, s_proc := ?p\<rparr>"
  have 1: "sys_step c s ?s1" using disp_open [OF s(1,2), of c False ?fd ?p] o by simp
  have "scan_entry c ?s1 ?e ?fd = Inr (Some ?fi)"
    using scan_file_ok [OF s(3) env(1)] path(3) by (simp add: scan_entry_def entry_def)
  then have 2: "sys_step c ?s1 (?s1\<lparr>s_disp := DWrite ?fi its, s_proc := copy_name path ?p\<rparr>)" (is "sys_step c _ ?s2")
    using disp_text [of ?s1 ?e ?fd its c ?fi] s(1) by simp
  have "sys_step c ?s2 (s\<lparr>s_proc := snd (opened c path (s_proc s)), s_disp := DRead its,
      s_pipe := s_pipe s @ [fst (opened c path (s_proc s))]\<rparr>)"
    using disp_write [of ?s2 ?fi its c] s(1) env(1,3) by (simp add: denv_ok_def opened_def Let_def)
  with 1 2 show ?thesis by (meson rtranclp.rtrancl_into_rtrancl rtranclp.rtrancl_refl)
qed

lemma descriptors_run_out:
  assumes s0: "s_died s0 = None" "s_disp s0 = DStart (FDir n [FReg a, FReg b])" "s_pipe s0 = []"
    and ms: "magic_fresh (s_magic s0)" and env: "denv_ok (c_env c)" and cap: "0 < c_cap c"
    and fds: "finite (dom (p_open (s_proc s0)))" "de_limit (c_env c) = Suc (card (dom (p_open (s_proc s0))))"
    and names: "\<not> vcs_name n" "\<not> vcs_name a" "\<not> vcs_name b"
    and pa: "pa = child_path (bytes ''.'') a" "de_can_open (c_env c) pa" "\<not> looks_binary (c_env c) pa"
  shows "\<exists>s. (sys_step c)\<^sup>*\<^sup>* s0 s \<and> s_died s = None \<and> s_disp s = DExited \<and> s_out s = s_out s0 \<and>
    s_thr s = s_thr s0 \<and> map fi_filename (s_pipe s) = [pa]"
proof -
  let ?dot = "bytes ''.''"
  let ?pb = "FtsPre (child_path ?dot b) (FReg b)" and ?post = "FtsPost ?dot n"
  obtain m where m: "magic_init (s_magic s0) = Inr m" "magic_ready m" using magic_init_ready [OF ms] by blast
  let ?s1 = "s0\<lparr>s_disp := DRead [FtsPre ?dot (FDir n [FReg a, FReg b])], s_magic := m\<rparr>"
  have 1: "sys_step c s0 ?s1" using s0 m by (intro disp_init)
  have dir: "entry_open (c_env c) (entry n ?dot False) pr = (False, None)" for pr
    using names(1) by (simp add: entry_open_def entry_def vcs_name_def)
  let ?s2 = "?s1\<lparr>s_disp := DRead [FtsPre pa (FReg a), ?pb, ?post]\<rparr>"
  have 2: "sys_step c ?s1 ?s2"
    using disp_next [of ?s1 "FtsPre ?dot (FDir n [FReg a, FReg b])" "[]" c False] s0(1) dir pa(1) by simp
  let ?o = "opened c pa (s_proc s0)"
  let ?s3 = "?s2\<lparr>s_proc := snd ?o, s_disp := DRead [?pb, ?post], s_pipe := [fst ?o]\<rparr>"
  have 3: "(sys_step c)\<^sup>*\<^sup>* ?s2 ?s3"
    using dispatcher_sends_one [of ?s2 pa a "[?pb, ?post]" c] s0 m(2) env cap fds names pa by simp
  have "open_file (c_env c) (child_path ?dot b) (snd ?o) = None"
    using env fds by (simp add: open_file_def opened_def copy_name_def Let_def denv_ok_def)
  then have "entry_open (c_env c) (fts_visit ?pb) (s_proc ?s3) = (False, None)"
    using names(3) by (simp add: entry_open_def entry_def vcs_name_def)
  then have 4: "sys_step c ?s3 (?s3\<lparr>s_disp := DRead [?post]\<rparr>)" (is "sys_step c _ ?s4")
    using disp_next [of ?s3 ?pb "[?post]" c False] s0(1) by simp
  let ?s5 = "?s4\<lparr>s_disp := DRead []\<rparr>"
  have 5: "sys_step c ?s4 ?s5" using disp_next [of ?s4 ?post "[]" c False] s0(1) dir by simp
  obtain m' where "end_magic ?s5 = Inr m'" using magic_fini_ok [OF m(2)] by (auto simp: end_magic_def)
  then have 6: "sys_step c ?s5 (?s5\<lparr>s_disp := DExited, s_magic := m', s_closed := True,
      s_proc := close_fd (snd (c_pipefd c)) (s_proc ?s5)\<rparr>)" (is "sys_step c _ ?s6")
    using disp_end [of ?s5 m' c] s0(1) by simp
  have "(sys_step c)\<^sup>*\<^sup>* s0 ?s6"
    using 1 2 3 4 5 6 by (meson converse_rtranclp_into_rtranclp rtranclp.rtrancl_into_rtrancl)
  then show ?thesis using s0 by (intro exI [of _ ?s6]) (simp add: opened_def Let_def)
qed

section \<open>Properties of the poll loop\<close>

definition message :: "byte list \<Rightarrow> byte list" where
  "message bs = 91 # dec_digits (length bs) @ 93 # bs @ [newline]"

definition ready :: "byte list \<Rightarrow> poll_result" where
  "ready bs = PollReady \<lparr>pe_in = True, pe_hup = False, pe_data = Some bs\<rparr>"

lemma check_buffer_ready [simp]:
  "sf_check_buffer (ready bs # rs) st =
     (if bs = [] then Inr (0, st) else rbind (show_result (Some bs) st) (sf_check_buffer rs))"
  by (simp add: ready_def)

lemma show_result_text:
  assumes "length bs < RESULT_SIZE" and "0 \<notin> set bs"
  shows "show_result (Some bs) st = Inr (st\<lparr>ck_out := ck_out st @ [message bs], ck_dangling := True\<rparr>)"
proof -
  obtain m where m: "RESULT_SIZE - length bs = Suc m" using assms(1) by (metis Suc_diff_Suc)
  have "c_string (Some (bs @ replicate (RESULT_SIZE - length bs) 0)) = Inr bs"
    using strlen_at [of bs 0 "[]" "replicate m 0"] assms(2) unfolding m by (simp add: c_string_def)
  then show ?thesis using assms(1) by (simp add: show_result_def message_def Let_def)
qed

text \<open>
  The poll loop prints every message of fewer than 256 bytes, without a zero byte, once and in
  order, preceded by its length, and returns 0 at the end of file.
\<close>

theorem check_buffer_prints:
  assumes "list_all (\<lambda>bs. bs \<noteq> [] \<and> length bs < RESULT_SIZE \<and> 0 \<notin> set bs) msgs"
  shows "\<exists>st'. sf_check_buffer (map ready msgs @ PollTimeout # ready [] # rs) st = Inr (0, st') \<and>
    ck_out st' = ck_out st @ map message msgs"
  using assms
proof (induction msgs arbitrary: st)
  case Nil
  then show ?case by simp
next
  case (Cons bs msgs)
  let ?st = "st\<lparr>ck_out := ck_out st @ [message bs], ck_dangling := True\<rparr>"
  obtain st' where "sf_check_buffer (map ready msgs @ PollTimeout # ready [] # rs) ?st = Inr (0, st')"
    "ck_out st' = ck_out ?st @ map message msgs"
    using Cons.IH [of ?st] Cons.prems by auto
  moreover have "bs \<noteq> []" "show_result (Some bs) st = Inr ?st"
    using Cons.prems show_result_text by (simp_all add: list_all_iff)
  ultimately show ?case by simp
qed

theorem check_buffer_prints_witness:
  "\<exists>st'. sf_check_buffer (map ready [[97, 98], [99]] @ PollTimeout # ready [] # []) \<lparr>ck_out = [], ck_dangling = False\<rparr> =
     Inr (0, st') \<and> ck_out st' = ck_out \<lparr>ck_out = [], ck_dangling = False\<rparr> @ map message [[97, 98], [99]]"
  by (rule check_buffer_prints) (simp add: RESULT_SIZE_def)

text \<open>
  A \<open>read\<close> that fills the array \<open>result\<close> leaves no room for a terminator: \<open>strlen\<close> then reads beyond
  it.  And after any message the buffer of \<open>stdout\<close> is an array whose block has been left.
\<close>

theorem check_buffer_overreads:
  assumes "RESULT_SIZE \<le> length bs" and "0 \<notin> set bs"
  shows "sf_check_buffer (ready bs # rs) st = Inl OutOfBounds \<and>
    sf_check_buffer [ready [97], ready []] st =
      Inr (0, st\<lparr>ck_out := ck_out st @ [message [97]], ck_dangling := True\<rparr>)"
proof -
  have "bs \<noteq> []" using assms(1) by (auto simp: RESULT_SIZE_def)
  moreover have "show_result (Some bs) st = Inl OutOfBounds"
    using assms by (auto simp: show_result_def c_string_def c_strlen_def Let_def dest: in_set_takeD)
  ultimately show ?thesis using show_result_text [of "[97]" st] by (simp add: RESULT_SIZE_def)
qed

theorem check_buffer_overreads_witness:
  "sf_check_buffer [ready (replicate 256 97)] \<lparr>ck_out = [], ck_dangling = False\<rparr> = Inl OutOfBounds \<and>
   sf_check_buffer [ready [97], ready []] \<lparr>ck_out = [], ck_dangling = False\<rparr> =
     Inr (0, \<lparr>ck_out = [message [97]], ck_dangling = True\<rparr>)"
  using check_buffer_overreads [of "replicate 256 97" "[]" "\<lparr>ck_out = [], ck_dangling = False\<rparr>"]
  by (simp add: RESULT_SIZE_def)

end
