(* ===== verification/Rope.thy ===== *)
theory Rope
  imports Prelude
begin

text \<open>
  The list of ropes: the circular doubly linked list of \<open>src/src/util.h\<close> (\<open>struct list_head\<close>,
  \<open>INIT_LIST_HEAD\<close>, \<open>__list_add\<close>, \<open>list_add\<close>, \<open>list_add_tail\<close>, \<open>list_empty\<close>,
  \<open>list_for_each_entry\<close>) and the rope functions and \<open>buf_init\<close>, \<open>buf_write\<close>, \<open>buf_dump\<close>,
  \<open>buf_destroy\<close> of \<open>src/src/buffer.c\<close>.

  Objects live at addresses of one heap.  The list member \<open>lh\<close> is the first of \<open>struct rope\<close>, so
  \<open>list_entry\<close> is the identity on addresses.  The union of \<open>pstr\<close> and \<open>isleaf\<close> is one pointer value
  whose lowest byte is \<open>isleaf\<close>.  The loops over the list are partial functions, \<open>None\<close> when they do
  not end; on a well-formed list (\<open>dll\<close>) they are shown to end.
\<close>

section \<open>The heap\<close>

text \<open>
  The field \<open>offset\<close> of the structure, which is never set or read, is left out, and so is the parameter of that name of
  \<open>rope_join\<close>, which it does not use.
\<close>

record rope =
  r_left :: addr
  r_right :: addr
  r_pstr :: addr      \<comment> \<open>the union of \<open>pstr\<close> and \<open>isleaf\<close>; 0 is \<open>NULL\<close>\<close>
  r_tag :: byte

record rheap =
  hp_live :: "addr set"                  \<comment> \<open>allocated list heads and ropes\<close>
  hp_lnext :: "addr \<Rightarrow> addr"
  hp_lprev :: "addr \<Rightarrow> addr"
  hp_rope :: "addr \<Rightarrow> rope"
  hp_str :: "addr \<Rightarrow> byte list option"   \<comment> \<open>allocated strings, without their terminator\<close>
  hp_fresh :: addr                       \<comment> \<open>addresses from here on have never been handed out\<close>
  hp_quota :: nat                        \<comment> \<open>how many more blocks \<open>malloc\<close> can deliver\<close>

definition live :: "addr \<Rightarrow> rheap \<Rightarrow> unit res" where
  "live a h = guard (a \<in> hp_live h) (if a = 0 then NullDeref else UseAfterFree)"

definition lget_next :: "addr \<Rightarrow> rheap \<Rightarrow> addr res" where
  "lget_next a h = rbind (live a h) (\<lambda>_. Inr (hp_lnext h a))"

definition lget_prev :: "addr \<Rightarrow> rheap \<Rightarrow> addr res" where
  "lget_prev a h = rbind (live a h) (\<lambda>_. Inr (hp_lprev h a))"

definition lset_next :: "addr \<Rightarrow> addr \<Rightarrow> rheap \<Rightarrow> rheap res" where
  "lset_next a v h = rbind (live a h) (\<lambda>_. Inr (h\<lparr>hp_lnext := (hp_lnext h)(a := v)\<rparr>))"

definition lset_prev :: "addr \<Rightarrow> addr \<Rightarrow> rheap \<Rightarrow> rheap res" where
  "lset_prev a v h = rbind (live a h) (\<lambda>_. Inr (h\<lparr>hp_lprev := (hp_lprev h)(a := v)\<rparr>))"

section \<open>List operations\<close>

definition INIT_LIST_HEAD :: "addr \<Rightarrow> rheap \<Rightarrow> rheap res" where
  "INIT_LIST_HEAD l h = rbind (lset_next l l h) (lset_prev l l)"

definition list_add_between :: "addr \<Rightarrow> addr \<Rightarrow> addr \<Rightarrow> rheap \<Rightarrow> rheap res" where
  "list_add_between newnode prev nxt h =
     rbind (lset_prev nxt newnode h) (\<lambda>h1.
     rbind (lset_next newnode nxt h1) (\<lambda>h2.
     rbind (lset_prev newnode prev h2) (\<lambda>h3.
     lset_next prev newnode h3)))"

definition list_empty :: "addr \<Rightarrow> rheap \<Rightarrow> bool res" where
  "list_empty head h = rbind (lget_next head h) (\<lambda>n. Inr (n = head))"

definition list_add :: "addr \<Rightarrow> addr \<Rightarrow> rheap \<Rightarrow> rheap res" where
  "list_add newnode head h = rbind (lget_next head h) (\<lambda>n. list_add_between newnode head n h)"

definition list_add_tail :: "addr \<Rightarrow> addr \<Rightarrow> rheap \<Rightarrow> rheap res" where
  "list_add_tail newnode head h = rbind (lget_prev head h) (\<lambda>p. list_add_between newnode p head h)"

section \<open>Ropes\<close>

text \<open>\<open>strndup\<close>: up to \<open>len\<close> bytes, at most up to the terminator; a new block or \<open>NULL\<close>.\<close>

definition c_strndup :: "byte list \<Rightarrow> nat \<Rightarrow> rheap \<Rightarrow> (addr \<times> rheap) res" where
  "c_strndup str len h =
     rbind (guard (0 \<in> set str \<or> len \<le> length str) OutOfBounds) (\<lambda>_.
     if hp_quota h = 0 then Inr (0, h)
     else Inr (hp_fresh h,
            h\<lparr>hp_str := (hp_str h)(hp_fresh h \<mapsto> takeWhile (\<lambda>c. c \<noteq> 0) (take len str)),
              hp_fresh := Suc (hp_fresh h), hp_quota := hp_quota h - 1\<rparr>))"

definition c_strdup :: "byte list \<Rightarrow> rheap \<Rightarrow> (addr \<times> rheap) res" where
  "c_strdup str h = rbind (guard (0 \<in> set str) OutOfBounds) (\<lambda>_. c_strndup str (length str) h)"

definition set_rope :: "addr \<Rightarrow> (rope \<Rightarrow> rope) \<Rightarrow> rheap \<Rightarrow> rheap res" where
  "set_rope r f h = rbind (live r h) (\<lambda>_. Inr (h\<lparr>hp_rope := (hp_rope h)(r := f (hp_rope h r))\<rparr>))"

definition rope_set :: "addr \<Rightarrow> byte list \<Rightarrow> byte \<Rightarrow> rheap \<Rightarrow> rheap res" where
  "rope_set r str tag h =
     rbind (c_strdup str h) (\<lambda>(p, h1). set_rope r (\<lambda>x. x\<lparr>r_pstr := p, r_tag := tag\<rparr>) h1)"

definition rope_setn :: "addr \<Rightarrow> byte list \<Rightarrow> nat \<Rightarrow> byte \<Rightarrow> rheap \<Rightarrow> rheap res" where
  "rope_setn r str len tag h =
     rbind (c_strndup str len h) (\<lambda>(p, h1). set_rope r (\<lambda>x. x\<lparr>r_pstr := p, r_tag := tag\<rparr>) h1)"

text \<open>\<open>free\<close> of a string; \<open>NULL\<close> is allowed.\<close>

definition free_str :: "addr \<Rightarrow> rheap \<Rightarrow> rheap res" where
  "free_str p h =
     (if p = 0 then Inr h
      else case hp_str h p of None \<Rightarrow> Inl UseAfterFree
           | Some s \<Rightarrow> Inr (h\<lparr>hp_str := (hp_str h)(p := None), hp_quota := Suc (hp_quota h)\<rparr>))"

definition free_rope :: "addr \<Rightarrow> rheap \<Rightarrow> rheap res" where
  "free_rope r h =
     rbind (live r h) (\<lambda>_. Inr (h\<lparr>hp_live := hp_live h - {r}, hp_quota := Suc (hp_quota h)\<rparr>))"

text \<open>\<open>isleaf\<close> is the lowest byte of the pointer.\<close>

definition union_isleaf :: "rope \<Rightarrow> nat" where
  "union_isleaf r = r_pstr r mod 256"

definition rope_tear :: "addr \<Rightarrow> rheap \<Rightarrow> rheap res" where
  "rope_tear r h =
     rbind (live r h) (\<lambda>_.
     if union_isleaf (hp_rope h r) \<noteq> 0 then free_str (r_pstr (hp_rope h r)) h else Inr h)"

definition TAG_DEFAULT :: byte where
  "TAG_DEFAULT = 0"

definition TAG_CONTEXT :: byte where
  "TAG_CONTEXT = 1"

definition rope_join :: "addr \<Rightarrow> addr \<Rightarrow> addr \<Rightarrow> rheap \<Rightarrow> rheap res" where
  "rope_join r r1 r2 h =
     set_rope r (\<lambda>x. x\<lparr>r_left := r1, r_right := r2, r_pstr := r_pstr x - r_pstr x mod 256,
                      r_tag := TAG_DEFAULT\<rparr>) h"

definition rope_isleaf :: "addr \<Rightarrow> rheap \<Rightarrow> bool res" where
  "rope_isleaf r h = rbind (live r h) (\<lambda>_. Inr (r_tag (hp_rope h r) \<noteq> TAG_DEFAULT))"

section \<open>The buffer of ropes\<close>

text \<open>A \<open>buffer\<close> is its list head.\<close>

definition buf_init :: "addr \<Rightarrow> rheap \<Rightarrow> rheap res" where
  "buf_init b h = INIT_LIST_HEAD b h"

definition rope_malloc :: "rheap \<Rightarrow> addr \<times> rheap" where
  "rope_malloc h =
     (if hp_quota h = 0 then (0, h)
      else (hp_fresh h, h\<lparr>hp_live := insert (hp_fresh h) (hp_live h), hp_fresh := Suc (hp_fresh h),
                           hp_quota := hp_quota h - 1\<rparr>))"

text \<open>The function has no \<open>return\<close> statement, so there is no result to model.\<close>

definition buf_write :: "addr \<Rightarrow> byte list \<Rightarrow> nat \<Rightarrow> rheap \<Rightarrow> rheap res" where
  "buf_write b content len h =
     (case rope_malloc h of (pr, h1) \<Rightarrow>
        rbind (rope_setn pr content len TAG_CONTEXT h1) (list_add_tail pr b))"

text \<open>\<open>printf("%s\n")\<close> of a string, or of \<open>NULL\<close>, which is undefined.\<close>

definition print_str :: "addr \<Rightarrow> rheap \<Rightarrow> byte list res" where
  "print_str p h =
     (case hp_str h p of None \<Rightarrow> Inl (if p = 0 then NullDeref else UseAfterFree)
      | Some s \<Rightarrow> Inr (s @ [newline]))"

partial_function (option) dump_loop :: "addr \<Rightarrow> addr \<Rightarrow> rheap \<Rightarrow> byte list \<Rightarrow> byte list res option" where
  "dump_loop b p h out =
     (if p = b then Some (Inr out)
      else
        (case rbind (rope_isleaf p h) (\<lambda>leaf.
              rbind (if leaf then print_str (r_pstr (hp_rope h p)) h else Inr []) (\<lambda>s.
              rbind (lget_next p h) (\<lambda>n. Inr (s, n)))) of
           Inl e \<Rightarrow> Some (Inl e)
         | Inr (s, n) \<Rightarrow> dump_loop b n h (out @ s)))"

definition buf_dump :: "addr \<Rightarrow> rheap \<Rightarrow> byte list res" where
  "buf_dump b h =
     rbind (lget_next b h) (\<lambda>p. case dump_loop b p h [] of None \<Rightarrow> Inl NoReturn | Some r \<Rightarrow> r)"

partial_function (option) destroy_loop :: "addr \<Rightarrow> addr \<Rightarrow> addr \<Rightarrow> rheap \<Rightarrow> rheap res option" where
  "destroy_loop b p prefetch h =
     (if p = b then Some (Inr h)
      else
        (case rbind (live p h) (\<lambda>_.
              rbind (free_str (r_pstr (hp_rope h p)) h) (\<lambda>h1.
              rbind (free_rope p h1) (\<lambda>h2.
              rbind (lget_next prefetch h2) (\<lambda>n. Inr (n, h2))))) of
           Inl e \<Rightarrow> Some (Inl e)
         | Inr (n, h2) \<Rightarrow> destroy_loop b prefetch n h2))"

definition buf_destroy :: "addr \<Rightarrow> rheap \<Rightarrow> rheap res" where
  "buf_destroy b h =
     rbind (lget_next b h) (\<lambda>p.
     rbind (lget_next p h) (\<lambda>prefetch.
     case destroy_loop b p prefetch h of None \<Rightarrow> Inl NoReturn | Some r \<Rightarrow> r))"

section \<open>Well-formed lists\<close>

text \<open>\<open>seg h a xs b\<close>: from \<open>a\<close> the \<open>next\<close> pointers lead through \<open>xs\<close> to \<open>b\<close>, and the \<open>prev\<close> pointers back.\<close>

fun seg :: "rheap \<Rightarrow> addr \<Rightarrow> addr list \<Rightarrow> addr \<Rightarrow> bool" where
  "seg h a [] b \<longleftrightarrow> hp_lnext h a = b \<and> hp_lprev h b = a"
| "seg h a (x # xs) b \<longleftrightarrow> hp_lnext h a = x \<and> hp_lprev h x = a \<and> seg h x xs b"

definition dll :: "rheap \<Rightarrow> addr \<Rightarrow> addr list \<Rightarrow> bool" where
  "dll h b xs \<longleftrightarrow> distinct (b # xs) \<and> set (b # xs) \<subseteq> hp_live h \<and> seg h b xs b"

text \<open>The list of the buffer and the strings its ropes hold.\<close>

definition rope_text :: "rheap \<Rightarrow> addr \<Rightarrow> byte list \<Rightarrow> bool" where
  "rope_text h x s \<longleftrightarrow> r_tag (hp_rope h x) = TAG_CONTEXT \<and> r_pstr (hp_rope h x) \<noteq> 0 \<and>
     hp_str h (r_pstr (hp_rope h x)) = Some s"

definition heap_wf :: "rheap \<Rightarrow> bool" where
  "heap_wf h \<longleftrightarrow> 0 \<notin> hp_live h \<and> 0 < hp_fresh h \<and>
     (\<forall>a\<ge>hp_fresh h. a \<notin> hp_live h \<and> hp_str h a = None)"

definition rope_ptr :: "rheap \<Rightarrow> addr \<Rightarrow> addr" where
  "rope_ptr h x = r_pstr (hp_rope h x)"

definition buf_rep :: "rheap \<Rightarrow> addr \<Rightarrow> addr list \<Rightarrow> byte list list \<Rightarrow> bool" where
  "buf_rep h b xs ss \<longleftrightarrow>
     heap_wf h \<and> dll h b xs \<and> list_all2 (rope_text h) xs ss \<and>
     distinct (map (rope_ptr h) xs)"

lemma seg_last: "seg h a xs b \<Longrightarrow> hp_lprev h b = last (a # xs)"
  by (induction xs arbitrary: a) auto

text \<open>Redirecting the last link of a segment to a new node.\<close>

lemma seg_redirect:
  assumes "seg h a xs b" and "distinct (a # xs)"
    and "\<And>y. y \<in> set (a # xs) \<Longrightarrow> y \<noteq> last (a # xs) \<Longrightarrow> hp_lnext h' y = hp_lnext h y"
    and "\<And>y. y \<in> set xs \<Longrightarrow> hp_lprev h' y = hp_lprev h y"
    and "hp_lnext h' (last (a # xs)) = c" and "hp_lprev h' c = last (a # xs)"
  shows "seg h' a xs c"
  using assms
proof (induction xs arbitrary: a)
  case (Cons x xs)
  have "seg h' x xs c"
    using Cons.prems by (intro Cons.IH) auto
  moreover have "a \<noteq> last (x # xs)" using Cons.prems(2) last_in_set [of "x # xs"] by auto
  ultimately show ?case using Cons.prems by auto
qed simp

lemma seg_snoc: "seg h a (xs @ [x]) b \<longleftrightarrow> seg h a xs x \<and> seg h x [] b"
  by (induction xs arbitrary: a) auto

lemma list_add_tail_ok:
  assumes dll: "dll h b xs" and x: "x \<in> hp_live h" "x \<notin> set (b # xs)"
  obtains h' where "list_add_tail x b h = Inr h'" and "dll h' b (xs @ [x])"
    and "hp_live h' = hp_live h" and "hp_rope h' = hp_rope h" and "hp_str h' = hp_str h"
    and "hp_fresh h' = hp_fresh h" and "hp_quota h' = hp_quota h"
proof -
  let ?l = "last (b # xs)"
  note d = dll [unfolded dll_def]
  have prev: "hp_lprev h b = ?l" using d seg_last by blast
  have l: "?l \<in> hp_live h" "?l \<noteq> x" using d x last_in_set [of "b # xs"] by auto
  let ?h = "h\<lparr>hp_lprev := (hp_lprev h)(b := x, x := ?l), hp_lnext := (hp_lnext h)(x := b, ?l := x)\<rparr>"
  have eq: "list_add_tail x b h = Inr ?h"
    using d x l unfolding list_add_tail_def list_add_between_def
    by (simp add: lget_prev_def lset_prev_def lset_next_def live_def prev)
  have "seg ?h b xs x"
    by (rule seg_redirect [of h b xs b]) (use d x l in \<open>auto split: if_splits\<close>)
  moreover have "seg ?h x [] b" using d x l by (simp split: if_splits)
  ultimately have "dll ?h b (xs @ [x])"
    using d x unfolding dll_def by (simp add: seg_snoc)
  with eq show thesis by (intro that [of ?h]) simp_all
qed

subsection \<open>Writing\<close>

definition chunk_text :: "byte list \<Rightarrow> nat \<Rightarrow> byte list" where
  "chunk_text content len = takeWhile (\<lambda>c. c \<noteq> 0) (take len content)"

text \<open>The heap \<open>h\<close> is \<open>h0\<close> with the ropes \<open>xs\<close> and their strings added.\<close>

definition added :: "rheap \<Rightarrow> rheap \<Rightarrow> addr list \<Rightarrow> bool" where
  "added h0 h xs \<longleftrightarrow>
     hp_live h = hp_live h0 \<union> set xs \<and> set xs \<inter> hp_live h0 = {} \<and>
     (\<forall>a. a \<notin> rope_ptr h ` set xs \<longrightarrow> hp_str h a = hp_str h0 a) \<and>
     (\<forall>x \<in> set xs. hp_str h0 (rope_ptr h x) = None) \<and>
     hp_quota h + 2 * length xs = hp_quota h0"

lemma rope_text_below:
  assumes "heap_wf h" and "rope_text h x s"
  shows "rope_ptr h x < hp_fresh h"
proof (rule ccontr)
  assume "\<not> ?thesis"
  then have "hp_str h (rope_ptr h x) = None" using assms(1) by (simp add: heap_wf_def)
  with assms(2) show False by (simp add: rope_text_def rope_ptr_def)
qed

lemma list_all2_left: "list_all2 P xs ys \<Longrightarrow> x \<in> set xs \<Longrightarrow> \<exists>y. P x y"
  by (induction rule: list_all2_induct) auto

text \<open>The heap after the allocation of a rope and of its string \<open>s\<close>.\<close>

definition with_rope :: "rheap \<Rightarrow> byte list \<Rightarrow> rheap" where
  "with_rope h s = h\<lparr>hp_live := insert (hp_fresh h) (hp_live h),
     hp_str := (hp_str h)(Suc (hp_fresh h) \<mapsto> s), hp_fresh := Suc (Suc (hp_fresh h)),
     hp_quota := hp_quota h - 2,
     hp_rope := (hp_rope h)(hp_fresh h :=
       (hp_rope h (hp_fresh h))\<lparr>r_pstr := Suc (hp_fresh h), r_tag := TAG_CONTEXT\<rparr>)\<rparr>"

lemma buf_write_alloc:
  assumes quota: "2 \<le> hp_quota h" and str: "0 \<in> set content \<or> len \<le> length content"
  shows "buf_write b content len h = list_add_tail (hp_fresh h) b (with_rope h (chunk_text content len))"
proof -
  obtain q where "hp_quota h = Suc (Suc q)" using quota by (metis Suc_le_D numeral_2_eq_2 Suc_le_mono)
  with str show ?thesis
    by (simp add: buf_write_def rope_setn_def rope_malloc_def c_strndup_def set_rope_def live_def
        with_rope_def chunk_text_def)
qed

lemma with_rope_seg: "seg (with_rope h s) a ys c \<longleftrightarrow> seg h a ys c"
  by (induction ys arbitrary: a) (simp_all add: with_rope_def)

lemma with_rope_keeps:
  assumes wf: "heap_wf h" and tx: "rope_text h y t" and y: "y \<noteq> hp_fresh h"
    and h': "hp_rope h' = hp_rope (with_rope h s)" "hp_str h' = hp_str (with_rope h s)"
  shows "rope_text h' y t" and "rope_ptr h' y = rope_ptr h y"
proof -
  show ptr: "rope_ptr h' y = rope_ptr h y" using y by (simp add: rope_ptr_def h' with_rope_def)
  have "rope_ptr h y \<noteq> Suc (hp_fresh h)" using rope_text_below [OF wf tx] by simp
  then show "rope_text h' y t"
    using tx y ptr by (simp add: rope_text_def h' with_rope_def rope_ptr_def)
qed

lemma with_rope_added:
  assumes a: "added h0 h xs" and fresh: "hp_fresh h \<notin> hp_live h" "hp_str h (Suc (hp_fresh h)) = None"
    and quota: "2 \<le> hp_quota h" and ptr: "\<And>y. y \<in> set xs \<Longrightarrow> rope_ptr h y < hp_fresh h"
    and h': "hp_live h' = hp_live (with_rope h s)" "hp_rope h' = hp_rope (with_rope h s)"
      "hp_str h' = hp_str (with_rope h s)" "hp_quota h' = hp_quota (with_rope h s)"
  shows "added h0 h' (xs @ [hp_fresh h])"
proof -
  let ?x = "hp_fresh h" and ?p = "Suc (hp_fresh h)"
  note a' = a [unfolded added_def]
  have "?x \<notin> set xs" using a' fresh(1) by auto
  then have old: "rope_ptr h' y = rope_ptr h y" if "y \<in> set xs" for y
    using that by (auto simp: rope_ptr_def h' with_rope_def)
  have new: "rope_ptr h' ?x = ?p" by (simp add: rope_ptr_def h' with_rope_def)
  have notin: "?p \<notin> rope_ptr h ` set xs" using ptr by fastforce
  then have none: "hp_str h0 ?p = None" using a' fresh(2) by metis
  have img: "rope_ptr h' ` set (xs @ [?x]) = insert ?p (rope_ptr h ` set xs)"
    using old new by force
  have "hp_str h' c = hp_str h0 c" if "c \<notin> insert ?p (rope_ptr h ` set xs)" for c
    using a' that by (simp add: h' with_rope_def)
  moreover have "hp_live h' = hp_live h0 \<union> set (xs @ [?x])" "set (xs @ [?x]) \<inter> hp_live h0 = {}"
    using a' fresh(1) by (auto simp: h' with_rope_def)
  moreover have "hp_str h0 (rope_ptr h' y) = None" if "y \<in> set (xs @ [?x])" for y
    using a' that old new none by auto
  moreover have "hp_quota h' + 2 * length (xs @ [?x]) = hp_quota h0"
  proof -
    have "hp_quota h' = hp_quota h - 2" by (simp add: h' with_rope_def)
    moreover have "length (xs @ [?x]) = Suc (length xs)" by simp
    ultimately show ?thesis using a' quota by linarith
  qed
  ultimately show ?thesis unfolding added_def img by blast
qed

lemma buf_write_ok:
  assumes rep: "buf_rep h b xs ss" and quota: "2 \<le> hp_quota h"
    and str: "0 \<in> set content \<or> len \<le> length content"
  obtains x h' where "buf_write b content len h = Inr h'"
    and "buf_rep h' b (xs @ [x]) (ss @ [chunk_text content len])"
    and "\<forall>h0. added h0 h xs \<longrightarrow> added h0 h' (xs @ [x])" and "hp_quota h' = hp_quota h - 2"
proof -
  note r = rep [unfolded buf_rep_def]
  let ?x = "hp_fresh h" and ?s = "chunk_text content len"
  let ?g = "with_rope h ?s"
  have wf: "heap_wf h" and dll: "dll h b xs" and texts: "list_all2 (rope_text h) xs ss" using r by simp_all
  have fresh: "?x \<notin> hp_live h" "?x \<notin> set (b # xs)" "hp_str h (Suc ?x) = None"
    using wf dll by (auto simp: heap_wf_def dll_def)
  have tx: "\<exists>t. rope_text h y t" if "y \<in> set xs" for y
    using list_all2_left [OF texts that] .
  have ptr: "rope_ptr h y < ?x" if "y \<in> set xs" for y
    using rope_text_below [OF wf] tx [OF that] by blast
  have "dll ?g b xs" using dll by (auto simp: dll_def with_rope_seg) (auto simp: with_rope_def)
  moreover have "?x \<in> hp_live ?g" by (simp add: with_rope_def)
  ultimately obtain h' where h': "list_add_tail ?x b ?g = Inr h'" "dll h' b (xs @ [?x])" "hp_live h' = hp_live ?g"
    "hp_rope h' = hp_rope ?g" "hp_str h' = hp_str ?g" "hp_fresh h' = hp_fresh ?g" "hp_quota h' = hp_quota ?g"
    using list_add_tail_ok fresh(2) by metis
  have keep: "rope_text h' y t" "rope_ptr h' y = rope_ptr h y" if "y \<in> set xs" "rope_text h y t" for y t
    using with_rope_keeps [OF wf that(2) _ h'(4,5)] fresh(2) that(1) by auto
  have texts': "list_all2 (rope_text h') xs ss"
    by (rule list.rel_mono_strong [OF texts]) (rule keep(1))
  have new: "rope_text h' ?x ?s" "rope_ptr h' ?x = Suc ?x"
    by (simp_all add: rope_text_def rope_ptr_def h' with_rope_def)
  have same: "map (rope_ptr h') xs = map (rope_ptr h) xs" using keep(2) tx by (intro map_cong refl) blast
  have "Suc ?x \<notin> set (map (rope_ptr h) xs)" using ptr by fastforce
  then have "distinct (map (rope_ptr h') (xs @ [?x]))"
    unfolding map_append same using r new(2) by simp
  moreover have "heap_wf h'" using wf by (auto simp: heap_wf_def h' with_rope_def)
  ultimately have "buf_rep h' b (xs @ [?x]) (ss @ [?s])"
    using h'(2) texts' new(1) by (simp add: buf_rep_def list_all2_appendI)
  moreover have "\<forall>h0. added h0 h xs \<longrightarrow> added h0 h' (xs @ [?x])"
    using with_rope_added [OF _ fresh(1,3) quota ptr h'(3,4,5,7)] by blast
  ultimately show thesis
    using that [of h' ?x] buf_write_alloc [OF quota str] h'(1,7) by (simp add: with_rope_def)
qed

subsection \<open>Dumping and destroying\<close>

lemma dump_loop_ok:
  assumes "seg h a xs b" and "b \<notin> set xs" and "set xs \<subseteq> hp_live h" and "list_all2 (rope_text h) xs ss"
  shows "dump_loop b (hp_lnext h a) h out = Some (Inr (out @ concat (map (\<lambda>s. s @ [newline]) ss)))"
  using assms
proof (induction xs arbitrary: a ss out)
  case Nil
  then show ?case by (subst dump_loop.simps) simp
next
  case (Cons x xs)
  then obtain s ss' where ss: "ss = s # ss'" "rope_text h x s" "list_all2 (rope_text h) xs ss'"
    by (auto simp: list_all2_Cons1)
  have "dump_loop b (hp_lnext h x) h (out @ s @ [newline]) =
      Some (Inr ((out @ s @ [newline]) @ concat (map (\<lambda>s. s @ [newline]) ss')))"
    using Cons.prems ss by (intro Cons.IH) auto
  moreover have "x \<noteq> b" "x \<in> hp_live h" "hp_lnext h a = x" using Cons.prems by auto
  ultimately show ?case
    using ss(1,2) by (subst dump_loop.simps)
      (simp add: rope_isleaf_def live_def print_str_def lget_next_def rope_text_def TAG_CONTEXT_def TAG_DEFAULT_def)
qed

lemma buf_dump_ok:
  assumes "buf_rep h b xs ss"
  shows "buf_dump b h = Inr (concat (map (\<lambda>s. s @ [newline]) ss))"
  using dump_loop_ok [of h b xs b ss "[]"] assms
  by (auto simp: buf_dump_def buf_rep_def dll_def lget_next_def live_def)

text \<open>The heap with the ropes \<open>xs\<close> and their strings freed.\<close>

definition without_ropes :: "rheap \<Rightarrow> addr list \<Rightarrow> rheap" where
  "without_ropes h xs = h\<lparr>hp_live := hp_live h - set xs,
     hp_str := (\<lambda>a. if a \<in> rope_ptr h ` set xs then None else hp_str h a),
     hp_quota := hp_quota h + 2 * length xs\<rparr>"

lemma free_one:
  assumes "x \<in> hp_live h" and "rope_text h x s"
  shows "rbind (free_str (rope_ptr h x) h) (free_rope x) = Inr (without_ropes h [x])"
proof -
  have "(hp_str h)(rope_ptr h x := None) = (\<lambda>a. if a \<in> rope_ptr h ` set [x] then None else hp_str h a)"
    by auto
  with assms show ?thesis
    by (simp add: free_str_def free_rope_def live_def rope_text_def rope_ptr_def without_ropes_def)
qed

lemma without_ropes_Cons:
  "x \<notin> set xs \<Longrightarrow> without_ropes (without_ropes h [x]) xs = without_ropes h (x # xs)"
  by (intro rheap.equality) (auto simp: without_ropes_def rope_ptr_def fun_eq_iff)

lemma without_ropes_fields [simp]:
  "hp_lnext (without_ropes h xs) = hp_lnext h" "hp_lprev (without_ropes h xs) = hp_lprev h"
  "hp_rope (without_ropes h xs) = hp_rope h" "hp_live (without_ropes h xs) = hp_live h - set xs"
  by (simp_all add: without_ropes_def)

lemma seg_without: "seg (without_ropes h ys) a xs b \<longleftrightarrow> seg h a xs b"
  by (induction xs arbitrary: a) simp_all

lemma rope_text_without:
  "rope_text h y s \<Longrightarrow> rope_ptr h y \<notin> rope_ptr h ` set xs \<Longrightarrow> rope_text (without_ropes h xs) y s"
  by (simp add: rope_text_def without_ropes_def rope_ptr_def)

text \<open>The loop of \<open>buf_destroy\<close>, \<open>prefetch\<close> being the successor of \<open>p\<close>.\<close>

lemma destroy_loop_ok:
  assumes "seg h a xs b" and "b \<notin> set xs" and "distinct xs" and "insert b (set xs) \<subseteq> hp_live h"
    and "list_all2 (rope_text h) xs ss" and "distinct (map (rope_ptr h) xs)"
  shows "destroy_loop b (hp_lnext h a) (hp_lnext h (hp_lnext h a)) h = Some (Inr (without_ropes h xs))"
  using assms
proof (induction xs arbitrary: a h ss)
  case Nil
  then show ?case by (subst destroy_loop.simps) (simp add: without_ropes_def)
next
  case (Cons x xs)
  let ?g = "without_ropes h [x]" and ?n = "hp_lnext h x"
  obtain s ss' where ss: "rope_text h x s" "list_all2 (rope_text h) xs ss'"
    using Cons.prems(5) by (auto simp: list_all2_Cons1)
  have ptr: "rope_ptr ?g = rope_ptr h" by (simp add: rope_ptr_def fun_eq_iff)
  have "rope_ptr h y \<notin> rope_ptr h ` set [x]" if "y \<in> set xs" for y
    using Cons.prems(6) imageI [OF that, of "rope_ptr h"] by auto
  then have "list_all2 (rope_text ?g) xs ss'"
    by (intro list.rel_mono_strong [OF ss(2)] rope_text_without)
  then have IH: "destroy_loop b (hp_lnext ?g x) (hp_lnext ?g (hp_lnext ?g x)) ?g = Some (Inr (without_ropes ?g xs))"
    using Cons.prems by (intro Cons.IH [where ss = ss']) (auto simp: seg_without ptr)
  have x: "x \<noteq> b" "x \<in> hp_live h" "hp_lnext h a = x" "x \<notin> set xs" using Cons.prems by auto
  have n: "?n \<in> hp_live h - {x}" using Cons.prems by (cases xs) auto
  have "rbind (live x h) (\<lambda>_. rbind (free_str (r_pstr (hp_rope h x)) h) (\<lambda>h1.
      rbind (free_rope x h1) (\<lambda>h2. rbind (lget_next ?n h2) (\<lambda>n. Inr (n, h2))))) =
    rbind (rbind (free_str (rope_ptr h x) h) (free_rope x)) (\<lambda>h2. rbind (lget_next ?n h2) (\<lambda>n. Inr (n, h2)))"
    using x(2) by (simp add: live_def rbind_assoc rope_ptr_def)
  also have "\<dots> = Inr (hp_lnext h ?n, ?g)"
    unfolding free_one [OF x(2) ss(1)] using n by (simp add: lget_next_def live_def)
  finally show ?case
    using IH x by (subst destroy_loop.simps) (simp add: without_ropes_Cons)
qed

lemma buf_destroy_ok:
  assumes "buf_rep h b xs ss"
  shows "buf_destroy b h = Inr (without_ropes h xs)"
proof -
  note r = assms [unfolded buf_rep_def dll_def]
  have "hp_lnext h b \<in> insert b (set xs)" using r by (cases xs) auto
  then have "hp_lnext h b \<in> hp_live h" using r by auto
  then show ?thesis
    using destroy_loop_ok [of h b xs b ss] r
    by (auto simp: buf_destroy_def lget_next_def live_def)
qed

subsection \<open>A whole buffer\<close>

lemma buf_init_ok:
  assumes "heap_wf h" and "b \<in> hp_live h"
  obtains h' where "buf_init b h = Inr h'" and "buf_rep h' b [] []" and "added h h' []"
    and "hp_quota h' = hp_quota h"
  using assms
  by (intro that [of "h\<lparr>hp_lnext := (hp_lnext h)(b := b), hp_lprev := (hp_lprev h)(b := b)\<rparr>"])
     (auto simp: buf_init_def INIT_LIST_HEAD_def lset_next_def lset_prev_def live_def buf_rep_def
        dll_def heap_wf_def added_def)

definition put_rope :: "addr \<Rightarrow> byte list \<times> nat \<Rightarrow> rheap \<Rightarrow> rheap res" where
  "put_rope b c h = buf_write b (fst c) (snd c) h"

definition chunk_ok :: "byte list \<times> nat \<Rightarrow> bool" where
  "chunk_ok c \<longleftrightarrow> 0 \<in> set (fst c) \<or> snd c \<le> length (fst c)"

lemma put_ropes_ok:
  assumes "buf_rep h b xs ss" and "list_all chunk_ok cs" and "2 * length cs \<le> hp_quota h" and "added h0 h xs"
  shows "\<exists>h' ys. for_each (put_rope b) cs h = Inr h' \<and>
           buf_rep h' b ys (ss @ map (\<lambda>c. chunk_text (fst c) (snd c)) cs) \<and> added h0 h' ys \<and>
           length ys = length xs + length cs"
  using assms
proof (induction cs arbitrary: h xs ss)
  case (Cons c cs)
  obtain x h1 where h1: "buf_write b (fst c) (snd c) h = Inr h1"
    "buf_rep h1 b (xs @ [x]) (ss @ [chunk_text (fst c) (snd c)])" "added h0 h1 (xs @ [x])"
    "hp_quota h1 = hp_quota h - 2"
    by (rule buf_write_ok [OF Cons.prems(1), of "fst c" "snd c"]) (use Cons.prems(2-4) in \<open>auto simp: chunk_ok_def\<close>)
  then have "\<exists>h' ys. for_each (put_rope b) cs h1 = Inr h' \<and>
      buf_rep h' b ys ((ss @ [chunk_text (fst c) (snd c)]) @ map (\<lambda>c. chunk_text (fst c) (snd c)) cs) \<and>
      added h0 h' ys \<and> length ys = length (xs @ [x]) + length cs"
    using Cons.prems by (intro Cons.IH) auto
  moreover have "put_rope b c h = Inr h1" using h1(1) by (simp add: put_rope_def)
  ultimately show ?case by simp
qed auto

section \<open>Properties\<close>

text \<open>A heap with one list head, at address 8, and memory for \<open>q\<close> blocks.\<close>

definition head_heap :: "nat \<Rightarrow> rheap" where
  "head_heap q = \<lparr>hp_live = {8}, hp_lnext = (\<lambda>_. 0), hp_lprev = (\<lambda>_. 0),
     hp_rope = (\<lambda>_. \<lparr>r_left = 0, r_right = 0, r_pstr = 0, r_tag = 0\<rparr>), hp_str = (\<lambda>_. None),
     hp_fresh = 9, hp_quota = q\<rparr>"

lemma head_heap_wf: "heap_wf (head_heap q)" "8 \<in> hp_live (head_heap q)" "hp_quota (head_heap q) = q"
  by (simp_all add: heap_wf_def head_heap_def)

text \<open>
  C30: after \<open>buf_init\<close> and any sequence of \<open>buf_write\<close> calls, \<open>buf_dump\<close> terminates and prints the
  written chunks in order, each cut at its length or at a zero byte and followed by a newline.
\<close>

theorem rope_buffer_dumps_writes:
  assumes "heap_wf h" and "b \<in> hp_live h" and "list_all chunk_ok cs" and "2 * length cs \<le> hp_quota h"
  shows "rbind (buf_init b h) (\<lambda>h0. rbind (for_each (put_rope b) cs h0) (buf_dump b)) =
         Inr (concat (map (\<lambda>c. chunk_text (fst c) (snd c) @ [newline]) cs))"
proof -
  obtain h0 where h0: "buf_init b h = Inr h0" "buf_rep h0 b [] []" "added h h0 []" "hp_quota h0 = hp_quota h"
    by (rule buf_init_ok [OF assms(1,2)])
  then obtain h' ys where "for_each (put_rope b) cs h0 = Inr h'"
    "buf_rep h' b ys (map (\<lambda>c. chunk_text (fst c) (snd c)) cs)"
    using put_ropes_ok [OF h0(2) assms(3)] assms(4) by fastforce
  with h0(1) show ?thesis by (simp add: buf_dump_ok comp_def)
qed

theorem rope_buffer_dumps_writes_witness:
  "rbind (buf_init 8 (head_heap 9)) (\<lambda>h0. rbind (for_each (put_rope 8) [([65, 66, 67], 2), ([68, 0, 69], 3)] h0) (buf_dump 8)) =
     Inr (concat (map (\<lambda>c. chunk_text (fst c) (snd c) @ [newline]) [([65, 66, 67], 2), ([68, 0, 69], 3)]))"
  by (rule rope_buffer_dumps_writes) (simp_all add: head_heap_wf chunk_ok_def)

text \<open>
  C31: \<open>buf_destroy\<close> terminates without touching freed memory (it reads the successor of a rope
  before freeing it) and gives back exactly what the \<open>buf_write\<close> calls allocated: the live blocks,
  the strings and the memory left are those before.
\<close>

theorem rope_buffer_destroy_frees:
  assumes "heap_wf h" and "b \<in> hp_live h" and "list_all chunk_ok cs" and "2 * length cs \<le> hp_quota h"
  shows "\<exists>h'. rbind (buf_init b h) (\<lambda>h0. rbind (for_each (put_rope b) cs h0) (buf_destroy b)) = Inr h' \<and>
           hp_live h' = hp_live h \<and> hp_str h' = hp_str h \<and> hp_quota h' = hp_quota h"
proof -
  obtain h0 where h0: "buf_init b h = Inr h0" "buf_rep h0 b [] []" "added h h0 []" "hp_quota h0 = hp_quota h"
    by (rule buf_init_ok [OF assms(1,2)])
  then obtain h1 ys where h1: "for_each (put_rope b) cs h0 = Inr h1"
    "buf_rep h1 b ys (map (\<lambda>c. chunk_text (fst c) (snd c)) cs)" "added h h1 ys"
    using put_ropes_ok [OF h0(2) assms(3) _ h0(3)] assms(4) by auto
  note a = h1(3) [unfolded added_def]
  have "hp_str (without_ropes h1 ys) = hp_str h" using a by (auto simp: without_ropes_def fun_eq_iff)
  moreover have "hp_live (without_ropes h1 ys) = hp_live h" "hp_quota (without_ropes h1 ys) = hp_quota h"
    using a by (auto simp: without_ropes_def)
  ultimately show ?thesis using h0(1) h1(1) buf_destroy_ok [OF h1(2)] by simp
qed

theorem rope_buffer_destroy_frees_witness:
  "\<exists>h'. rbind (buf_init 8 (head_heap 9)) (\<lambda>h0. rbind (for_each (put_rope 8) [([65, 66, 67], 2)] h0) (buf_destroy 8)) = Inr h' \<and>
     hp_live h' = hp_live (head_heap 9) \<and> hp_str h' = hp_str (head_heap 9) \<and> hp_quota h' = hp_quota (head_heap 9)"
  by (rule rope_buffer_destroy_frees) (simp_all add: head_heap_wf chunk_ok_def)

text \<open>
  \<open>buf_destroy\<close> leaves the list head pointing at the freed ropes: dumping a destroyed buffer that
  was not empty reads freed memory.
\<close>

theorem rope_buffer_dump_after_destroy:
  assumes "buf_rep h b (x # xs) ss"
  shows "rbind (buf_destroy b h) (buf_dump b) = Inl UseAfterFree"
proof -
  note r = assms [unfolded buf_rep_def dll_def]
  have "x \<noteq> 0" using r by (auto simp: heap_wf_def)
  moreover have "x \<noteq> b" "hp_lnext h b = x" "b \<in> hp_live h" "b \<notin> set (x # xs)" using r by auto
  ultimately show ?thesis
    using buf_destroy_ok [OF assms]
    by (simp add: buf_dump_def lget_next_def live_def dump_loop.simps [of b x] rope_isleaf_def)
qed

theorem rope_buffer_dump_after_destroy_witness:
  "\<exists>h x xs ss. buf_rep h 8 (x # xs) ss \<and> rbind (buf_destroy 8 h) (buf_dump 8) = Inl UseAfterFree"
proof -
  obtain h0 where h0: "buf_rep h0 8 [] []" "hp_quota h0 = 9"
    using buf_init_ok [OF head_heap_wf(1,2), of 9] head_heap_wf(3) by metis
  obtain x h where "buf_rep h 8 ([] @ [x]) ([] @ [chunk_text [65] 1])"
    by (rule buf_write_ok [OF h0(1), of "[65]" 1]) (use h0(2) in auto)
  with rope_buffer_dump_after_destroy [of h 8 x "[]"] show ?thesis by auto
qed

end
