(* ===== verification/Hex_Trie.thy ===== *)
theory Hex_Trie
  imports Trie
begin

text \<open>
  The trie of \<open>src/snippets/trie.c\<close>, an early version of that of \<open>util.c\<close> with 16 children to a node and \<open>int\<close>
  digits for keys.  It is shown to agree with the trie of \<open>util.c\<close> on its own heap (\<open>view\<close>).
\<close>

section \<open>Nodes and operations\<close>

record hnode =
  h_isleaf :: bool
  h_children :: "addr option list"     \<comment> \<open>\<open>children[16]\<close>\<close>

record hheap =
  h_mem :: "addr \<Rightarrow> hnode option"
  h_next :: addr
  h_quota :: nat

definition hex_zero :: hnode where
  "hex_zero = \<lparr>h_isleaf = False, h_children = replicate 16 None\<rparr>"

definition hex_node :: "addr \<Rightarrow> hheap \<Rightarrow> hnode res" where
  "hex_node a h = (case h_mem h a of None \<Rightarrow> Inl UseAfterFree | Some n \<Rightarrow> Inr n)"

text \<open>\<open>malloc\<close> is not checked; the \<open>memset\<close> of a null pointer is an error.\<close>

definition hex_init :: "addr option \<Rightarrow> hheap \<Rightarrow> (addr option \<times> hheap) res" where
  "hex_init root h =
     (case root of
        Some a \<Rightarrow> Inr (Some a, h)
      | None \<Rightarrow>
          if h_quota h = 0 then Inl NullDeref
          else Inr (Some (h_next h),
                    h\<lparr>h_next := Suc (h_next h), h_quota := h_quota h - 1, h_mem := (h_mem h)(h_next h \<mapsto> hex_zero)\<rparr>))"

text \<open>\<open>node->children[idx]\<close>; the index is not checked by the code.\<close>

definition hex_child :: "addr \<Rightarrow> int \<Rightarrow> hheap \<Rightarrow> addr option res" where
  "hex_child node idx h =
     rbind (hex_node node h) (\<lambda>n. if 0 \<le> idx then rd (h_children n) (nat idx) else Inl OutOfBounds)"

definition hex_set_child :: "addr \<Rightarrow> int \<Rightarrow> addr option \<Rightarrow> hheap \<Rightarrow> hheap res" where
  "hex_set_child node idx c h =
     rbind (hex_node node h) (\<lambda>n.
     Inr (h\<lparr>h_mem := (h_mem h)(node \<mapsto> n\<lparr>h_children := (h_children n)[nat idx := c]\<rparr>)\<rparr>))"

text \<open>The loops from \<open>i\<close> on; the first argument is \<open>size - i\<close>.\<close>

fun hex_insert_loop :: "nat \<Rightarrow> addr \<Rightarrow> int list \<Rightarrow> nat \<Rightarrow> hheap \<Rightarrow> (addr \<times> hheap) res" where
  "hex_insert_loop 0 node hex i h = Inr (node, h)"
| "hex_insert_loop (Suc k) node hex i h =
     rbind (rd hex i) (\<lambda>idx.
     rbind (hex_child node idx h) (\<lambda>c.
     case c of
       Some c' \<Rightarrow> hex_insert_loop k c' hex (Suc i) h
     | None \<Rightarrow>
         rbind (hex_init None h) (\<lambda>(c', h1).
         rbind (hex_set_child node idx c' h1) (\<lambda>h2.
         case c' of None \<Rightarrow> Inl NullDeref | Some n \<Rightarrow> hex_insert_loop k n hex (Suc i) h2))))"

fun hex_lookup_loop :: "nat \<Rightarrow> addr \<Rightarrow> int list \<Rightarrow> nat \<Rightarrow> hheap \<Rightarrow> addr option res" where
  "hex_lookup_loop 0 node hex i h = Inr (Some node)"
| "hex_lookup_loop (Suc k) node hex i h =
     rbind (rd hex i) (\<lambda>idx.
     rbind (hex_child node idx h) (\<lambda>c.
     case c of None \<Rightarrow> Inr None | Some c' \<Rightarrow> hex_lookup_loop k c' hex (Suc i) h))"

text \<open>\<open>trie_insert\<close> asserts the size and the key only, and returns the node whether the key is new or not.\<close>

definition hex_insert :: "addr option \<Rightarrow> int list \<Rightarrow> int \<Rightarrow> hheap \<Rightarrow> (addr \<times> hheap) res" where
  "hex_insert root hex sz h =
     (if sz \<le> 0 then Inl AssertFail
      else case root of None \<Rightarrow> Inl NullDeref
        | Some r \<Rightarrow>
            rbind (hex_insert_loop (nat sz) r hex 0 h) (\<lambda>(node, h1).
            rbind (hex_node node h1) (\<lambda>n.
            Inr (node, h1\<lparr>h_mem := (h_mem h1)(node \<mapsto> n\<lparr>h_isleaf := True\<rparr>)\<rparr>))))"

definition hex_lookup :: "addr option \<Rightarrow> int list \<Rightarrow> int \<Rightarrow> hheap \<Rightarrow> addr option res" where
  "hex_lookup root hex sz h =
     (case root of None \<Rightarrow> Inl AssertFail
      | Some r \<Rightarrow>
          if sz \<le> 0 then Inl AssertFail
          else rbind (hex_lookup_loop (nat sz) r hex 0 h) (\<lambda>w.
            case w of None \<Rightarrow> Inr None
            | Some node \<Rightarrow> rbind (hex_node node h) (\<lambda>n. Inr (if h_isleaf n then Some node else None))))"

fun hex_destroy_children :: "(addr \<Rightarrow> hheap \<Rightarrow> hheap res) \<Rightarrow> addr \<Rightarrow> nat list \<Rightarrow> hheap \<Rightarrow> hheap res" where
  "hex_destroy_children destroy root [] h = Inr h"
| "hex_destroy_children destroy root (i # is) h =
     rbind (hex_child root (int i) h) (\<lambda>c.
     case c of
       None \<Rightarrow> hex_destroy_children destroy root is h
     | Some c' \<Rightarrow> rbind (destroy c' h) (hex_destroy_children destroy root is))"

fun hex_destroy :: "nat \<Rightarrow> addr \<Rightarrow> hheap \<Rightarrow> hheap res" where
  "hex_destroy 0 root h = Inl OutOfFuel"
| "hex_destroy (Suc d) root h =
     rbind (hex_destroy_children (hex_destroy d) root [0..<16] h) (\<lambda>h1.
     rbind (hex_node root h1) (\<lambda>n. Inr (h1\<lparr>h_mem := (h_mem h1)(root := None), h_quota := Suc (h_quota h1)\<rparr>)))"

section \<open>The heap as one of \<open>util.c\<close>\<close>

definition view_node :: "hnode \<Rightarrow> tnode" where
  "view_node n =
     \<lparr>isleaf = h_isleaf n, children = (\<lambda>k. if unat k < 16 then h_children n ! unat k else None)\<rparr>"

definition view :: "hheap \<Rightarrow> theap" where
  "view h = \<lparr>t_mem = (\<lambda>a. map_option view_node (h_mem h a)), t_next = h_next h, t_quota = h_quota h\<rparr>"

definition hex_ok :: "hheap \<Rightarrow> bool" where
  "hex_ok h \<longleftrightarrow> (\<forall>a n. h_mem h a = Some n \<longrightarrow> length (h_children n) = 16)"

definition digits :: "int list \<Rightarrow> bool" where
  "digits hex \<longleftrightarrow> (\<forall>x \<in> set hex. 0 \<le> x \<and> x < 16)"

lemma view_select [simp]:
  "t_mem (view h) a = map_option view_node (h_mem h a)" "t_next (view h) = h_next h" "t_quota (view h) = h_quota h"
  by (simp_all add: view_def)

lemma digit_unat: "0 \<le> x \<Longrightarrow> x < 16 \<Longrightarrow> unat (of_int x :: byte) = nat x"
  by (simp add: unsigned_of_int take_bit_int_eq_self)

lemma deref_view: "deref a (view h) = map_sum id view_node (hex_node a h)"
  by (simp add: deref_def hex_node_def split: option.split)

lemma view_put:
  "view (h\<lparr>h_mem := (h_mem h)(a \<mapsto> n)\<rparr>) = (view h)\<lparr>t_mem := (t_mem (view h))(a \<mapsto> view_node n)\<rparr>"
  by (simp add: view_def fun_eq_iff)

lemma hex_child_view:
  assumes "hex_ok h" and "0 \<le> x" and "x < 16"
  shows "hex_child a x h = rbind (deref a (view h)) (\<lambda>n. Inr (children n (of_int x)))"
  using assms by (auto simp: hex_child_def deref_view hex_node_def hex_ok_def digit_unat view_node_def split: option.split)

lemma hex_set_child_view:
  assumes "hex_ok h" and "0 \<le> x" and "x < 16"
  shows "map_sum id view (hex_set_child a x c h) = set_child a (of_int x) c (view h)"
    and "hex_set_child a x c h = Inr h' \<Longrightarrow> hex_ok h'"
proof -
  have "view_node (n\<lparr>h_children := (h_children n)[nat x := c]\<rparr>) =
      (view_node n)\<lparr>children := (children (view_node n))(of_int x := c)\<rparr>" if "length (h_children n) = 16" for n
  proof -
    have i: "nat x < length (h_children n)" using that assms(2,3) by simp
    have "(if unat k < 16 then (h_children n)[nat x := c] ! unat k else None) =
        ((\<lambda>k. if unat k < 16 then h_children n ! unat k else None)(of_int x := c)) k" for k :: byte
    proof (cases "k = of_int x")
      case True
      then show ?thesis using i that by (simp add: digit_unat [OF assms(2,3)])
    next
      case False
      then have "nat x \<noteq> unat k" using digit_unat [OF assms(2,3)] by (metis unsigned_word_eqI)
      with False show ?thesis by simp
    qed
    then have "(\<lambda>k :: byte. if unat k < 16 then (h_children n)[nat x := c] ! unat k else None) =
        (\<lambda>k. if unat k < 16 then h_children n ! unat k else None)(of_int x := c)" by blast
    then show ?thesis by (simp add: view_node_def cong: if_cong)
  qed
  then show "map_sum id view (hex_set_child a x c h) = set_child a (of_int x) c (view h)"
    using assms(1) by (auto simp: hex_set_child_def set_child_def deref_view hex_node_def hex_ok_def view_put
        split: option.split)
  show "hex_set_child a x c h = Inr h' \<Longrightarrow> hex_ok h'"
    using assms(1) by (auto simp: hex_set_child_def hex_node_def hex_ok_def split: option.splits if_splits)
qed

lemma hex_init_view:
  "map_sum id (map_prod id view) (hex_init root h) = trie_init root (view h)"
  by (auto simp: hex_init_def trie_init_def trie_malloc_def memset_node_def view_def fun_eq_iff hex_zero_def zero_node_def
      view_node_def split: option.split)

lemma hex_init_ok: "hex_init root h = Inr (c, h') \<Longrightarrow> hex_ok h \<Longrightarrow> hex_ok h'"
  by (auto simp: hex_init_def hex_ok_def hex_zero_def split: option.splits if_splits)

lemma digits_nth: "digits hex \<Longrightarrow> i < length hex \<Longrightarrow> 0 \<le> hex ! i \<and> hex ! i < 16"
  by (simp add: digits_def)

lemma view_result: "map_sum id f m = rbind m (\<lambda>x. Inr (f x))"
  by (cases m) simp_all

text \<open>One round of the loop of \<open>trie_insert\<close>.\<close>

definition hex_round :: "addr \<Rightarrow> int \<Rightarrow> hheap \<Rightarrow> (addr \<times> hheap) res" where
  "hex_round node idx h =
     rbind (hex_child node idx h) (\<lambda>c.
     case c of
       Some c' \<Rightarrow> Inr (c', h)
     | None \<Rightarrow>
         rbind (hex_init None h) (\<lambda>(c', h1).
         rbind (hex_set_child node idx c' h1) (\<lambda>h2. case c' of None \<Rightarrow> Inl NullDeref | Some n \<Rightarrow> Inr (n, h2))))"

lemma insert_loop_round:
  "hex_insert_loop (Suc k) node hex i h =
     rbind (rd hex i) (\<lambda>idx. rbind (hex_round node idx h) (\<lambda>(n, h'). hex_insert_loop k n hex (Suc i) h'))"
  by (auto simp: hex_round_def rbind_def split: sum.split option.split)

lemma hex_round_view:
  assumes "hex_ok h" and "0 \<le> x" and "x < 16"
  shows "map_sum id (map_prod Some view) (hex_round a x h) = walk_child a (of_int x) True (view h)"
    and "hex_round a x h = Inr (c, h') \<Longrightarrow> hex_ok h'"
proof -
  show "hex_round a x h = Inr (c, h') \<Longrightarrow> hex_ok h'"
  proof -
    assume "hex_round a x h = Inr (c, h')"
    then consider "h' = h" | c' h1 where "hex_init None h = Inr (c', h1)" "hex_set_child a x c' h1 = Inr h'"
      by (auto simp: hex_round_def rbind_eq_Inr_iff split: option.splits)
    then show ?thesis
      by cases (use assms(1) hex_init_ok [of None h] hex_set_child_view(2) [OF _ assms(2,3)] in blast)+
  qed
  obtain r where r: "hex_init None h = Inl r \<or> (\<exists>n h1. hex_init None h = Inr (Some n, h1) \<and> hex_ok h1)"
    using hex_init_ok [of None h] assms(1) by (cases "h_quota h = 0") (auto simp: hex_init_def)
  show "map_sum id (map_prod Some view) (hex_round a x h) = walk_child a (of_int x) True (view h)"
  proof (cases "deref a (view h)")
    case (Inl e)
    then show ?thesis using hex_child_view [OF assms, of a] by (simp add: hex_round_def walk_child_def)
  next
    case (Inr n)
    show ?thesis
    proof (cases "children n (of_int x)")
      case None
      have init: "trie_init None (view h) = map_sum id (map_prod id view) (hex_init None h)"
        by (rule hex_init_view [symmetric])
      show ?thesis
        using r
      proof
        assume "hex_init None h = Inl r"
        then show ?thesis using Inr None init hex_child_view [OF assms, of a] by (simp add: hex_round_def walk_child_def)
      next
        assume "\<exists>n h1. hex_init None h = Inr (Some n, h1) \<and> hex_ok h1"
        then obtain m h1 where m: "hex_init None h = Inr (Some m, h1)" "hex_ok h1" by blast
        have "set_child a (of_int x) (Some m) (view h1) = map_sum id view (hex_set_child a x (Some m) h1)"
          by (rule hex_set_child_view(1) [OF m(2) assms(2,3), symmetric])
        then show ?thesis using Inr None init m hex_child_view [OF assms, of a]
          by (cases "hex_set_child a x (Some m) h1") (simp_all add: hex_round_def walk_child_def)
      qed
    next
      case (Some c)
      then show ?thesis using Inr hex_child_view [OF assms, of a] by (simp add: hex_round_def walk_child_def)
    qed
  qed
qed

lemma insert_loop_view:
  "hex_ok h \<Longrightarrow> digits hex \<Longrightarrow> i + k \<le> length hex \<Longrightarrow>
   map_sum id (map_prod Reached view) (hex_insert_loop k node hex i h) =
     walk_list node (map of_int (take k (drop i hex))) True False (view h) \<and>
   (\<forall>n h'. hex_insert_loop k node hex i h = Inr (n, h') \<longrightarrow> hex_ok h')"
proof (induction k arbitrary: node i h)
  case (Suc k)
  then have i: "i < length hex" "take (Suc k) (drop i hex) = hex ! i # take k (drop (Suc i) hex)"
    by (simp_all add: Cons_nth_drop_Suc [symmetric])
  note x = digits_nth [OF Suc.prems(2) i(1)]
  note R = hex_round_view [OF Suc.prems(1) conjunct1 [OF x] conjunct2 [OF x]]
  show ?case
  proof (cases "hex_round node (hex ! i) h")
    case (Inl e)
    then have "walk_child node (of_int (hex ! i)) True (view h) = Inl e" using R(1) [of node] by simp
    then show ?thesis using Inl i by (simp add: insert_loop_round del: hex_insert_loop.simps(2))
  next
    case (Inr p)
    obtain c h1 where p: "p = (c, h1)" by (cases p)
    then have "hex_ok h1" using R(2) Inr by blast
    moreover have "walk_child node (of_int (hex ! i)) True (view h) = Inr (Some c, view h1)"
      using R(1) [of node] Inr p by simp
    ultimately show ?thesis using i Inr p Suc.IH [of h1 "Suc i" c] Suc.prems
      by (simp add: insert_loop_round scan_stops_def del: hex_insert_loop.simps(2))
  qed
qed simp

lemma lookup_loop_view:
  "hex_ok h \<Longrightarrow> digits hex \<Longrightarrow> i + k \<le> length hex \<Longrightarrow>
   map_sum id (\<lambda>w. (case w of None \<Rightarrow> Returned None | Some n \<Rightarrow> Reached n, view h)) (hex_lookup_loop k node hex i h) =
     walk_list node (map of_int (take k (drop i hex))) False False (view h)"
proof (induction k arbitrary: node i)
  case (Suc k)
  then have i: "i < length hex" "take (Suc k) (drop i hex) = hex ! i # take k (drop (Suc i) hex)"
    by (simp_all add: Cons_nth_drop_Suc [symmetric])
  note x = digits_nth [OF Suc.prems(2) i(1)]
  have "hex_child node (hex ! i) h = rbind (deref node (view h)) (\<lambda>n. Inr (children n (of_int (hex ! i))))"
    using hex_child_view [OF Suc.prems(1)] x by blast
  then show ?case
    using i Suc.IH [of "Suc i"] Suc.prems
    by (cases "deref node (view h)") (auto simp: walk_child_def scan_stops_def split: option.split)
qed simp

lemma insert_view:
  assumes "hex_ok h" and "digits hex" and "nat sz \<le> length hex"
  shows "map_sum id (\<lambda>(p, h'). view h') (hex_insert (Some r) hex sz h) =
    map_sum id snd (trie_insert (Some r) (map of_int hex) sz (view h))"
proof (cases "0 < sz")
  case True
  have loop: "walk_loop r (map of_int hex) sz 0 True False (view h) =
      map_sum id (map_prod Reached view) (hex_insert_loop (nat sz) r hex 0 h)"
    using insert_loop_view [OF assms(1,2), of 0 "nat sz" r] assms(3)
    by (simp add: walk_loop_list take_map)
  show ?thesis
  proof (cases "hex_insert_loop (nat sz) r hex 0 h")
    case (Inl e)
    then show ?thesis using True loop by (simp add: hex_insert_def trie_insert_def assert_args_def trie_walk_def)
  next
    case (Inr p)
    obtain a h1 where p: "p = (a, h1)" by (cases p)
    have leaf: "view (h1\<lparr>h_mem := (h_mem h1)(a \<mapsto> n\<lparr>h_isleaf := True\<rparr>)\<rparr>) =
        (view h1)\<lparr>t_mem := (t_mem (view h1))(a \<mapsto> (view_node n)\<lparr>isleaf := True\<rparr>)\<rparr>" for n
      unfolding view_put by (simp add: view_node_def cong: if_cong)
    have same: "(view h1)\<lparr>t_mem := (t_mem (view h1))(a \<mapsto> (view_node n)\<lparr>isleaf := True\<rparr>)\<rparr> = view h1"
      if "h_mem h1 a = Some n" "isleaf (view_node n)" for n
    proof -
      have "(view_node n)\<lparr>isleaf := True\<rparr> = view_node n" using that(2) by (cases "view_node n") simp
      with that(1) show ?thesis by (simp add: view_def fun_eq_iff)
    qed
    show ?thesis
      using True loop Inr p leaf same
      by (cases "h_mem h1 a")
        (simp_all add: hex_insert_def trie_insert_def assert_args_def trie_walk_def deref_view hex_node_def set_leaf_def
          deref_def)
  qed
qed (simp add: hex_insert_def trie_insert_def assert_args_def)

lemma lookup_view:
  assumes "hex_ok h" and "digits hex" and "nat sz \<le> length hex"
  shows "map_sum id (\<lambda>p. (p, view h)) (hex_lookup (Some r) hex sz h) = trie_lookup (Some r) (map of_int hex) sz (view h)"
proof (cases "0 < sz")
  case True
  have loop: "walk_loop r (map of_int hex) sz 0 False False (view h) =
      map_sum id (\<lambda>w. (case w of None \<Rightarrow> Returned None | Some n \<Rightarrow> Reached n, view h)) (hex_lookup_loop (nat sz) r hex 0 h)"
    using lookup_loop_view [OF assms(1,2), of 0 "nat sz" r] assms(3)
    by (simp add: walk_loop_list take_map)
  show ?thesis
  proof (cases "hex_lookup_loop (nat sz) r hex 0 h")
    case (Inl e)
    then show ?thesis using True loop by (simp add: hex_lookup_def trie_lookup_def assert_args_def trie_walk_def)
  next
    case (Inr w)
    show ?thesis
    proof (cases w)
      case None
      then show ?thesis using True loop Inr by (simp add: hex_lookup_def trie_lookup_def assert_args_def trie_walk_def)
    next
      case (Some a)
      then show ?thesis using True loop Inr
        by (cases "h_mem h a")
          (simp_all add: hex_lookup_def trie_lookup_def assert_args_def trie_walk_def deref_view hex_node_def view_node_def)
    qed
  qed
qed (simp add: hex_lookup_def trie_lookup_def assert_args_def)

section \<open>Destruction\<close>

lemma destroy_children_append:
  "destroy_children f root (is @ js) h = rbind (destroy_children f root is h) (destroy_children f root js)"
  by (induction "is" arbitrary: h) (auto simp: rbind_assoc rbind_def split: sum.split option.split)

text \<open>A node has no child under a byte that is not a digit.\<close>

lemma destroy_no_digit:
  "\<forall>k \<in> set ks. 16 \<le> unat k \<Longrightarrow> ks \<noteq> [] \<Longrightarrow>
   destroy_children f root ks (view h) = rbind (deref root (view h)) (\<lambda>n. Inr (view h))"
proof (induction ks)
  case (Cons k ks)
  show ?case
  proof (cases "h_mem h root")
    case (Some n)
    then have "children (view_node n) k = None" using Cons.prems(1) by (simp add: view_node_def)
    then show ?thesis using Some Cons by (cases "ks = []") (simp_all add: deref_def)
  qed (simp add: deref_def)
qed simp

lemma destroy_children_view:
  assumes f: "\<And>c h. hex_ok h \<Longrightarrow> map_sum id view (f c h) = g c (view h) \<and> (\<forall>h'. f c h = Inr h' \<longrightarrow> hex_ok h')"
  shows "\<forall>i \<in> set is. i < 16 \<Longrightarrow> hex_ok h \<Longrightarrow>
    map_sum id view (hex_destroy_children f root is h) = destroy_children g root (map of_nat is) (view h) \<and>
    (\<forall>h'. hex_destroy_children f root is h = Inr h' \<longrightarrow> hex_ok h')"
proof (induction "is" arbitrary: h)
  case (Cons i "is")
  have child: "hex_child root (int i) h = rbind (deref root (view h)) (\<lambda>n. Inr (children n (of_nat i)))"
    using hex_child_view [OF Cons.prems(2), of "int i" root] Cons.prems(1) by simp
  show ?case
  proof (cases "deref root (view h)")
    case (Inr n)
    show ?thesis
    proof (cases "children n (of_nat i)")
      case None
      then show ?thesis using Cons child Inr by simp
    next
      case (Some c)
      show ?thesis
      proof (cases "f c h")
        case (Inl e)
        then have "g c (view h) = Inl e" using f [OF Cons.prems(2), of c] by simp
        then show ?thesis using Inl Some Inr child by simp
      next
        case h1: (Inr h1)
        then have "g c (view h) = Inr (view h1)" "hex_ok h1" using f [OF Cons.prems(2), of c] by simp_all
        then show ?thesis using h1 Some Inr child Cons.IH [of h1] Cons.prems(1) by simp
      qed
    qed
  qed (simp add: child)
qed simp

lemma destroy_view:
  "hex_ok h \<Longrightarrow> map_sum id view (hex_destroy d root h) = trie_destroy d root (view h) \<and>
    (\<forall>h'. hex_destroy d root h = Inr h' \<longrightarrow> hex_ok h')"
proof (induction d arbitrary: root h)
  case (Suc d)
  have "[0..<16 + 240] = [0..<16] @ [16..<16 + 240 :: nat]" by (rule upt_add_eq_append) simp
  moreover have "16 + 240 = (256 :: nat)" by simp
  ultimately have bytes: "all_bytes = map of_nat [0..<16] @ map of_nat [16..<256]"
    by (simp only: all_bytes_def map_append)
  have high: "\<forall>k \<in> set (map of_nat [16..<256] :: byte list). 16 \<le> unat k"
    by (auto simp: unat_of_nat)
  have C: "map_sum id view (hex_destroy_children (hex_destroy d) root [0..<16] h) =
      destroy_children (trie_destroy d) root (map of_nat [0..<16]) (view h)"
    "\<And>h'. hex_destroy_children (hex_destroy d) root [0..<16] h = Inr h' \<Longrightarrow> hex_ok h'"
    using destroy_children_view [of "hex_destroy d" "trie_destroy d" "[0..<16]" h root] Suc by auto
  show ?case
  proof (cases "hex_destroy_children (hex_destroy d) root [0..<16] h")
    case (Inl e)
    then have "destroy_children (trie_destroy d) root (map of_nat [0..<16]) (view h) = Inl e" using C(1) by simp
    then show ?thesis using Inl by (simp add: bytes destroy_children_append)
  next
    case (Inr h1)
    then have "destroy_children (trie_destroy d) root (map of_nat [0..<16]) (view h) = Inr (view h1)" "hex_ok h1"
      using C by auto
    moreover have "map_sum id view (rbind (hex_node root h1) (\<lambda>n.
        Inr (h1\<lparr>h_mem := (h_mem h1)(root := None), h_quota := Suc (h_quota h1)\<rparr>))) =
      rbind (rbind (deref root (view h1)) (\<lambda>n. Inr (view h1))) (trie_free root)"
      by (cases "h_mem h1 root") (auto simp: hex_node_def deref_def trie_free_def view_def fun_eq_iff)
    ultimately show ?thesis
      using Inr destroy_no_digit [OF high, of "trie_destroy d" root h1]
      by (simp add: bytes destroy_children_append) (auto simp: hex_node_def hex_ok_def rbind_eq_Inr_iff split: option.splits if_splits)
  qed
qed simp

text \<open>
  C18: the trie of the snippet behaves as that of \<open>util.c\<close> on keys of digits below 16: \<open>trie_insert\<close>
  makes the same heap or fails in the same way, \<open>trie_lookup\<close> gives the same answer and \<open>trie_destroy\<close> frees the same
  nodes.  Only what \<open>trie_insert\<close> returns differs: the node, whether the key is new or not.
\<close>

theorem hex_trie_agrees:
  assumes "hex_ok h" and "digits hex" and "nat sz \<le> length hex"
  shows "map_sum id (\<lambda>(p, h'). view h') (hex_insert (Some r) hex sz h) =
      map_sum id snd (trie_insert (Some r) (map of_int hex) sz (view h)) \<and>
    map_sum id (\<lambda>p. (p, view h)) (hex_lookup (Some r) hex sz h) = trie_lookup (Some r) (map of_int hex) sz (view h) \<and>
    map_sum id view (hex_destroy d r h) = trie_destroy d r (view h) \<and>
    map_sum id (map_prod id view) (hex_init root h) = trie_init root (view h)"
  using insert_view [OF assms] lookup_view [OF assms] destroy_view [OF assms(1)] hex_init_view by blast

definition hex_root :: hheap where
  "hex_root = \<lparr>h_mem = [0 \<mapsto> hex_zero], h_next = 1, h_quota = 9\<rparr>"

lemma hex_trie_agrees_witness:
  "map_sum id (\<lambda>(p, h'). view h') (hex_insert (Some 0) [8, 15, 3] 3 hex_root) =
      map_sum id snd (trie_insert (Some 0) [8, 15, 3] 3 (view hex_root)) \<and>
    map_sum id (\<lambda>p. (p, view hex_root)) (hex_lookup (Some 0) [8, 15, 3] 3 hex_root) =
      trie_lookup (Some 0) [8, 15, 3] 3 (view hex_root) \<and>
    map_sum id view (hex_destroy 2 0 hex_root) = trie_destroy 2 0 (view hex_root) \<and>
    map_sum id (map_prod id view) (hex_init None hex_root) = trie_init None (view hex_root)"
  using hex_trie_agrees [of hex_root "[8, 15, 3]" 3 0 2 None] by (simp add: hex_ok_def digits_def hex_root_def hex_zero_def)

end
