(* ===== verification/Filemagic.thy ===== *)
theory Filemagic
  imports Prelude
begin

text \<open>
  The snippet \<open>src/snippets/filemagic.c\<close>, which prints the first four bytes of a file as a hexadecimal number, the
  form in which the header files of object formats give their magic numbers.

  The machine is little endian.  \<open>open\<close> and the bytes \<open>read\<close> delivers are parameters, as are the sixteen bytes of the
  stack where \<open>buf\<close> is: a file of fewer than four bytes leaves the rest of them as they were.
\<close>

section \<open>The program\<close>

record fm_env =
  fm_open :: "byte list \<Rightarrow> bool"
  fm_read :: "byte list \<Rightarrow> byte list"
  fm_junk :: "byte list"

text \<open>\<open>*(unsigned int *)buf\<close>\<close>

definition load_u32 :: "byte list \<Rightarrow> nat res" where
  "load_u32 buf =
     rbind (rd buf 0) (\<lambda>b0. rbind (rd buf 1) (\<lambda>b1. rbind (rd buf 2) (\<lambda>b2. rbind (rd buf 3) (\<lambda>b3.
     Inr (unat b0 + 2 ^ 8 * unat b1 + 2 ^ 16 * unat b2 + 2 ^ 24 * unat b3)))))"

text \<open>\<open>%x\<close>\<close>

definition hex_digit :: "nat \<Rightarrow> byte" where
  "hex_digit d = of_nat (if d < 10 then 48 + d else 87 + d)"

fun hex_digits :: "nat \<Rightarrow> byte list" where
  "hex_digits n = (if n < 16 then [hex_digit n] else hex_digits (n div 16) @ [hex_digit (n mod 16)])"

declare hex_digits.simps [simp del]

text \<open>What \<open>main\<close> prints on the standard output before it returns 0.\<close>

definition filemagic_main :: "fm_env \<Rightarrow> byte list list \<Rightarrow> byte list res" where
  "filemagic_main env argv =
     (if length argv \<noteq> 2 then Inl (ExitWith 1)
      else
        rbind (rd argv 1) (\<lambda>path.
        if \<not> fm_open env path then Inl (ExitWith 1)
        else
          let got = take 4 (fm_read env path);
              buf = got @ drop (length got) (fm_junk env)
          in rbind (load_u32 buf) (\<lambda>n. Inr (hex_digits n @ [newline]))))"

section \<open>What it prints\<close>

definition hex_value :: "byte list \<Rightarrow> nat" where
  "hex_value ds = foldl (\<lambda>a c. 16 * a + (if unat c < 58 then unat c - 48 else unat c - 87)) 0 ds"

lemma unat_hex_digit: "d < 16 \<Longrightarrow> unat (hex_digit d) = (if d < 10 then 48 + d else 87 + d)"
  by (simp add: hex_digit_def unat_of_nat del: of_nat_add)

lemma hex_value_digits: "hex_value (hex_digits n) = n"
proof (induction n rule: hex_digits.induct)
  case (1 n)
  show ?case
  proof (cases "n < 16")
    case True
    then show ?thesis by (simp add: hex_digits.simps [of n] hex_value_def unat_hex_digit)
  next
    case False
    then have "hex_value (hex_digits n) = 16 * hex_value (hex_digits (n div 16)) + n mod 16"
      by (simp add: hex_digits.simps [of n] hex_value_def unat_hex_digit)
    also have "\<dots> = n" using 1 False by simp
    finally show ?thesis .
  qed
qed

text \<open>
  For a file of at least four bytes the number printed reads back as its first four bytes, the lowest one first,
  whatever the stack holds; a shorter file makes it depend on the stack.
\<close>

theorem filemagic_prints_magic:
  assumes "fm_open env path" and "fm_read env path = b0 # b1 # b2 # b3 # rest"
  shows "\<exists>ds. filemagic_main env [prog, path] = Inr (ds @ [newline]) \<and>
    hex_value ds = unat b0 + 2 ^ 8 * unat b1 + 2 ^ 16 * unat b2 + 2 ^ 24 * unat b3"
  using assms by (simp add: filemagic_main_def load_u32_def hex_value_digits)

theorem filemagic_prints_magic_witness:
  "\<exists>ds. filemagic_main \<lparr>fm_open = \<lambda>p. True, fm_read = \<lambda>p. [0xCE, 0xFA, 0xED, 0xFE, 7], fm_junk = replicate 16 0\<rparr> [[], []] =
     Inr (ds @ [newline]) \<and> hex_value ds = 0xFEEDFACE"
  using filemagic_prints_magic [of "\<lparr>fm_open = \<lambda>p. True, fm_read = \<lambda>p. [0xCE, 0xFA, 0xED, 0xFE, 7], fm_junk = replicate 16 0\<rparr>" "[]"]
  by simp

theorem filemagic_short_file:
  assumes "fm_open env path" and "fm_read env path = [b0, b1, b2]" and "fm_junk env = [j0, j1, j2, j3] @ js"
  shows "filemagic_main env [prog, path] =
    Inr (hex_digits (unat b0 + 2 ^ 8 * unat b1 + 2 ^ 16 * unat b2 + 2 ^ 24 * unat j3) @ [newline])"
  using assms by (simp add: filemagic_main_def load_u32_def)

end
