(* ===== verification/Lcrq.thy ===== *)
theory Lcrq
  imports Prelude "HOL-Library.Multiset"
begin

text \<open>
  The concurrent queue of \<open>src/snippets/lcrq.c\<close>, which \<open>thread.c\<close> plans to put in place of the pipe:
  the data and the operations.

  A queue is a linked list of rings of \<open>2 ^ pw\<close> cells (\<open>pw\<close> is \<open>RING_POW\<close>).  An operation draws a ticket
  by fetch-and-add from the ring's head or tail and works on the cell of that ticket by double-word
  compare-and-swap.  Every access of a thread to shared memory is one step: \<open>enq_step\<close> and \<open>deq_step\<close>
  execute the step at a program point and give the next one, or the end of the call.  \<open>lcrq_step\<close>
  interleaves any number of threads.

  \<open>FAA64\<close>, \<open>CAS64\<close> and \<open>CASPTR\<close> are the atomic fetch-and-add and compare-and-swap of the compiler.
  \<open>getMemory\<close> is a parameter, the function \<open>gm\<close> from the number of a call to the address it delivers; as
  nothing is ever freed, all that is asked of it is that it is injective (\<open>getMemory_ok\<close>).  Hazard
  pointers and statistics are compiled out.
\<close>

unbundle bit_operations_syntax

section \<open>Tickets and indices\<close>

type_synonym u64 = "64 word"

definition UNSAFE_BIT :: u64 where
  "UNSAFE_BIT = push_bit 63 1"

definition RING_SIZE :: "nat \<Rightarrow> u64" where
  "RING_SIZE pw = push_bit pw 1"

definition is_empty :: "u64 \<Rightarrow> bool" where
  "is_empty v \<longleftrightarrow> v = - 1"

definition node_index :: "u64 \<Rightarrow> u64" where
  "node_index i = i AND NOT UNSAFE_BIT"

definition set_unsafe :: "u64 \<Rightarrow> u64" where
  "set_unsafe i = i OR UNSAFE_BIT"

definition node_unsafe :: "u64 \<Rightarrow> u64" where
  "node_unsafe i = i AND UNSAFE_BIT"

definition tail_index :: "u64 \<Rightarrow> u64" where
  "tail_index t = t AND NOT UNSAFE_BIT"

definition crq_is_closed :: "u64 \<Rightarrow> bool" where
  "crq_is_closed t \<longleftrightarrow> t AND UNSAFE_BIT \<noteq> 0"

text \<open>The cell of a ticket: \<open>t & (RING_SIZE-1)\<close>.\<close>

definition slot :: "nat \<Rightarrow> u64 \<Rightarrow> nat" where
  "slot pw t = unat (t AND (RING_SIZE pw - 1))"

section \<open>Rings\<close>

record RingNode =
  n_val :: u64
  n_idx :: u64

record RingQueue =
  rq_head :: u64
  rq_tail :: u64
  rq_next :: "addr option"
  rq_array :: "RingNode list"

record lcrq =
  q_head :: addr
  q_tail :: addr
  q_mem :: "addr \<rightharpoonup> RingQueue"
  q_allocs :: nat             \<comment> \<open>the calls of \<open>getMemory\<close> so far\<close>

definition init_ring :: "nat \<Rightarrow> RingQueue" where
  "init_ring pw =
     \<lparr>rq_head = 0, rq_tail = 0, rq_next = None,
      rq_array = map (\<lambda>i. \<lparr>n_val = - 1, n_idx = of_nat i\<rparr>) [0..<2 ^ pw]\<rparr>"

text \<open>Checked accesses to a ring and to the cell of a ticket.\<close>

definition ring :: "lcrq \<Rightarrow> addr \<Rightarrow> RingQueue res" where
  "ring q a = (case q_mem q a of None \<Rightarrow> Inl UseAfterFree | Some r \<Rightarrow> Inr r)"

definition put_ring :: "addr \<Rightarrow> RingQueue \<Rightarrow> lcrq \<Rightarrow> lcrq" where
  "put_ring a r q = q\<lparr>q_mem := (q_mem q)(a \<mapsto> r)\<rparr>"

definition cell :: "nat \<Rightarrow> lcrq \<Rightarrow> addr \<Rightarrow> u64 \<Rightarrow> RingNode res" where
  "cell pw q a t = rbind (ring q a) (\<lambda>r. rd (rq_array r) (slot pw t))"

text \<open>\<open>CAS2\<close> on the cell of ticket \<open>t\<close>: value and index are compared and replaced together.\<close>

definition CAS2 :: "nat \<Rightarrow> addr \<Rightarrow> u64 \<Rightarrow> u64 \<Rightarrow> u64 \<Rightarrow> u64 \<Rightarrow> u64 \<Rightarrow> lcrq \<Rightarrow> (bool \<times> lcrq) res" where
  "CAS2 pw a t o1 o2 n1 n2 q =
     rbind (ring q a) (\<lambda>r.
     rbind (rd (rq_array r) (slot pw t)) (\<lambda>n.
     Inr (if n_val n = o1 \<and> n_idx n = o2
          then (True, put_ring a (r\<lparr>rq_array := (rq_array r)[slot pw t := \<lparr>n_val = n1, n_idx = n2\<rparr>]\<rparr>) q)
          else (False, q))))"

definition getMemory_ok :: "(nat \<Rightarrow> addr) \<Rightarrow> bool" where
  "getMemory_ok gm \<longleftrightarrow> inj gm"

definition SHARED_OBJECT_INIT :: "(nat \<Rightarrow> addr) \<Rightarrow> nat \<Rightarrow> bool \<Rightarrow> lcrq" where
  "SHARED_OBJECT_INIT gm pw FULL =
     (let r = init_ring pw;
          r' = (if FULL
                then r\<lparr>rq_array := map (\<lambda>i. \<lparr>n_val = 0, n_idx = of_nat i\<rparr>) [0..<2 ^ pw div 2] @ drop (2 ^ pw div 2) (rq_array r),
                       rq_tail := of_nat (2 ^ pw div 2)\<rparr>
                else r)
      in \<lparr>q_head = gm 0, q_tail = gm 0, q_mem = [gm 0 \<mapsto> r'], q_allocs = 1\<rparr>)"

text \<open>
  \<open>BIT_TEST_AND_SET\<close> sets bit 63 of a word, whatever bit it is called with, and tells whether it was clear.
\<close>

definition BIT_TEST_AND_SET :: "u64 \<Rightarrow> bool \<times> u64" where
  "BIT_TEST_AND_SET v = (\<not> bit v 63, set_bit 63 v)"

text \<open>\<open>close_crq\<close>: after ten attempts the bit is set whatever the tail is.\<close>

definition close_crq :: "addr \<Rightarrow> u64 \<Rightarrow> nat \<Rightarrow> lcrq \<Rightarrow> (bool \<times> lcrq) res" where
  "close_crq a t tries q =
     rbind (ring q a) (\<lambda>r.
     Inr (if tries < 10
          then (if rq_tail r = t + 1 then (True, put_ring a (r\<lparr>rq_tail := (t + 1) OR UNSAFE_BIT\<rparr>) q) else (False, q))
          else case BIT_TEST_AND_SET (rq_tail r) of (clear, t') \<Rightarrow> (clear, put_ring a (r\<lparr>rq_tail := t'\<rparr>) q)))"

lemma bit_unsafe [simp]: "bit UNSAFE_BIT n \<longleftrightarrow> n = 63"
  unfolding UNSAFE_BIT_def bit_push_bit_iff by (auto simp: bit_1_iff)

lemma BIT_TEST_AND_SET_closed [simp]: "BIT_TEST_AND_SET v = (\<not> crq_is_closed v, v OR UNSAFE_BIT)"
proof -
  have "v AND UNSAFE_BIT \<noteq> 0 \<longleftrightarrow> bit v 63"
    unfolding bit_eq_iff [of "v AND UNSAFE_BIT"] by (auto simp: bit_and_iff)
  moreover have "set_bit 63 v = v OR UNSAFE_BIT"
    by (auto intro!: bit_eqI simp: bit_or_iff bit_set_bit_iff)
  ultimately show ?thesis by (simp add: BIT_TEST_AND_SET_def crq_is_closed_def)
qed

section \<open>Enqueue\<close>

text \<open>
  The thread-local variables of a call: the argument, \<open>try_close\<close> and the spare ring \<open>nrq\<close>, which
  outlives the call.
\<close>

record elocal =
  l_arg :: u64
  l_try :: nat
  l_nrq :: "addr option"

datatype enq_pc =
    EReadTail                       \<comment> \<open>\<open>rq = tail\<close>\<close>
  | EReadNext addr                  \<comment> \<open>\<open>next = rq->next\<close>\<close>
  | ESwingTail addr addr            \<comment> \<open>\<open>CASPTR(&tail, rq, next)\<close>\<close>
  | ETicket addr                    \<comment> \<open>\<open>t = FAA64(&rq->tail, 1)\<close>\<close>
  | EReadIdx addr u64               \<comment> \<open>\<open>idx = cell->idx\<close>\<close>
  | EReadVal addr u64 u64           \<comment> \<open>\<open>val = cell->val\<close>\<close>
  | EReadHead addr u64 u64          \<comment> \<open>\<open>rq->head < t\<close> for an unsafe cell\<close>
  | ECas addr u64 u64               \<comment> \<open>\<open>CAS2(cell, -1, idx, arg, t)\<close>\<close>
  | EFull addr u64                  \<comment> \<open>\<open>h = rq->head\<close>\<close>
  | EClose addr u64                 \<comment> \<open>\<open>close_crq(rq, t, ++try_close)\<close>\<close>
  | EAlloc addr                     \<comment> \<open>the label \<open>alloc\<close>: \<open>nrq\<close> and the solo enqueue into it\<close>
  | ELink addr                      \<comment> \<open>\<open>CASPTR(&rq->next, NULL, nrq)\<close>\<close>
  | ESwingNew addr                  \<comment> \<open>\<open>CASPTR(&tail, rq, nrq)\<close>\<close>

definition solo :: "u64 \<Rightarrow> RingQueue \<Rightarrow> RingQueue" where
  "solo arg r = r\<lparr>rq_tail := 1, rq_array := (rq_array r)[0 := \<lparr>n_val = arg, n_idx = 0\<rparr>]\<rparr>"

text \<open>The result \<open>None\<close> of a step is the return from the call.\<close>

fun enq_step :: "(nat \<Rightarrow> addr) \<Rightarrow> nat \<Rightarrow> enq_pc \<Rightarrow> elocal \<Rightarrow> lcrq \<Rightarrow> (enq_pc option \<times> elocal \<times> lcrq) res" where
  "enq_step gm pw EReadTail l q = Inr (Some (EReadNext (q_tail q)), l, q)"
| "enq_step gm pw (EReadNext rq) l q =
     rbind (ring q rq) (\<lambda>r.
     Inr (Some (case rq_next r of None \<Rightarrow> ETicket rq | Some next \<Rightarrow> ESwingTail rq next), l, q))"
| "enq_step gm pw (ESwingTail rq next) l q =
     Inr (Some EReadTail, l, if q_tail q = rq then q\<lparr>q_tail := next\<rparr> else q)"
| "enq_step gm pw (ETicket rq) l q =
     rbind (ring q rq) (\<lambda>r.
     let t = rq_tail r in
     Inr (Some (if crq_is_closed t then EAlloc rq else EReadIdx rq t), l, put_ring rq (r\<lparr>rq_tail := t + 1\<rparr>) q))"
| "enq_step gm pw (EReadIdx rq t) l q =
     rbind (cell pw q rq t) (\<lambda>n. Inr (Some (EReadVal rq t (n_idx n)), l, q))"
| "enq_step gm pw (EReadVal rq t idx) l q =
     rbind (cell pw q rq t) (\<lambda>n.
     Inr (Some (if is_empty (n_val n) \<and> node_index idx \<le> t
                then (if node_unsafe idx = 0 then ECas rq t idx else EReadHead rq t idx)
                else EFull rq t), l, q))"
| "enq_step gm pw (EReadHead rq t idx) l q =
     rbind (ring q rq) (\<lambda>r. Inr (Some (if rq_head r < t then ECas rq t idx else EFull rq t), l, q))"
| "enq_step gm pw (ECas rq t idx) l q =
     rbind (CAS2 pw rq t (- 1) idx (l_arg l) t q) (\<lambda>(ok, q1).
     Inr (if ok then None else Some (EFull rq t), l, q1))"
| "enq_step gm pw (EFull rq t) l q =
     rbind (ring q rq) (\<lambda>r.
     Inr (Some (if RING_SIZE pw \<le> t - rq_head r then EClose rq t else EReadTail), l, q))"
| "enq_step gm pw (EClose rq t) l q =
     rbind (close_crq rq t (Suc (l_try l)) q) (\<lambda>(ok, q1).
     Inr (Some (if ok then EAlloc rq else EReadTail), l\<lparr>l_try := Suc (l_try l)\<rparr>, q1))"
| "enq_step gm pw (EAlloc rq) l q =
     (case l_nrq l of
        None \<Rightarrow>
          Inr (Some (ELink rq), l\<lparr>l_nrq := Some (gm (q_allocs q))\<rparr>,
               put_ring (gm (q_allocs q)) (solo (l_arg l) (init_ring pw)) (q\<lparr>q_allocs := Suc (q_allocs q)\<rparr>))
      | Some a \<Rightarrow>
          rbind (ring q a) (\<lambda>r. Inr (Some (ELink rq), l, put_ring a (solo (l_arg l) r) q)))"
| "enq_step gm pw (ELink rq) l q =
     rbind (ring q rq) (\<lambda>r.
     case rq_next r of
       None \<Rightarrow> Inr (Some (ESwingNew rq), l, put_ring rq (r\<lparr>rq_next := l_nrq l\<rparr>) q)
     | Some next \<Rightarrow> Inr (Some EReadTail, l, q))"
| "enq_step gm pw (ESwingNew rq) l q =
     (case l_nrq l of
        None \<Rightarrow> Inl NullDeref
      | Some a \<Rightarrow> Inr (None, l\<lparr>l_nrq := None\<rparr>, if q_tail q = rq then q\<lparr>q_tail := a\<rparr> else q))"

section \<open>Dequeue\<close>

datatype fix_pc =
    FTail            \<comment> \<open>\<open>t = FAA64(&rq->tail, 0)\<close>\<close>
  | FHead u64        \<comment> \<open>\<open>h = FAA64(&rq->head, 0)\<close>\<close>
  | FTest u64 u64    \<comment> \<open>\<open>rq->tail != t\<close>\<close>
  | FCas u64 u64     \<comment> \<open>\<open>CAS64(&rq->tail, t, h)\<close>\<close>

text \<open>The steps of \<open>fixState\<close>; \<open>None\<close> is the end of the call.\<close>

fun fixState :: "fix_pc \<Rightarrow> addr \<Rightarrow> lcrq \<Rightarrow> (fix_pc option \<times> lcrq) res" where
  "fixState FTail rq q = rbind (ring q rq) (\<lambda>r. Inr (Some (FHead (rq_tail r)), q))"
| "fixState (FHead t) rq q = rbind (ring q rq) (\<lambda>r. Inr (Some (FTest t (rq_head r)), q))"
| "fixState (FTest t h) rq q =
     rbind (ring q rq) (\<lambda>r.
     Inr (if rq_tail r \<noteq> t then Some FTail else if t < h then Some (FCas t h) else None, q))"
| "fixState (FCas t h) rq q =
     rbind (ring q rq) (\<lambda>r.
     Inr (if rq_tail r = t then (None, put_ring rq (r\<lparr>rq_tail := h\<rparr>) q) else (Some FTail, q)))"

text \<open>\<open>r\<close> counts the rounds in which the cell was empty, \<open>tt\<close> is the tail read in some of them.\<close>

datatype deq_pc =
    DReadHead                              \<comment> \<open>\<open>rq = head\<close>\<close>
  | DTicket addr                           \<comment> \<open>\<open>h = FAA64(&rq->head, 1)\<close>\<close>
  | DReadIdx addr u64 nat u64              \<comment> \<open>\<open>cell_idx = cell->idx\<close>\<close>
  | DReadVal addr u64 nat u64 u64          \<comment> \<open>\<open>val = cell->val\<close>\<close>
  | DReadTl addr u64 nat u64 u64         \<comment> \<open>\<open>tt = rq->tail\<close>\<close>
  | DTake addr u64 nat u64 u64 u64         \<comment> \<open>\<open>CAS2(cell, val, cell_idx, -1, unsafe | h + RING_SIZE)\<close>\<close>
  | DMark addr u64 nat u64 u64 u64         \<comment> \<open>\<open>CAS2(cell, val, cell_idx, val, set_unsafe(idx))\<close>\<close>
  | DSkipUnsafe addr u64 nat u64 u64 u64   \<comment> \<open>\<open>CAS2(cell, val, cell_idx, val, unsafe | h + RING_SIZE)\<close>\<close>
  | DSkip addr u64 nat u64 u64 u64         \<comment> \<open>\<open>CAS2(cell, val, idx, val, h + RING_SIZE)\<close>\<close>
  | DCheck addr u64                        \<comment> \<open>\<open>tail_index(rq->tail) - 1 <= h\<close>\<close>
  | DFix addr fix_pc                       \<comment> \<open>in \<open>fixState\<close>\<close>
  | DNext addr                             \<comment> \<open>\<open>next = rq->next\<close>\<close>
  | DSwing addr addr                       \<comment> \<open>\<open>CASPTR(&head, rq, next)\<close>\<close>

text \<open>A step goes on at a program point or returns a value, \<open>-1\<close> for an empty queue.\<close>

datatype deq_out = DGo deq_pc | DReturn u64

text \<open>What is done with an empty cell, once \<open>tt\<close> is known.\<close>

definition deq_empty :: "addr \<Rightarrow> u64 \<Rightarrow> nat \<Rightarrow> u64 \<Rightarrow> u64 \<Rightarrow> u64 \<Rightarrow> deq_pc" where
  "deq_empty rq h r tt cidx v =
     (if node_unsafe cidx \<noteq> 0 then DSkipUnsafe rq h r tt cidx v
      else if tail_index tt - 1 \<le> h \<or> 200000 < r \<or> crq_is_closed tt then DSkip rq h r tt cidx v
      else DReadIdx rq h (Suc r) tt)"

text \<open>After a failed \<open>CAS2\<close> the inner loop goes round, after a successful one it is left.\<close>

definition deq_cas ::
  "nat \<Rightarrow> addr \<Rightarrow> u64 \<Rightarrow> nat \<Rightarrow> u64 \<Rightarrow> u64 \<Rightarrow> u64 \<Rightarrow> u64 \<Rightarrow> u64 \<Rightarrow> deq_out \<Rightarrow> lcrq \<Rightarrow> (deq_out \<times> lcrq) res" where
  "deq_cas pw rq h r tt o1 o2 n1 n2 out q =
     rbind (CAS2 pw rq h o1 o2 n1 n2 q) (\<lambda>(ok, q1). Inr (if ok then out else DGo (DReadIdx rq h r tt), q1))"

fun deq_step :: "nat \<Rightarrow> deq_pc \<Rightarrow> lcrq \<Rightarrow> (deq_out \<times> lcrq) res" where
  "deq_step pw DReadHead q = Inr (DGo (DTicket (q_head q)), q)"
| "deq_step pw (DTicket rq) q =
     rbind (ring q rq) (\<lambda>r.
     let h = rq_head r in Inr (DGo (DReadIdx rq h 0 0), put_ring rq (r\<lparr>rq_head := h + 1\<rparr>) q))"
| "deq_step pw (DReadIdx rq h r tt) q =
     rbind (cell pw q rq h) (\<lambda>n. Inr (DGo (DReadVal rq h r tt (n_idx n)), q))"
| "deq_step pw (DReadVal rq h r tt cidx) q =
     rbind (cell pw q rq h) (\<lambda>n.
     let v = n_val n; idx = node_index cidx in
     Inr (DGo (if h < idx then DCheck rq h
               else if \<not> is_empty v then
                 (if idx = h then DTake rq h r tt cidx v else DMark rq h r tt cidx v)
               else if r mod 1024 = 0 then DReadTl rq h r cidx v
               else deq_empty rq h r tt cidx v), q))"
| "deq_step pw (DReadTl rq h r cidx v) q =
     rbind (ring q rq) (\<lambda>rg. Inr (DGo (deq_empty rq h r (rq_tail rg) cidx v), q))"
| "deq_step pw (DTake rq h r tt cidx v) q =
     deq_cas pw rq h r tt v cidx (- 1) (node_unsafe cidx OR (h + RING_SIZE pw)) (DReturn v) q"
| "deq_step pw (DMark rq h r tt cidx v) q =
     deq_cas pw rq h r tt v cidx v (set_unsafe (node_index cidx)) (DGo (DCheck rq h)) q"
| "deq_step pw (DSkipUnsafe rq h r tt cidx v) q =
     deq_cas pw rq h r tt v cidx v (node_unsafe cidx OR (h + RING_SIZE pw)) (DGo (DCheck rq h)) q"
| "deq_step pw (DSkip rq h r tt cidx v) q =
     deq_cas pw rq h r tt v (node_index cidx) v (h + RING_SIZE pw) (DGo (DCheck rq h)) q"
| "deq_step pw (DCheck rq h) q =
     rbind (ring q rq) (\<lambda>r. Inr (DGo (if tail_index (rq_tail r) - 1 \<le> h then DFix rq FTail else DReadHead), q))"
| "deq_step pw (DFix rq p) q =
     rbind (fixState p rq q) (\<lambda>(r, q'). Inr (DGo (case r of None \<Rightarrow> DNext rq | Some p' \<Rightarrow> DFix rq p'), q'))"
| "deq_step pw (DNext rq) q =
     rbind (ring q rq) (\<lambda>r.
     Inr (case rq_next r of None \<Rightarrow> DReturn (- 1) | Some next \<Rightarrow> DGo (DSwing rq next), q))"
| "deq_step pw (DSwing rq next) q =
     Inr (DGo DReadHead, if q_head q = rq then q\<lparr>q_head := next\<rparr> else q)"

section \<open>Whole calls\<close>

text \<open>
  A call that runs without interference: the steps of \<open>enqueue\<close> and of \<open>dequeue\<close> up to the return.  \<open>None\<close> is
  a call that has not returned after \<open>fuel\<close> steps.
\<close>

fun enq_run :: "(nat \<Rightarrow> addr) \<Rightarrow> nat \<Rightarrow> nat \<Rightarrow> enq_pc \<Rightarrow> elocal \<Rightarrow> lcrq \<Rightarrow> (elocal \<times> lcrq) option res" where
  "enq_run gm pw 0 pc l q = Inr None"
| "enq_run gm pw (Suc fuel) pc l q =
     rbind (enq_step gm pw pc l q) (\<lambda>(r, l', q').
     case r of None \<Rightarrow> Inr (Some (l', q')) | Some pc' \<Rightarrow> enq_run gm pw fuel pc' l' q')"

fun deq_run :: "nat \<Rightarrow> nat \<Rightarrow> deq_pc \<Rightarrow> lcrq \<Rightarrow> (u64 \<times> lcrq) option res" where
  "deq_run pw 0 pc q = Inr None"
| "deq_run pw (Suc fuel) pc q =
     rbind (deq_step pw pc q) (\<lambda>(r, q').
     case r of DReturn v \<Rightarrow> Inr (Some (v, q')) | DGo pc' \<Rightarrow> deq_run pw fuel pc' q')"

definition enqueue :: "(nat \<Rightarrow> addr) \<Rightarrow> nat \<Rightarrow> nat \<Rightarrow> u64 \<Rightarrow> addr option \<Rightarrow> lcrq \<Rightarrow> (addr option \<times> lcrq) option res" where
  "enqueue gm pw fuel arg nrq q =
     rbind (enq_run gm pw fuel EReadTail \<lparr>l_arg = arg, l_try = 0, l_nrq = nrq\<rparr> q) (\<lambda>r.
     Inr (map_option (\<lambda>(l, q'). (l_nrq l, q')) r))"

definition dequeue :: "nat \<Rightarrow> nat \<Rightarrow> lcrq \<Rightarrow> (u64 \<times> lcrq) option res" where
  "dequeue pw fuel q = deq_run pw fuel DReadHead q"

section \<open>Threads\<close>

datatype lpc = LIdle | LEnq enq_pc | LDeq deq_pc

record lthread =
  t_pc :: lpc
  t_loc :: elocal

text \<open>The queue, the threads, and what calls have returned: the values put in and those got out.\<close>

record lsys =
  y_q :: lcrq
  y_thr :: "lthread list"
  y_in :: "u64 list"
  y_out :: "u64 list"

text \<open>
  One step of thread \<open>i\<close>.  An idle thread is given a call: \<open>enqueue v\<close>, or \<open>dequeue\<close> for \<open>None\<close>.
\<close>

definition after_step :: "nat \<Rightarrow> lthread \<Rightarrow> lcrq \<Rightarrow> u64 list \<Rightarrow> u64 list \<Rightarrow> lsys \<Rightarrow> lsys" where
  "after_step i t q ins outs y = y\<lparr>y_q := q, y_thr := (y_thr y)[i := t], y_in := ins, y_out := outs\<rparr>"

definition lcrq_call :: "nat \<Rightarrow> u64 option \<Rightarrow> lsys \<Rightarrow> lsys" where
  "lcrq_call i call y =
     (let t = y_thr y ! i;
          t' = (case call of
                  None \<Rightarrow> t\<lparr>t_pc := LDeq DReadHead\<rparr>
                | Some v \<Rightarrow> t\<lparr>t_pc := LEnq EReadTail, t_loc := (t_loc t)\<lparr>l_arg := v, l_try := 0\<rparr>\<rparr>)
      in after_step i t' (y_q y) (y_in y) (y_out y) y)"

definition lcrq_run :: "(nat \<Rightarrow> addr) \<Rightarrow> nat \<Rightarrow> nat \<Rightarrow> lsys \<Rightarrow> lsys res" where
  "lcrq_run gm pw i y =
     (let t = y_thr y ! i in
      case t_pc t of
        LIdle \<Rightarrow> Inr y
      | LEnq pc \<Rightarrow>
          rbind (enq_step gm pw pc (t_loc t) (y_q y)) (\<lambda>(r, l, q).
          Inr (case r of
                 None \<Rightarrow> after_step i \<lparr>t_pc = LIdle, t_loc = l\<rparr> q (y_in y @ [l_arg l]) (y_out y) y
               | Some pc' \<Rightarrow> after_step i \<lparr>t_pc = LEnq pc', t_loc = l\<rparr> q (y_in y) (y_out y) y))
      | LDeq pc \<Rightarrow>
          rbind (deq_step pw pc (y_q y)) (\<lambda>(r, q).
          Inr (case r of
                 DReturn v \<Rightarrow> after_step i (t\<lparr>t_pc := LIdle\<rparr>) q (y_in y) (y_out y @ [v]) y
               | DGo pc' \<Rightarrow> after_step i (t\<lparr>t_pc := LDeq pc'\<rparr>) q (y_in y) (y_out y) y)))"

text \<open>The value \<open>-1\<close> marks an empty cell and is not put into the queue.\<close>

inductive lcrq_step :: "(nat \<Rightarrow> addr) \<Rightarrow> nat \<Rightarrow> lsys \<Rightarrow> lsys \<Rightarrow> bool" for gm pw where
  step_call: "i < length (y_thr y) \<Longrightarrow> t_pc (y_thr y ! i) = LIdle \<Longrightarrow> call \<noteq> Some (- 1) \<Longrightarrow>
    lcrq_step gm pw y (lcrq_call i call y)"
| step_run: "i < length (y_thr y) \<Longrightarrow> lcrq_run gm pw i y = Inr y' \<Longrightarrow> lcrq_step gm pw y y'"

definition new_lthread :: lthread where
  "new_lthread = \<lparr>t_pc = LIdle, t_loc = \<lparr>l_arg = 0, l_try = 0, l_nrq = None\<rparr>\<rparr>"

definition lcrq_start :: "(nat \<Rightarrow> addr) \<Rightarrow> nat \<Rightarrow> bool \<Rightarrow> nat \<Rightarrow> lsys" where
  "lcrq_start gm pw FULL n =
     \<lparr>y_q = SHARED_OBJECT_INIT gm pw FULL, y_thr = replicate n new_lthread,
      y_in = (if FULL then replicate (2 ^ pw div 2) 0 else []), y_out = []\<rparr>"

end
