(* ===== verification/Lcrq_Safety.thy ===== *)
theory Lcrq_Safety
  imports Lcrq
begin

text \<open>
  What holds of the concurrent queue under every interleaving of any number of threads: no step
  accesses memory that is not allocated, every cell keeps the residue of its index, and no value is
  lost from memory, made up or delivered twice.
\<close>

unbundle bit_operations_syntax

section \<open>The cell of a ticket\<close>

lemma bit_ring_size: "pw < 64 \<Longrightarrow> bit (RING_SIZE pw) n \<longleftrightarrow> n = pw"
  unfolding RING_SIZE_def bit_push_bit_iff by (auto simp: bit_1_iff)

lemma ring_size_mask: "pw < 64 \<Longrightarrow> RING_SIZE pw - 1 = mask pw"
  by (simp add: RING_SIZE_def mask_eq_exp_minus_1)

lemma slot_take_bit: "pw < 64 \<Longrightarrow> slot pw t = unat (take_bit pw t)"
  by (simp add: slot_def ring_size_mask take_bit_eq_mask)

lemma slot_less: "pw < 64 \<Longrightarrow> slot pw t < 2 ^ pw"
  by (simp add: slot_take_bit unsigned_take_bit_eq)

lemma unat_ring_size: "pw < 64 \<Longrightarrow> unat (RING_SIZE pw) = 2 ^ pw"
proof -
  assume "pw < 64"
  then have "(2 :: nat) ^ pw < 2 ^ 64" by (intro power_strict_increasing) simp_all
  then show ?thesis unfolding RING_SIZE_def by (simp only: unsigned_push_bit_eq) (simp add: take_bit_eq_mod)
qed

lemma slot_mod: "pw < 64 \<Longrightarrow> slot pw t = unat t mod 2 ^ pw"
  by (simp only: slot_take_bit unsigned_take_bit_eq) (simp add: take_bit_eq_mod)

lemma slot_next_round:
  assumes "pw < 64"
  shows "slot pw (h + RING_SIZE pw) = slot pw h"
proof -
  have "(2 :: nat) ^ pw dvd 2 ^ 64" using assms by (intro le_imp_power_dvd) simp
  then have "(unat h + 2 ^ pw) mod 2 ^ 64 mod 2 ^ pw = (unat h + 2 ^ pw) mod 2 ^ pw" by (rule mod_mod_cancel)
  with assms show ?thesis by (simp add: slot_mod unat_word_ariths unat_ring_size)
qed

lemma slot_unsafe:
  "pw < 64 \<Longrightarrow> slot pw (node_unsafe c OR x) = slot pw x"
  "pw < 64 \<Longrightarrow> slot pw (set_unsafe x) = slot pw x"
  "pw < 64 \<Longrightarrow> slot pw (node_index x) = slot pw x"
proof -
  assume pw: "pw < 64"
  have "take_bit pw (node_unsafe c OR x) = take_bit pw x" "take_bit pw (set_unsafe x) = take_bit pw x"
    "take_bit pw (node_index x) = take_bit pw x"
    using pw by (auto intro!: bit_eqI simp: node_unsafe_def set_unsafe_def node_index_def bit_take_bit_iff bit_or_iff
        bit_and_iff bit_not_iff)
  with pw show "slot pw (node_unsafe c OR x) = slot pw x" "slot pw (set_unsafe x) = slot pw x"
    "slot pw (node_index x) = slot pw x"
    by (simp_all add: slot_take_bit)
qed
section \<open>The invariant\<close>

definition ring_ok :: "nat \<Rightarrow> RingQueue \<Rightarrow> bool" where
  "ring_ok pw r \<longleftrightarrow> length (rq_array r) = 2 ^ pw \<and> (\<forall>i<2 ^ pw. slot pw (n_idx (rq_array r ! i)) = i)"

text \<open>The values a ring holds.\<close>

definition ring_vals :: "RingQueue \<Rightarrow> u64 multiset" where
  "ring_vals r = mset (filter (\<lambda>v. v \<noteq> - 1) (map n_val (rq_array r)))"

text \<open>
  The spare ring of a thread belongs to it until the thread has linked it into the list; all other
  rings are public.
\<close>

definition linked :: "lpc \<Rightarrow> bool" where
  "linked pc = (case pc of LEnq (ESwingNew rq) \<Rightarrow> True | _ \<Rightarrow> False)"

definition spare :: "lthread \<Rightarrow> addr set" where
  "spare t = (if linked (t_pc t) then {} else set_option (l_nrq (t_loc t)))"

definition public :: "lcrq \<Rightarrow> lthread list \<Rightarrow> addr set" where
  "public q thr = dom (q_mem q) - \<Union> (spare ` set thr)"

fun enq_rings :: "enq_pc \<Rightarrow> addr set" where
  "enq_rings EReadTail = {}"
| "enq_rings (EReadNext rq) = {rq}"
| "enq_rings (ESwingTail rq next) = {rq, next}"
| "enq_rings (ETicket rq) = {rq}"
| "enq_rings (EReadIdx rq t) = {rq}"
| "enq_rings (EReadVal rq t idx) = {rq}"
| "enq_rings (EReadHead rq t idx) = {rq}"
| "enq_rings (ECas rq t idx) = {rq}"
| "enq_rings (EFull rq t) = {rq}"
| "enq_rings (EClose rq t) = {rq}"
| "enq_rings (EAlloc rq) = {rq}"
| "enq_rings (ELink rq) = {rq}"
| "enq_rings (ESwingNew rq) = {rq}"

fun deq_rings :: "deq_pc \<Rightarrow> addr set" where
  "deq_rings DReadHead = {}"
| "deq_rings (DTicket rq) = {rq}"
| "deq_rings (DReadIdx rq h r tt) = {rq}"
| "deq_rings (DReadVal rq h r tt c) = {rq}"
| "deq_rings (DReadTl rq h r c v) = {rq}"
| "deq_rings (DTake rq h r tt c v) = {rq}"
| "deq_rings (DMark rq h r tt c v) = {rq}"
| "deq_rings (DSkipUnsafe rq h r tt c v) = {rq}"
| "deq_rings (DSkip rq h r tt c v) = {rq}"
| "deq_rings (DCheck rq h) = {rq}"
| "deq_rings (DFix rq p) = {rq}"
| "deq_rings (DNext rq) = {rq}"
| "deq_rings (DSwing rq next) = {rq, next}"

text \<open>What a thread relies on, given the public rings \<open>P\<close>.\<close>

definition spare_ok :: "nat \<Rightarrow> RingQueue \<Rightarrow> bool" where
  "spare_ok pw r \<longleftrightarrow> (\<forall>i. 0 < i \<longrightarrow> i < 2 ^ pw \<longrightarrow> n_val (rq_array r ! i) = - 1)"

definition enq_ok :: "lcrq \<Rightarrow> addr set \<Rightarrow> enq_pc \<Rightarrow> elocal \<Rightarrow> bool" where
  "enq_ok q P pc l \<longleftrightarrow>
     enq_rings pc \<subseteq> P \<and> l_arg l \<noteq> - 1 \<and>
     (case pc of
        ELink rq \<Rightarrow> (\<exists>a r. l_nrq l = Some a \<and> q_mem q a = Some r \<and> ring_vals r = {#l_arg l#})
      | ESwingNew rq \<Rightarrow> l_nrq l \<noteq> None
      | _ \<Rightarrow> True)"

definition deq_ok :: "addr set \<Rightarrow> deq_pc \<Rightarrow> bool" where
  "deq_ok P pc \<longleftrightarrow> deq_rings pc \<subseteq> P \<and> (case pc of DTake rq h r tt c v \<Rightarrow> v \<noteq> - 1 | _ \<Rightarrow> True)"

definition thr_ok :: "nat \<Rightarrow> lcrq \<Rightarrow> addr set \<Rightarrow> lthread \<Rightarrow> bool" where
  "thr_ok pw q P t \<longleftrightarrow>
     (case t_pc t of LIdle \<Rightarrow> True | LEnq pc \<Rightarrow> enq_ok q P pc (t_loc t) | LDeq pc \<Rightarrow> deq_ok P pc) \<and>
     set_option (l_nrq (t_loc t)) \<subseteq> dom (q_mem q) \<and>
     (\<forall>a \<in> spare t. spare_ok pw (the (q_mem q a)) \<and> rq_next (the (q_mem q a)) = None)"

definition mem_ok :: "nat \<Rightarrow> addr set \<Rightarrow> lcrq \<Rightarrow> bool" where
  "mem_ok pw P q \<longleftrightarrow>
     finite (dom (q_mem q)) \<and> q_head q \<in> P \<and> q_tail q \<in> P \<and>
     (\<forall>a r. q_mem q a = Some r \<longrightarrow> ring_ok pw r \<and> set_option (rq_next r) \<subseteq> P)"

definition nrq_distinct :: "lthread list \<Rightarrow> bool" where
  "nrq_distinct thr \<longleftrightarrow>
     (\<forall>i j. i < length thr \<longrightarrow> j < length thr \<longrightarrow> i \<noteq> j \<longrightarrow>
        set_option (l_nrq (t_loc (thr ! i))) \<inter> set_option (l_nrq (t_loc (thr ! j))) = {})"

text \<open>The values in the public rings, and those of calls that have linked their ring and not returned.\<close>

definition stored :: "lcrq \<Rightarrow> addr set \<Rightarrow> u64 multiset" where
  "stored q P = (\<Sum>a\<in>P. ring_vals (the (q_mem q a)))"

definition pending :: "lthread list \<Rightarrow> u64 multiset" where
  "pending thr = mset (map (\<lambda>t. l_arg (t_loc t)) (filter (\<lambda>t. linked (t_pc t)) thr))"

definition delivered :: "u64 list \<Rightarrow> u64 multiset" where
  "delivered vs = mset (filter (\<lambda>v. v \<noteq> - 1) vs)"

definition alloc_ok :: "(nat \<Rightarrow> addr) \<Rightarrow> lcrq \<Rightarrow> bool" where
  "alloc_ok gm q \<longleftrightarrow> dom (q_mem q) \<subseteq> gm ` {..<q_allocs q}"

definition lcrq_inv :: "(nat \<Rightarrow> addr) \<Rightarrow> nat \<Rightarrow> lsys \<Rightarrow> bool" where
  "lcrq_inv gm pw y \<longleftrightarrow>
     (let q = y_q y; thr = y_thr y; P = public q thr in
      alloc_ok gm q \<and> mem_ok pw P q \<and> (\<forall>t \<in> set thr. thr_ok pw q P t) \<and> nrq_distinct thr \<and>
      mset (y_in y) + pending thr = stored q P + delivered (y_out y))"

section \<open>Steps on public rings\<close>

text \<open>A change of the queue that leaves all but the public rings alone.\<close>

definition public_change :: "addr set \<Rightarrow> lcrq \<Rightarrow> lcrq \<Rightarrow> bool" where
  "public_change P q q' \<longleftrightarrow>
     dom (q_mem q') = dom (q_mem q) \<and> q_allocs q' = q_allocs q \<and> (\<forall>a. a \<notin> P \<longrightarrow> q_mem q' a = q_mem q a)"

lemma public_change_refl [simp]: "public_change P q q"
  by (simp add: public_change_def)

lemma ring_public:
  assumes "mem_ok pw P q" and "P \<subseteq> dom (q_mem q)" and "a \<in> P"
  obtains r where "ring q a = Inr r" and "q_mem q a = Some r" and "ring_ok pw r" and "set_option (rq_next r) \<subseteq> P"
proof -
  obtain r where "q_mem q a = Some r" using assms(2,3) by blast
  then show thesis using that assms(1) by (auto simp: ring_def mem_ok_def)
qed

lemma stored_put:
  assumes "finite P" and "a \<in> P" and "q_mem q a = Some r"
  shows "stored (put_ring a r' q) P + ring_vals r = stored q P + ring_vals r'"
proof -
  have "stored (put_ring a r' q) P = ring_vals r' + (\<Sum>b\<in>P - {a}. ring_vals (the (q_mem q b)))"
    using assms(1,2) by (simp add: stored_def sum.remove put_ring_def)
  moreover have "stored q P = ring_vals r + (\<Sum>b\<in>P - {a}. ring_vals (the (q_mem q b)))"
    using assms by (simp add: stored_def sum.remove)
  ultimately show ?thesis by (simp add: ac_simps)
qed

text \<open>Writing a public ring back.\<close>

lemma put_public:
  assumes "mem_ok pw P q" and "P \<subseteq> dom (q_mem q)" and "a \<in> P" and "q_mem q a = Some r"
    and "ring_ok pw r'" and "set_option (rq_next r') \<subseteq> P"
  shows "mem_ok pw P (put_ring a r' q)" and "public_change P q (put_ring a r' q)"
    and "stored (put_ring a r' q) P + ring_vals r = stored q P + ring_vals r'"
proof -
  show "mem_ok pw P (put_ring a r' q)" "public_change P q (put_ring a r' q)"
    using assms by (auto simp: mem_ok_def put_ring_def public_change_def)
  have "finite P" using assms(1,2) by (auto simp: mem_ok_def dest: finite_subset)
  then show "stored (put_ring a r' q) P + ring_vals r = stored q P + ring_vals r'"
    using assms(3,4) by (rule stored_put)
qed

definition val_set :: "u64 \<Rightarrow> u64 multiset" where
  "val_set v = (if v = - 1 then {#} else {#v#})"

lemma ring_vals_update:
  assumes "i < length (rq_array r)"
  shows "ring_vals (r\<lparr>rq_array := (rq_array r)[i := n]\<rparr>) + val_set (n_val (rq_array r ! i)) = ring_vals r + val_set (n_val n)"
proof -
  have vals: "ring_vals r = filter_mset (\<lambda>v. v \<noteq> - 1) (image_mset n_val (mset (rq_array r)))" for r
    by (simp add: ring_vals_def mset_filter)
  have one: "filter_mset (\<lambda>v. v \<noteq> - 1) (add_mset v M) = val_set v + filter_mset (\<lambda>v. v \<noteq> - 1) M" for v M
    by (simp add: val_set_def)
  let ?M = "mset (rq_array r) - {#rq_array r ! i#}"
  have "mset (rq_array r) = add_mset (rq_array r ! i) ?M" using assms by simp
  then have "ring_vals r = val_set (n_val (rq_array r ! i)) + filter_mset (\<lambda>v. v \<noteq> - 1) (image_mset n_val ?M)"
    unfolding vals by (metis one image_mset_add_mset)
  moreover have "ring_vals (r\<lparr>rq_array := (rq_array r)[i := n]\<rparr>) = val_set (n_val n) + filter_mset (\<lambda>v. v \<noteq> - 1) (image_mset n_val ?M)"
    unfolding vals using assms by (simp add: mset_update val_set_def)
  ultimately show ?thesis by (simp add: ac_simps)
qed

lemma exchange:
  fixes A B R R' a b :: "'a multiset"
  assumes "A + R = B + R'" and "R' + a = R + b"
  shows "A + a = B + b"
proof -
  have "A + a + R = B + b + R" using assms by (metis add.assoc add.commute)
  then show ?thesis by simp
qed

lemma cell_public:
  assumes "mem_ok pw P q" and "P \<subseteq> dom (q_mem q)" and "a \<in> P" and "pw < 64"
  obtains n where "cell pw q a t = Inr n" and "slot pw (n_idx n) = slot pw t"
proof -
  obtain r where "ring q a = Inr r" "ring_ok pw r" by (rule ring_public [OF assms(1-3)])
  then show thesis using that slot_less [OF assms(4), of t] by (auto simp: cell_def ring_ok_def)
qed

text \<open>\<open>CAS2\<close> on a public ring exchanges the values, and keeps the residues if the new index has that of the ticket.\<close>

lemma CAS2_public:
  assumes "mem_ok pw P q" and "P \<subseteq> dom (q_mem q)" and "a \<in> P" and "pw < 64"
    and "slot pw o2 = slot pw t \<Longrightarrow> slot pw n2 = slot pw t"
  obtains ok q1 where "CAS2 pw a t o1 o2 n1 n2 q = Inr (ok, q1)" and "mem_ok pw P q1" and "public_change P q q1"
    and "if ok then stored q1 P + val_set o1 = stored q P + val_set n1 else q1 = q"
proof -
  obtain r where r: "ring q a = Inr r" "q_mem q a = Some r" "ring_ok pw r" "set_option (rq_next r) \<subseteq> P"
    by (rule ring_public [OF assms(1-3)])
  let ?i = "slot pw t" and ?r = "r\<lparr>rq_array := (rq_array r)[slot pw t := \<lparr>n_val = n1, n_idx = n2\<rparr>]\<rparr>"
  have i: "?i < length (rq_array r)" using r(3) slot_less [OF assms(4)] by (simp add: ring_ok_def)
  show thesis
  proof (cases "n_val (rq_array r ! ?i) = o1 \<and> n_idx (rq_array r ! ?i) = o2")
    case True
    then have "slot pw n2 = ?i" using assms(5) r(3) i by (auto simp: ring_ok_def)
    then have ok: "ring_ok pw ?r" using r(3) i by (auto simp: ring_ok_def nth_list_update)
    have next': "set_option (rq_next ?r) \<subseteq> P" using r(4) by simp
    note P = put_public [OF assms(1-3) r(2) ok next']
    have "stored (put_ring a ?r q) P + val_set o1 = stored q P + val_set n1"
      using exchange [OF P(3), of "val_set o1" "val_set n1"] ring_vals_update [OF i, of "\<lparr>n_val = n1, n_idx = n2\<rparr>"] True
      by simp
    with P(1,2) show thesis using that [of True "put_ring a ?r q"] True i r(1) by (simp add: CAS2_def)
  next
    case False
    then show thesis using that [of False q] i r(1) assms(1) by (simp add: CAS2_def)
  qed
qed

text \<open>The steps of \<open>enqueue\<close> that touch public rings only.\<close>

definition enq_result :: "nat \<Rightarrow> addr set \<Rightarrow> elocal \<Rightarrow> lcrq \<Rightarrow> enq_pc option \<times> elocal \<times> lcrq \<Rightarrow> bool" where
  "enq_result pw P l q res =
     (case res of (r, l', q') \<Rightarrow>
        l_nrq l' = l_nrq l \<and> l_arg l' = l_arg l \<and> mem_ok pw P q' \<and> public_change P q q' \<and>
        (case r of
           None \<Rightarrow> stored q' P = add_mset (l_arg l) (stored q P)
         | Some pc' \<Rightarrow> enq_ok q' P pc' l' \<and> \<not> linked (LEnq pc') \<and> stored q' P = stored q P))"

lemma enq_ok_plain:
  "enq_rings pc \<subseteq> P \<Longrightarrow> l_arg l \<noteq> - 1 \<Longrightarrow> (\<And>rq. pc \<noteq> ELink rq \<and> pc \<noteq> ESwingNew rq) \<Longrightarrow> enq_ok q P pc l"
  by (cases pc) (auto simp: enq_ok_def)

lemma enq_ok_local: "enq_ok q P pc l \<Longrightarrow> enq_rings pc \<subseteq> P \<and> l_arg l \<noteq> - 1"
  by (simp add: enq_ok_def)

lemma enq_header:
  assumes "mem_ok pw P q" and "P \<subseteq> dom (q_mem q)" and "a \<in> P" and "q_mem q a = Some r"
    and "rq_array r' = rq_array r" and "rq_next r' = rq_next r"
  shows "mem_ok pw P (put_ring a r' q)" and "public_change P q (put_ring a r' q)"
    and "stored (put_ring a r' q) P = stored q P"
proof -
  have "ring_ok pw r'" "set_option (rq_next r') \<subseteq> P" "ring_vals r' = ring_vals r"
    using assms by (auto simp: mem_ok_def ring_ok_def ring_vals_def)
  with put_public [OF assms(1-4), of r']
  show "mem_ok pw P (put_ring a r' q)" "public_change P q (put_ring a r' q)"
    "stored (put_ring a r' q) P = stored q P"
    by auto
qed

lemma enq_step_public:
  assumes M: "mem_ok pw P q" and P: "P \<subseteq> dom (q_mem q)" and pw: "pw < 64" and ok: "enq_ok q P pc l"
    and pc: "\<And>rq. pc \<noteq> EAlloc rq \<and> pc \<noteq> ELink rq \<and> pc \<noteq> ESwingNew rq"
  shows "\<exists>res. enq_step gm pw pc l q = Inr res \<and> enq_result pw P l q res"
proof -
  note L = enq_ok_local [OF ok]
  have ringE: "\<exists>r. ring q rq = Inr r \<and> q_mem q rq = Some r \<and> set_option (rq_next r) \<subseteq> P" if "rq \<in> P" for rq
    using ring_public [OF M P that] by metis
  have cellE: "\<exists>n. cell pw q rq t = Inr n" if "rq \<in> P" for rq t using cell_public [OF M P that pw] by metis
  have go: "enq_result pw P l q (Some pc', l, q)"
    if "enq_rings pc' \<subseteq> P" "\<And>rq. pc' \<noteq> ELink rq \<and> pc' \<noteq> ESwingNew rq" for pc'
    using that L M enq_ok_plain [of pc' P l q] by (cases pc') (auto simp: enq_result_def linked_def)
  show ?thesis
  proof (cases pc)
    case EReadTail
    then show ?thesis using M go [of "EReadNext (q_tail q)"] by (simp add: mem_ok_def)
  next
    case (EReadNext rq)
    then obtain r where "ring q rq = Inr r" "set_option (rq_next r) \<subseteq> P" using ringE L by fastforce
    then show ?thesis
      using EReadNext L go [of "ETicket rq"] go [of "ESwingTail rq nx" for nx]
      by (cases "rq_next r") auto
  next
    case (ESwingTail rq nx)
    then have "mem_ok pw P (q\<lparr>q_tail := nx\<rparr>)" "public_change P q (q\<lparr>q_tail := nx\<rparr>)"
      "stored (q\<lparr>q_tail := nx\<rparr>) P = stored q P"
      using M L by (auto simp: mem_ok_def public_change_def stored_def)
    then show ?thesis using ESwingTail L M enq_ok_plain [of EReadTail P l]
      by (auto simp: enq_result_def linked_def)
  next
    case (ETicket rq)
    then obtain r where r: "ring q rq = Inr r" "q_mem q rq = Some r" using ringE L by fastforce
    let ?q = "put_ring rq (r\<lparr>rq_tail := rq_tail r + 1\<rparr>) q"
    have "mem_ok pw P ?q" "public_change P q ?q" "stored ?q P = stored q P"
      using enq_header [OF M P _ r(2), of "r\<lparr>rq_tail := rq_tail r + 1\<rparr>"] L ETicket by auto
    then show ?thesis
      using ETicket r(1) L enq_ok_plain [of "EAlloc rq" P l ?q] enq_ok_plain [of "EReadIdx rq (rq_tail r)" P l ?q]
      by (auto simp: enq_result_def linked_def Let_def)
  next
    case (EReadIdx rq t)
    then obtain n where "cell pw q rq t = Inr n" using cellE L by fastforce
    then show ?thesis using EReadIdx L go [of "EReadVal rq t (n_idx n)"] by simp
  next
    case (EReadVal rq t idx)
    then obtain n where "cell pw q rq t = Inr n" using cellE L by fastforce
    then show ?thesis
      using EReadVal L go [of "ECas rq t idx"] go [of "EReadHead rq t idx"] go [of "EFull rq t"] by auto
  next
    case (EReadHead rq t idx)
    then obtain r where "ring q rq = Inr r" using ringE L by fastforce
    then show ?thesis using EReadHead L go [of "ECas rq t idx"] go [of "EFull rq t"] by auto
  next
    case (ECas rq t idx)
    then have "rq \<in> P" using L by simp
    then obtain b q1 where cas: "CAS2 pw rq t (- 1) idx (l_arg l) t q = Inr (b, q1)" "mem_ok pw P q1"
      "public_change P q q1" "if b then stored q1 P + val_set (- 1) = stored q P + val_set (l_arg l) else q1 = q"
      by (rule CAS2_public [OF M P _ pw]) simp_all
    then show ?thesis
      using ECas L enq_ok_plain [of "EFull rq t" P l q]
      by (cases b) (auto simp: enq_result_def linked_def val_set_def)
  next
    case (EFull rq t)
    then obtain r where "ring q rq = Inr r" using ringE L by fastforce
    then show ?thesis using EFull L go [of "EClose rq t"] go [of EReadTail] by auto
  next
    case (EClose rq t)
    then obtain r where r: "ring q rq = Inr r" "q_mem q rq = Some r" using ringE L by fastforce
    have "\<exists>b q1. close_crq rq t (Suc (l_try l)) q = Inr (b, q1) \<and> (q1 = q \<or> (\<exists>x. q1 = put_ring rq (r\<lparr>rq_tail := x\<rparr>) q))"
      using r(1) by (auto simp: close_crq_def)
    then obtain b q1 where b: "close_crq rq t (Suc (l_try l)) q = Inr (b, q1)" "mem_ok pw P q1" "public_change P q q1"
      "stored q1 P = stored q P"
      using enq_header [OF M P _ r(2), of "r\<lparr>rq_tail := x\<rparr>" for x] L EClose M by auto
    then show ?thesis
      using EClose L enq_ok_plain [of "EAlloc rq" P "l\<lparr>l_try := Suc (l_try l)\<rparr>" q1]
        enq_ok_plain [of EReadTail P "l\<lparr>l_try := Suc (l_try l)\<rparr>" q1]
      by (auto simp: enq_result_def linked_def)
  qed (use pc in auto)
qed

text \<open>Every step of \<open>dequeue\<close> touches public rings only.\<close>

definition deq_result :: "nat \<Rightarrow> addr set \<Rightarrow> lcrq \<Rightarrow> deq_out \<times> lcrq \<Rightarrow> bool" where
  "deq_result pw P q res =
     (case res of (out, q') \<Rightarrow>
        mem_ok pw P q' \<and> public_change P q q' \<and>
        (case out of
           DGo pc' \<Rightarrow> deq_ok P pc' \<and> stored q' P = stored q P
         | DReturn v \<Rightarrow> stored q' P + val_set v = stored q P))"

lemma deq_ok_plain: "deq_rings pc \<subseteq> P \<Longrightarrow> (\<And>rq h r tt c v. pc \<noteq> DTake rq h r tt c v) \<Longrightarrow> deq_ok P pc"
  by (cases pc) (auto simp: deq_ok_def)

lemma deq_cas_public:
  assumes M: "mem_ok pw P q" and P: "P \<subseteq> dom (q_mem q)" and pw: "pw < 64" and rq: "rq \<in> P"
    and slot: "slot pw o2 = slot pw h \<Longrightarrow> slot pw n2 = slot pw h"
    and out: "n1 = v \<and> out = DGo (DCheck rq h) \<or> n1 = - 1 \<and> out = DReturn v"
  shows "\<exists>res. deq_cas pw rq h r tt v o2 n1 n2 out q = Inr res \<and> deq_result pw P q res"
proof -
  obtain b q1 where cas: "CAS2 pw rq h v o2 n1 n2 q = Inr (b, q1)" "mem_ok pw P q1" "public_change P q q1"
    "if b then stored q1 P + val_set v = stored q P + val_set n1 else q1 = q"
    by (rule CAS2_public [OF M P rq pw slot])
  have go: "deq_ok P (DReadIdx rq h r tt)" "deq_ok P (DCheck rq h)" using rq by (simp_all add: deq_ok_def)
  have "deq_result pw P q (if b then out else DGo (DReadIdx rq h r tt), q1)"
    using cas(2-4) go out by (cases b) (auto simp: deq_result_def val_set_def)
  with cas(1) show ?thesis by (simp add: deq_cas_def)
qed

lemma deq_empty_ok: "rq \<in> P \<Longrightarrow> deq_ok P (deq_empty rq h r tt c v)"
  by (simp add: deq_empty_def deq_ok_def)

lemma fixState_public:
  assumes M: "mem_ok pw P q" and P: "P \<subseteq> dom (q_mem q)" and rq: "rq \<in> P"
  shows "\<exists>r q'. fixState p rq q = Inr (r, q') \<and> mem_ok pw P q' \<and> public_change P q q' \<and> stored q' P = stored q P"
proof -
  obtain r where r: "ring q rq = Inr r" "q_mem q rq = Some r" by (rule ring_public [OF M P rq])
  have "mem_ok pw P (put_ring rq (r\<lparr>rq_tail := h\<rparr>) q) \<and> public_change P q (put_ring rq (r\<lparr>rq_tail := h\<rparr>) q) \<and>
      stored (put_ring rq (r\<lparr>rq_tail := h\<rparr>) q) P = stored q P" for h
    using enq_header [OF M P rq r(2), of "r\<lparr>rq_tail := h\<rparr>"] by simp
  then show ?thesis using r(1) M by (cases p) auto
qed

lemma deq_step_public:
  assumes M: "mem_ok pw P q" and P: "P \<subseteq> dom (q_mem q)" and pw: "pw < 64" and ok: "deq_ok P pc"
  shows "\<exists>res. deq_step pw pc q = Inr res \<and> deq_result pw P q res"
proof -
  have L: "deq_rings pc \<subseteq> P" using ok by (simp add: deq_ok_def)
  have ringE: "\<exists>r. ring q rq = Inr r \<and> q_mem q rq = Some r \<and> set_option (rq_next r) \<subseteq> P" if "rq \<in> P" for rq
    using ring_public [OF M P that] by metis
  have cellE: "\<exists>n. cell pw q rq t = Inr n" if "rq \<in> P" for rq t using cell_public [OF M P that pw] by metis
  have go: "deq_result pw P q (DGo pc', q)" if "deq_ok P pc'" for pc'
    using that M by (simp add: deq_result_def)
  note cas = deq_cas_public [OF M P pw] and slots = slot_unsafe [OF pw] slot_next_round [OF pw]
  show ?thesis
  proof (cases pc)
    case DReadHead
    then show ?thesis using M go [of "DTicket (q_head q)"] by (simp add: mem_ok_def deq_ok_def)
  next
    case (DTicket rq)
    then obtain r where r: "ring q rq = Inr r" "q_mem q rq = Some r" using ringE L by fastforce
    let ?q = "put_ring rq (r\<lparr>rq_head := rq_head r + 1\<rparr>) q"
    have "mem_ok pw P ?q" "public_change P q ?q" "stored ?q P = stored q P"
      using enq_header [OF M P _ r(2), of "r\<lparr>rq_head := rq_head r + 1\<rparr>"] L DTicket by auto
    then show ?thesis using DTicket r(1) L by (simp add: deq_result_def deq_ok_def Let_def)
  next
    case (DReadIdx rq h r tt)
    then obtain n where "cell pw q rq h = Inr n" using cellE L by fastforce
    then show ?thesis using DReadIdx L go [of "DReadVal rq h r tt (n_idx n)"] by (simp add: deq_ok_def)
  next
    case (DReadVal rq h r tt c)
    then obtain n where n: "cell pw q rq h = Inr n" using cellE L by fastforce
    have "deq_ok P (DCheck rq h)" "deq_ok P (DMark rq h r tt c (n_val n))" "deq_ok P (DReadTl rq h r c (n_val n))"
      "deq_ok P (deq_empty rq h r tt c (n_val n))"
      "\<not> is_empty (n_val n) \<Longrightarrow> deq_ok P (DTake rq h r tt c (n_val n))"
      using L DReadVal deq_empty_ok by (simp_all add: deq_ok_def is_empty_def)
    then show ?thesis using DReadVal n by (auto simp: Let_def intro!: go)
  next
    case (DReadTl rq h r c v)
    then obtain rg where "ring q rq = Inr rg" using ringE L by fastforce
    then show ?thesis using DReadTl L go deq_empty_ok by simp
  next
    case (DTake rq h r tt c v)
    then show ?thesis using L cas [of rq c h] slots by simp
  next
    case (DMark rq h r tt c v)
    then show ?thesis using L cas [of rq c h] slots by simp
  next
    case (DSkipUnsafe rq h r tt c v)
    then show ?thesis using L cas [of rq c h] slots by simp
  next
    case (DSkip rq h r tt c v)
    then show ?thesis using L cas [of rq "node_index c" h] slots by simp
  next
    case (DCheck rq h)
    then obtain r where "ring q rq = Inr r" using ringE L by fastforce
    then show ?thesis using DCheck L go [of "DFix rq FTail"] go [of DReadHead] by (simp add: deq_ok_def)
  next
    case (DFix rq p)
    then have rq: "rq \<in> P" using L by simp
    then obtain r q' where st: "fixState p rq q = Inr (r, q')" "mem_ok pw P q'" "public_change P q q'" "stored q' P = stored q P"
      using fixState_public [OF M P] by metis
    then show ?thesis using DFix rq by (auto simp: deq_result_def deq_ok_def split: option.split)
  next
    case (DNext rq)
    then obtain r where "ring q rq = Inr r" "set_option (rq_next r) \<subseteq> P" using ringE L by fastforce
    then show ?thesis using DNext L M by (cases "rq_next r") (auto simp: deq_result_def deq_ok_def val_set_def)
  next
    case (DSwing rq nx)
    then show ?thesis using L M by (auto simp: deq_result_def deq_ok_def mem_ok_def public_change_def stored_def)
  qed
qed

section \<open>Steps of the system\<close>

lemma public_dom: "public q thr \<subseteq> dom (q_mem q)"
  by (auto simp: public_def)

lemma spare_not_public: "t \<in> set thr \<Longrightarrow> a \<in> spare t \<Longrightarrow> a \<notin> public q thr"
  by (auto simp: public_def)

lemma public_update:
  assumes "i < length thr" and "spare t' = spare (thr ! i)" and "dom (q_mem q') = dom (q_mem q)"
  shows "public q' (thr[i := t']) = public q thr"
proof -
  have "map spare (thr[i := t']) = map spare thr" using assms(1,2) by (simp add: map_update list_update_same_conv)
  then have "spare ` set (thr[i := t']) = spare ` set thr" by (metis list.set_map)
  then show ?thesis using assms(3) by (simp add: public_def)
qed

definition pend :: "lthread \<Rightarrow> u64 multiset" where
  "pend t = (if linked (t_pc t) then {#l_arg (t_loc t)#} else {#})"

lemma pending_update:
  assumes "i < length thr"
  shows "pending (thr[i := t']) + pend (thr ! i) = pending thr + pend t'"
proof -
  let ?f = "\<lambda>M. image_mset (\<lambda>t. l_arg (t_loc t)) (filter_mset (\<lambda>t. linked (t_pc t)) M)"
  have one: "?f (add_mset t M) = pend t + ?f M" for t M by (simp add: pend_def)
  let ?M = "mset thr - {#thr ! i#}"
  have "mset thr = add_mset (thr ! i) ?M" using assms by simp
  then have "pending thr = pend (thr ! i) + ?f ?M" by (metis one mset_filter mset_map pending_def)
  moreover have "pending (thr[i := t']) = pend t' + ?f ?M"
    using assms by (simp add: pending_def mset_filter mset_update pend_def)
  ultimately show ?thesis by (simp add: ac_simps)
qed

lemma thr_ok_mono:
  assumes "thr_ok pw q P t" and "P \<subseteq> P'" and "dom (q_mem q) \<subseteq> dom (q_mem q')"
    and "\<And>a. a \<in> spare t \<Longrightarrow> q_mem q' a = q_mem q a"
  shows "thr_ok pw q' P' t"
proof -
  have "enq_ok q' P' pc (t_loc t)" if "t_pc t = LEnq pc" "enq_ok q P pc (t_loc t)" for pc
    using that assms(2,4) by (cases pc) (auto simp: enq_ok_def spare_def linked_def)
  moreover have "deq_ok P' pc" if "deq_ok P pc" for pc using that assms(2) by (auto simp: deq_ok_def)
  moreover have "set_option (l_nrq (t_loc t)) \<subseteq> dom (q_mem q')" using assms(1,3) unfolding thr_ok_def by blast
  ultimately show ?thesis using assms(1,4) by (cases "t_pc t") (auto simp: thr_ok_def)
qed

lemma conserve:
  fixes A A' S S' D D' p p' e e' :: "'a multiset"
  assumes "p' + e = p + e'" and "A' + e' + S + D = A + e + S' + D'" and "A + p = S + D"
  shows "A' + p' = S' + D'"
proof -
  have "(A' + p') + (e + S + D) = A' + (p' + e) + S + D" by (simp add: ac_simps)
  also have "\<dots> = (A' + e' + S + D) + p" unfolding assms(1) by (simp add: ac_simps)
  also have "\<dots> = (A + p) + (e + S' + D')" unfolding assms(2) by (simp add: ac_simps)
  also have "\<dots> = (S' + D') + (e + S + D)" unfolding assms(3) by (simp add: ac_simps)
  finally show ?thesis by (rule add_right_imp_eq)
qed

lemma Union_update:
  assumes "i < length xs" and "xs ! i \<subseteq> X"
  shows "\<Union> (set (xs[i := X])) = X \<union> \<Union> (set xs)"
proof
  show "\<Union> (set (xs[i := X])) \<subseteq> X \<union> \<Union> (set xs)" using set_update_subset_insert [of xs i X] by blast
  have "Y \<subseteq> \<Union> (set (xs[i := X]))" if "Y \<in> set xs" for Y
  proof -
    obtain j where j: "j < length xs" "Y = xs ! j" using \<open>Y \<in> set xs\<close> by (auto simp: in_set_conv_nth)
    then have "Y \<subseteq> xs[i := X] ! j" using assms by (cases "j = i") auto
    moreover have "xs[i := X] ! j \<in> set (xs[i := X])" using j(1) by simp
    ultimately show ?thesis by blast
  qed
  moreover have "X \<in> set (xs[i := X])" using assms(1) by (rule set_update_memI)
  ultimately show "X \<union> \<Union> (set xs) \<subseteq> \<Union> (set (xs[i := X]))" by blast
qed

lemma public_spare_update:
  assumes "i < length thr" and "spare (thr ! i) \<subseteq> spare t'"
  shows "public q' (thr[i := t']) = dom (q_mem q') - spare t' - \<Union> (spare ` set thr)"
proof -
  have "\<Union> (spare ` set (thr[i := t'])) = \<Union> (set ((map spare thr)[i := spare t']))"
    by (simp flip: map_update)
  then show ?thesis using Union_update [of i "map spare thr" "spare t'"] assms by (auto simp: public_def)
qed

lemma inv_update:
  assumes inv: "lcrq_inv gm pw y" and i: "i < length (y_thr y)"
    and P: "public (y_q y) (y_thr y) \<subseteq> public q' ((y_thr y)[i := t'])" "dom (q_mem (y_q y)) \<subseteq> dom (q_mem q')"
    and others: "\<And>t a. t \<in> set (y_thr y) \<Longrightarrow> a \<in> spare t \<Longrightarrow>
      a \<notin> set_option (l_nrq (t_loc (y_thr y ! i))) \<Longrightarrow> q_mem q' a = q_mem (y_q y) a"
    and mem: "alloc_ok gm q'" "mem_ok pw (public q' ((y_thr y)[i := t'])) q'"
    and thr: "thr_ok pw q' (public q' ((y_thr y)[i := t'])) t'"
    and nrq: "set_option (l_nrq (t_loc t')) \<subseteq> set_option (l_nrq (t_loc (y_thr y ! i))) \<union> - dom (q_mem (y_q y))"
    and cons: "mset ins + pend t' + stored (y_q y) (public (y_q y) (y_thr y)) + delivered (y_out y) =
      mset (y_in y) + pend (y_thr y ! i) + stored q' (public q' ((y_thr y)[i := t'])) + delivered outs"
  shows "lcrq_inv gm pw (after_step i t' q' ins outs y)"
proof -
  let ?P = "public (y_q y) (y_thr y)" and ?P' = "public q' ((y_thr y)[i := t'])"
  note I = inv [unfolded lcrq_inv_def Let_def]
  have dist: "set_option (l_nrq (t_loc (y_thr y ! j))) \<inter> set_option (l_nrq (t_loc (y_thr y ! i))) = {}"
    if "j < length (y_thr y)" "j \<noteq> i" for j
    using I that i by (auto simp: nrq_distinct_def)
  have nrq_dom: "set_option (l_nrq (t_loc (y_thr y ! j))) \<subseteq> dom (q_mem (y_q y))" if "j < length (y_thr y)" for j
    using I that by (auto simp: thr_ok_def)
  have "thr_ok pw q' ?P' (y_thr y ! j)" if j: "j < length (y_thr y)" "j \<noteq> i" for j
  proof (rule thr_ok_mono [OF _ P])
    show "thr_ok pw (y_q y) ?P (y_thr y ! j)" using I j by simp
    fix a assume "a \<in> spare (y_thr y ! j)"
    moreover from this have "a \<notin> set_option (l_nrq (t_loc (y_thr y ! i)))"
      using dist [OF j] by (auto simp: spare_def split: if_splits)
    ultimately show "q_mem q' a = q_mem (y_q y) a" using others [of "y_thr y ! j"] nth_mem [OF j(1)] by blast
  qed
  then have "thr_ok pw q' ?P' ((y_thr y)[i := t'] ! j)" if "j < length (y_thr y)" for j
    using thr i that by (cases "j = i") simp_all
  then have "\<forall>t \<in> set ((y_thr y)[i := t']). thr_ok pw q' ?P' t"
    by (auto simp: in_set_conv_nth)
  moreover have "nrq_distinct ((y_thr y)[i := t'])"
    unfolding nrq_distinct_def
  proof (intro allI impI)
    fix j k
    assume jk: "j < length ((y_thr y)[i := t'])" "k < length ((y_thr y)[i := t'])" "j \<noteq> k"
    have free: "set_option (l_nrq (t_loc t')) \<inter> set_option (l_nrq (t_loc (y_thr y ! m))) = {}"
      if "m < length (y_thr y)" "m \<noteq> i" for m
      using nrq dist [OF that] nrq_dom [OF that(1)] by blast
    show "set_option (l_nrq (t_loc ((y_thr y)[i := t'] ! j))) \<inter> set_option (l_nrq (t_loc ((y_thr y)[i := t'] ! k))) = {}"
      using jk free [of k] free [of j] I i by (cases "j = i"; cases "k = i") (auto simp: nrq_distinct_def)
  qed
  moreover have "mset ins + pending ((y_thr y)[i := t']) = stored q' ?P' + delivered outs"
    using conserve [OF pending_update [OF i] cons] I by blast
  ultimately show ?thesis using mem by (simp add: lcrq_inv_def Let_def after_step_def)
qed

text \<open>A step that changes public rings only.\<close>

lemma inv_public:
  assumes inv: "lcrq_inv gm pw y" and i: "i < length (y_thr y)"
    and q: "public_change (public (y_q y) (y_thr y)) (y_q y) q'" "mem_ok pw (public (y_q y) (y_thr y)) q'"
    and t: "l_nrq (t_loc t') = l_nrq (t_loc (y_thr y ! i))" "\<not> linked (t_pc t')" "\<not> linked (t_pc (y_thr y ! i))"
    and pc: "case t_pc t' of LIdle \<Rightarrow> True | LEnq pc \<Rightarrow> enq_ok q' (public (y_q y) (y_thr y)) pc (t_loc t')
      | LDeq pc \<Rightarrow> deq_ok (public (y_q y) (y_thr y)) pc"
    and cons: "mset ins + stored (y_q y) (public (y_q y) (y_thr y)) + delivered (y_out y) =
      mset (y_in y) + stored q' (public (y_q y) (y_thr y)) + delivered outs"
  shows "lcrq_inv gm pw (after_step i t' q' ins outs y)"
proof -
  let ?P = "public (y_q y) (y_thr y)" and ?t = "y_thr y ! i"
  have d: "dom (q_mem q') = dom (q_mem (y_q y))" "\<And>a. a \<notin> ?P \<Longrightarrow> q_mem q' a = q_mem (y_q y) a"
    using q(1) by (simp_all add: public_change_def)
  have sp: "spare t' = spare ?t" using t by (simp add: spare_def)
  have P: "public q' ((y_thr y)[i := t']) = ?P" by (rule public_update [OF i sp d(1)])
  have outside: "q_mem q' a = q_mem (y_q y) a" if "u \<in> set (y_thr y)" "a \<in> spare u" for u a
    using d(2) spare_not_public [OF that] by blast
  have "thr_ok pw (y_q y) ?P ?t" using inv i by (simp add: lcrq_inv_def Let_def)
  then have "thr_ok pw q' ?P t'"
    using pc sp t(1) d(1) outside [of ?t] i by (auto simp: thr_ok_def)
  moreover have "alloc_ok gm q'" using inv q(1) by (simp add: lcrq_inv_def Let_def alloc_ok_def public_change_def)
  ultimately show ?thesis
    using q(2) t d(1) outside cons by (intro inv_update [OF inv i]) (simp_all add: P pend_def)
qed

lemma inv_call:
  assumes "lcrq_inv gm pw y" and "i < length (y_thr y)" and "t_pc (y_thr y ! i) = LIdle" and "call \<noteq> Some (- 1)"
  shows "lcrq_inv gm pw (lcrq_call i call y)"
proof -
  define t' where "t' = (case call of None \<Rightarrow> (y_thr y ! i)\<lparr>t_pc := LDeq DReadHead\<rparr>
    | Some v \<Rightarrow> (y_thr y ! i)\<lparr>t_pc := LEnq EReadTail, t_loc := (t_loc (y_thr y ! i))\<lparr>l_arg := v, l_try := 0\<rparr>\<rparr>)"
  have "lcrq_call i call y = after_step i t' (y_q y) (y_in y) (y_out y) y"
    by (simp add: lcrq_call_def Let_def t'_def)
  moreover have "mem_ok pw (public (y_q y) (y_thr y)) (y_q y)" using assms(1) by (simp add: lcrq_inv_def Let_def)
  ultimately show ?thesis
    using assms by (auto intro!: inv_public simp: t'_def linked_def enq_ok_def deq_ok_def split: option.splits)
qed

lemma inv_deq:
  assumes inv: "lcrq_inv gm pw y" and i: "i < length (y_thr y)" and pw: "pw < 64" and pc: "t_pc (y_thr y ! i) = LDeq pc"
  shows "\<exists>y'. lcrq_run gm pw i y = Inr y' \<and> lcrq_inv gm pw y'"
proof -
  let ?P = "public (y_q y) (y_thr y)" and ?t = "y_thr y ! i"
  have M: "mem_ok pw ?P (y_q y)" and "thr_ok pw (y_q y) ?P ?t" using inv i by (simp_all add: lcrq_inv_def Let_def)
  then have "deq_ok ?P pc" using pc by (simp add: thr_ok_def)
  then obtain out q' where st: "deq_step pw pc (y_q y) = Inr (out, q')" "deq_result pw ?P (y_q y) (out, q')"
    using deq_step_public [OF M public_dom pw] by fastforce
  note R = st(2) [unfolded deq_result_def]
  show ?thesis
  proof (cases out)
    case (DGo pc')
    let ?t' = "?t\<lparr>t_pc := LDeq pc'\<rparr>"
    have "lcrq_inv gm pw (after_step i ?t' q' (y_in y) (y_out y) y)"
      using R DGo pc by (intro inv_public [OF inv i]) (simp_all add: linked_def)
    then show ?thesis using pc st(1) DGo by (simp add: lcrq_run_def Let_def)
  next
    case (DReturn v)
    let ?t' = "?t\<lparr>t_pc := LIdle\<rparr>"
    have "delivered (y_out y @ [v]) = delivered (y_out y) + val_set v" by (simp add: delivered_def val_set_def)
    then have "lcrq_inv gm pw (after_step i ?t' q' (y_in y) (y_out y @ [v]) y)"
      using R DReturn pc by (intro inv_public [OF inv i]) (simp_all add: linked_def ac_simps)
    then show ?thesis using pc st(1) DReturn by (simp add: lcrq_run_def Let_def)
  qed
qed

lemma inv_enq_public:
  assumes inv: "lcrq_inv gm pw y" and i: "i < length (y_thr y)" and pw: "pw < 64" and pc: "t_pc (y_thr y ! i) = LEnq pc"
    and pub: "\<And>rq. pc \<noteq> EAlloc rq \<and> pc \<noteq> ELink rq \<and> pc \<noteq> ESwingNew rq"
  shows "\<exists>y'. lcrq_run gm pw i y = Inr y' \<and> lcrq_inv gm pw y'"
proof -
  let ?P = "public (y_q y) (y_thr y)" and ?t = "y_thr y ! i"
  have M: "mem_ok pw ?P (y_q y)" and "thr_ok pw (y_q y) ?P ?t" using inv i by (simp_all add: lcrq_inv_def Let_def)
  then have ok: "enq_ok (y_q y) ?P pc (t_loc ?t)" using pc by (simp add: thr_ok_def)
  obtain r l' q' where st: "enq_step gm pw pc (t_loc ?t) (y_q y) = Inr (r, l', q')"
    "enq_result pw ?P (t_loc ?t) (y_q y) (r, l', q')"
    using enq_step_public [OF M public_dom pw ok pub] by fastforce
  note R = st(2) [unfolded enq_result_def]
  have nl: "\<not> linked (t_pc ?t)" using pub pc by (auto simp: linked_def split: enq_pc.split)
  show ?thesis
  proof (cases r)
    case (Some pc')
    let ?t' = "\<lparr>t_pc = LEnq pc', t_loc = l'\<rparr>"
    have "lcrq_inv gm pw (after_step i ?t' q' (y_in y) (y_out y) y)"
      using R Some nl by (intro inv_public [OF inv i]) simp_all
    then show ?thesis using pc st(1) Some by (simp add: lcrq_run_def Let_def)
  next
    case None
    let ?t' = "\<lparr>t_pc = LIdle, t_loc = l'\<rparr>"
    have "lcrq_inv gm pw (after_step i ?t' q' (y_in y @ [l_arg l']) (y_out y) y)"
      using R None nl by (intro inv_public [OF inv i]) (simp_all add: linked_def)
    then show ?thesis using pc st(1) None by (simp add: lcrq_run_def Let_def)
  qed
qed

lemma solo_vals:
  assumes "ring_ok pw r" and "spare_ok pw r" and "arg \<noteq> - 1"
  shows "ring_vals (solo arg r) = {#arg#}" and "ring_ok pw (solo arg r)" and "spare_ok pw (solo arg r)"
    and "rq_next (solo arg r) = rq_next r"
proof -
  obtain n ns where r: "rq_array r = n # ns" using assms(1) by (cases "rq_array r") (auto simp: ring_ok_def)
  have "n_val (ns ! i) = - 1" if "i < length ns" for i
    using assms(1,2) that r by (force simp: ring_ok_def spare_ok_def dest: spec [of _ "Suc i"])
  then have "\<forall>v \<in> set (map n_val ns). v = - 1" by (auto simp: in_set_conv_nth)
  then have "filter (\<lambda>v. v \<noteq> - 1) (map n_val ns) = []" by (simp add: filter_empty_conv)
  with assms(3) show "ring_vals (solo arg r) = {#arg#}" by (simp add: ring_vals_def solo_def r)
  have "slot pw 0 = 0" by (simp add: slot_def)
  then show "ring_ok pw (solo arg r)" "spare_ok pw (solo arg r)" "rq_next (solo arg r) = rq_next r"
    using assms(1,2) by (auto simp: ring_ok_def spare_ok_def solo_def nth_list_update)
qed

lemma init_ring_ok:
  assumes "pw < 64"
  shows "ring_ok pw (init_ring pw)" and "spare_ok pw (init_ring pw)" and "rq_next (init_ring pw) = None"
    and "ring_vals (init_ring pw) = {#}"
proof -
  have "slot pw (of_nat i) = i" if "i < 2 ^ pw" for i
  proof -
    have "(2 :: nat) ^ pw < 2 ^ 64" using assms by (intro power_strict_increasing) simp_all
    with that assms show ?thesis by (simp add: slot_mod unat_of_nat)
  qed
  then show "ring_ok pw (init_ring pw)" "spare_ok pw (init_ring pw)" "rq_next (init_ring pw) = None"
    "ring_vals (init_ring pw) = {#}"
    by (simp_all add: ring_ok_def spare_ok_def init_ring_def ring_vals_def filter_empty_conv)
qed

text \<open>The solo enqueue writes the spare ring, which no other thread can reach.\<close>

lemma alloc_step:
  assumes inv: "lcrq_inv gm pw y" and i: "i < length (y_thr y)" and pw: "pw < 64"
    and gm: "getMemory_ok gm" and pc: "t_pc (y_thr y ! i) = LEnq (EAlloc rq)"
  obtains a r q' where
    "enq_step gm pw (EAlloc rq) (t_loc (y_thr y ! i)) (y_q y) =
      Inr (Some (ELink rq), (t_loc (y_thr y ! i))\<lparr>l_nrq := Some a\<rparr>, q')"
    and "q_mem q' = (q_mem (y_q y))(a \<mapsto> solo (l_arg (t_loc (y_thr y ! i))) r)"
    and "q_head q' = q_head (y_q y)" and "q_tail q' = q_tail (y_q y)" and "alloc_ok gm q'"
    and "ring_ok pw r" and "spare_ok pw r" and "rq_next r = None"
    and "a \<in> spare (y_thr y ! i) \<and> q_mem (y_q y) a = Some r \<or>
      spare (y_thr y ! i) = {} \<and> a \<notin> dom (q_mem (y_q y)) \<and> r = init_ring pw"
proof -
  let ?q = "y_q y" and ?t = "y_thr y ! i" and ?l = "t_loc (y_thr y ! i)"
  let ?P = "public ?q (y_thr y)"
  have M: "mem_ok pw ?P ?q" and T: "thr_ok pw ?q ?P ?t" and G: "alloc_ok gm ?q"
    using inv i by (simp_all add: lcrq_inv_def Let_def)
  show thesis
  proof (cases "l_nrq ?l")
    case None
    let ?a = "gm (q_allocs ?q)"
    let ?q' = "put_ring ?a (solo (l_arg ?l) (init_ring pw)) (?q\<lparr>q_allocs := Suc (q_allocs ?q)\<rparr>)"
    have "?a \<notin> gm ` {..<q_allocs ?q}" using gm by (auto simp: getMemory_ok_def dest: injD)
    then have "?a \<notin> dom (q_mem ?q)" "alloc_ok gm ?q'"
      using G by (auto simp: alloc_ok_def put_ring_def lessThan_Suc)
    with None show thesis
      using that [of ?a ?q' "init_ring pw"] init_ring_ok [OF pw] by (simp add: put_ring_def spare_def)
  next
    case (Some a)
    have sp: "a \<in> spare ?t" using Some pc by (simp add: spare_def linked_def)
    obtain r where r: "q_mem ?q a = Some r" using T Some by (auto simp: thr_ok_def)
    then have "spare_ok pw r" "rq_next r = None" "ring_ok pw r" "alloc_ok gm (put_ring a (solo (l_arg ?l) r) ?q)"
      using T M sp G by (auto simp: thr_ok_def mem_ok_def alloc_ok_def put_ring_def)
    with r Some sp show thesis
      using that [of a "put_ring a (solo (l_arg ?l) r) ?q" r] by (cases ?l) (simp add: ring_def put_ring_def)
  qed
qed

lemma inv_alloc:
  assumes inv: "lcrq_inv gm pw y" and i: "i < length (y_thr y)" and pw: "pw < 64"
    and gm: "getMemory_ok gm" and pc: "t_pc (y_thr y ! i) = LEnq (EAlloc rq)"
  shows "\<exists>y'. lcrq_run gm pw i y = Inr y' \<and> lcrq_inv gm pw y'"
proof -
  let ?q = "y_q y" and ?t = "y_thr y ! i"
  let ?P = "public ?q (y_thr y)" and ?l = "t_loc (y_thr y ! i)"
  have M: "mem_ok pw ?P ?q" and T: "thr_ok pw ?q ?P ?t"
    using inv i by (simp_all add: lcrq_inv_def Let_def)
  then have ok: "rq \<in> ?P" "l_arg ?l \<noteq> - 1" using pc by (simp_all add: thr_ok_def enq_ok_def)
  obtain a r q' where A: "enq_step gm pw (EAlloc rq) ?l ?q = Inr (Some (ELink rq), ?l\<lparr>l_nrq := Some a\<rparr>, q')"
    "q_mem q' = (q_mem ?q)(a \<mapsto> solo (l_arg ?l) r)" "q_head q' = q_head ?q" "q_tail q' = q_tail ?q" "alloc_ok gm q'"
    "ring_ok pw r" "spare_ok pw r" "rq_next r = None"
    "a \<in> spare ?t \<and> q_mem ?q a = Some r \<or> spare ?t = {} \<and> a \<notin> dom (q_mem ?q) \<and> r = init_ring pw"
    by (rule alloc_step [OF assms])
  note S = solo_vals [OF A(6,7) ok(2)]
  let ?t' = "\<lparr>t_pc = LEnq (ELink rq), t_loc = ?l\<lparr>l_nrq := Some a\<rparr>\<rparr>"
  have out: "a \<notin> ?P" using A(9) spare_not_public [of ?t "y_thr y" a ?q] i by (auto simp: public_def)
  have sp': "spare ?t' = {a}" by (simp add: spare_def linked_def)
  have "spare ?t \<subseteq> spare ?t'" using A(9) sp' by (auto simp: spare_def split: if_splits)
  then have P: "public q' ((y_thr y)[i := ?t']) = ?P"
    using public_spare_update [OF i, of ?t' q'] sp' A(2) out by (auto simp: public_def)
  have "stored q' ?P = stored ?q ?P" unfolding stored_def using out A(2) by (intro sum.cong) auto
  moreover have "mem_ok pw ?P q'" using M A(2-4,8) S by (auto simp: mem_ok_def)
  moreover have "thr_ok pw q' ?P ?t'" using ok A(2) S by (simp add: thr_ok_def enq_ok_def sp' A(8))
  moreover have "q_mem q' b = q_mem ?q b" if "u \<in> set (y_thr y)" "b \<in> spare u" "b \<notin> set_option (l_nrq ?l)" for u b
    using A(2,9) that inv by (auto simp: lcrq_inv_def Let_def thr_ok_def spare_def split: if_splits)
  ultimately have "lcrq_inv gm pw (after_step i ?t' q' (y_in y) (y_out y) y)"
    using A(2,5,9) pc
    by (intro inv_update [OF inv i]) (auto simp: P pend_def linked_def spare_def split: if_splits)
  then show ?thesis using pc A(1) by (simp add: lcrq_run_def Let_def)
qed

lemma public_iff: "b \<in> public q thr \<longleftrightarrow> b \<in> dom (q_mem q) \<and> (\<forall>j<length thr. b \<notin> spare (thr ! j))"
  unfolding public_def by (auto simp: in_set_conv_nth) (metis nth_mem)

lemma public_release:
  assumes "i < length thr" and "spare t' = {}" and "dom (q_mem q') = dom (q_mem q)" and "spare (thr ! i) = {a}"
    and "a \<in> dom (q_mem q)" and "\<And>j. j < length thr \<Longrightarrow> a \<in> spare (thr ! j) \<Longrightarrow> j = i"
  shows "public q' (thr[i := t']) = insert a (public q thr)"
proof (rule set_eqI)
  fix b
  have "(\<forall>j<length thr. b \<notin> spare (thr[i := t'] ! j)) \<longleftrightarrow> (\<forall>j<length thr. j \<noteq> i \<longrightarrow> b \<notin> spare (thr ! j))"
    using assms(1,2) by (auto simp: nth_list_update)
  also have "\<dots> \<longleftrightarrow> b = a \<or> (\<forall>j<length thr. b \<notin> spare (thr ! j))"
    using assms(4,6) by (cases "b = a") auto
  finally show "b \<in> public q' (thr[i := t']) \<longleftrightarrow> b \<in> insert a (public q thr)"
    using assms(3,5) by (auto simp: public_iff)
qed

text \<open>No other thread has the spare ring of thread \<open>i\<close>.\<close>

lemma spare_of_others:
  assumes "lcrq_inv gm pw y" and "i < length (y_thr y)" and "l_nrq (t_loc (y_thr y ! i)) = Some a"
    and "j < length (y_thr y)" and "a \<in> spare (y_thr y ! j)"
  shows "j = i"
  using assms by (auto simp: lcrq_inv_def Let_def nrq_distinct_def spare_def split: if_splits)

text \<open>Linking the spare ring makes it public, with the value in it.\<close>

lemma inv_link:
  assumes inv: "lcrq_inv gm pw y" and i: "i < length (y_thr y)" and pc: "t_pc (y_thr y ! i) = LEnq (ELink rq)"
  shows "\<exists>y'. lcrq_run gm pw i y = Inr y' \<and> lcrq_inv gm pw y'"
proof -
  let ?q = "y_q y" and ?t = "y_thr y ! i"
  let ?P = "public ?q (y_thr y)" and ?l = "t_loc (y_thr y ! i)"
  have M: "mem_ok pw ?P ?q" and T: "thr_ok pw ?q ?P ?t" and G: "alloc_ok gm ?q"
    using inv i by (simp_all add: lcrq_inv_def Let_def)
  then have ok: "enq_ok ?q ?P (ELink rq) ?l" using pc by (simp add: thr_ok_def)
  then obtain a ra where a: "l_nrq ?l = Some a" "q_mem ?q a = Some ra" "ring_vals ra = {#l_arg ?l#}"
    by (auto simp: enq_ok_def)
  have rq: "rq \<in> ?P" and arg: "l_arg ?l \<noteq> - 1" using ok by (simp_all add: enq_ok_def)
  obtain r where r: "ring ?q rq = Inr r" "q_mem ?q rq = Some r" "ring_ok pw r" "set_option (rq_next r) \<subseteq> ?P"
    by (rule ring_public [OF M public_dom rq])
  have sp: "spare ?t = {a}" using a(1) pc by (simp add: spare_def linked_def)
  have out: "a \<notin> ?P" using spare_not_public [of ?t "y_thr y" a ?q] sp i by simp
  show ?thesis
  proof (cases "rq_next r")
    case (Some nx)
    have "lcrq_inv gm pw (after_step i \<lparr>t_pc = LEnq EReadTail, t_loc = ?l\<rparr> ?q (y_in y) (y_out y) y)"
      using M arg pc by (intro inv_public [OF inv i]) (simp_all add: linked_def enq_ok_def)
    then show ?thesis using Some pc r(1) by (simp add: lcrq_run_def Let_def)
  next
    case None
    let ?q' = "put_ring rq (r\<lparr>rq_next := Some a\<rparr>) ?q" and ?t' = "\<lparr>t_pc = LEnq (ESwingNew rq), t_loc = ?l\<rparr>"
    have mem': "q_mem ?q' = (q_mem ?q)(rq \<mapsto> r\<lparr>rq_next := Some a\<rparr>)" by (simp add: put_ring_def)
    then have dom': "dom (q_mem ?q') = dom (q_mem ?q)" using r(2) by auto
    have sp': "spare ?t' = {}" by (simp add: spare_def linked_def)
    have "a \<in> dom (q_mem ?q)" using a(2) by blast
    then have P: "public ?q' ((y_thr y)[i := ?t']) = insert a ?P"
      by (rule public_release [OF i sp' dom' sp _ spare_of_others [OF inv i a(1)]])
    have fin: "finite ?P" using M public_dom finite_subset unfolding mem_ok_def by metis
    have "ring_vals (r\<lparr>rq_next := Some a\<rparr>) = ring_vals r" by (simp add: ring_vals_def)
    then have "stored ?q' ?P = stored ?q ?P" using stored_put [OF fin rq r(2), of "r\<lparr>rq_next := Some a\<rparr>"] by simp
    moreover have "stored ?q' (insert a ?P) = ring_vals ra + stored ?q' ?P"
      using fin out a(2) rq mem' by (auto simp: stored_def)
    ultimately have st: "stored ?q' (insert a ?P) = add_mset (l_arg ?l) (stored ?q ?P)" using a(3) by simp
    have "mem_ok pw (insert a ?P) ?q" using M unfolding mem_ok_def by blast
    then have "mem_ok pw (insert a ?P) ?q'"
      using public_dom a(2) rq r(2,3) by (intro put_public(1)) (auto simp: ring_ok_def public_def)
    moreover have "alloc_ok gm ?q'" using G dom' by (simp add: alloc_ok_def put_ring_def)
    moreover have "thr_ok pw ?q' (insert a ?P) ?t'"
      using rq arg a dom' by (auto simp: thr_ok_def enq_ok_def sp')
    moreover have "q_mem ?q' b = q_mem ?q b" if "u \<in> set (y_thr y)" "b \<in> spare u" for u b
      using spare_not_public [OF that] rq mem' by auto
    ultimately have "lcrq_inv gm pw (after_step i ?t' ?q' (y_in y) (y_out y) y)"
      using dom' a(1) pc by (intro inv_update [OF inv i]) (simp_all add: P st pend_def linked_def subset_insertI)
    then show ?thesis using None pc r(1) a(1) by (simp add: lcrq_run_def Let_def)
  qed
qed

lemma inv_swing_new:
  assumes inv: "lcrq_inv gm pw y" and i: "i < length (y_thr y)" and pc: "t_pc (y_thr y ! i) = LEnq (ESwingNew rq)"
  shows "\<exists>y'. lcrq_run gm pw i y = Inr y' \<and> lcrq_inv gm pw y'"
proof -
  let ?q = "y_q y" and ?t = "y_thr y ! i"
  let ?P = "public ?q (y_thr y)" and ?l = "t_loc (y_thr y ! i)"
  have M: "mem_ok pw ?P ?q" and T: "thr_ok pw ?q ?P ?t" and G: "alloc_ok gm ?q"
    using inv i by (simp_all add: lcrq_inv_def Let_def)
  then obtain a where a: "l_nrq ?l = Some a" "a \<in> dom (q_mem ?q)" using pc by (auto simp: thr_ok_def enq_ok_def)
  have sp: "spare ?t = {}" using pc by (simp add: spare_def linked_def)
  have aP: "a \<in> ?P" using a(2) spare_of_others [OF inv i a(1)] sp unfolding public_iff by auto
  let ?q' = "if q_tail ?q = rq then ?q\<lparr>q_tail := a\<rparr> else ?q" and ?t' = "\<lparr>t_pc = LIdle, t_loc = ?l\<lparr>l_nrq := None\<rparr>\<rparr>"
  have mem': "q_mem ?q' = q_mem ?q" by simp
  have "spare ?t' = spare ?t" unfolding sp by (simp add: spare_def)
  then have P: "public ?q' ((y_thr y)[i := ?t']) = ?P" by (rule public_update [OF i]) simp
  have "mem_ok pw ?P ?q'" "alloc_ok gm ?q'" "stored ?q' ?P = stored ?q ?P"
    using M G aP by (simp_all add: mem_ok_def alloc_ok_def stored_def)
  moreover have "thr_ok pw ?q' ?P ?t'" by (simp add: thr_ok_def spare_def)
  ultimately have "lcrq_inv gm pw (after_step i ?t' ?q' (y_in y @ [l_arg ?l]) (y_out y) y)"
    using mem' pc unfolding P [symmetric]
    by (intro inv_update [OF inv i]) (simp_all only: P, simp_all add: pend_def linked_def)
  then show ?thesis using pc a(1) by (simp add: lcrq_run_def Let_def)
qed

section \<open>Every interleaving\<close>

lemma inv_run:
  assumes "lcrq_inv gm pw y" and "i < length (y_thr y)" and "pw < 64" and "getMemory_ok gm"
  shows "\<exists>y'. lcrq_run gm pw i y = Inr y' \<and> lcrq_inv gm pw y'"
proof (cases "t_pc (y_thr y ! i)")
  case LIdle
  then show ?thesis using assms(1) by (simp add: lcrq_run_def Let_def)
next
  case (LEnq pc)
  then show ?thesis
    using inv_alloc [OF assms] inv_link [OF assms(1,2)] inv_swing_new [OF assms(1,2)] inv_enq_public [OF assms(1-3) LEnq]
    by metis
next
  case (LDeq pc)
  then show ?thesis using inv_deq [OF assms(1-3)] by simp
qed

lemma inv_start: "pw < 64 \<Longrightarrow> lcrq_inv gm pw (lcrq_start gm pw FULL n)"
proof -
  assume pw: "pw < 64"
  have thr: "spare t = {}" "\<not> linked (t_pc t)" "l_nrq (t_loc t) = None" "t_pc t = LIdle"
    if "t \<in> set (replicate n new_lthread)" for t
    using that by (auto simp: spare_def linked_def new_lthread_def)
  let ?q = "SHARED_OBJECT_INIT gm pw FULL" and ?xs = "if FULL then replicate (2 ^ pw div 2) 0 else [] :: u64 list"
  have P: "public (y_q (lcrq_start gm pw FULL n)) (y_thr (lcrq_start gm pw FULL n)) = {gm 0}"
    using thr by (auto simp: public_def lcrq_start_def SHARED_OBJECT_INIT_def Let_def)
  obtain r where r: "q_mem ?q = [gm 0 \<mapsto> r]" "ring_ok pw r" "rq_next r = None" "ring_vals r = mset ?xs"
  proof
    show "q_mem ?q = [gm 0 \<mapsto> the (q_mem ?q (gm 0))]" "rq_next (the (q_mem ?q (gm 0))) = None"
      by (simp_all add: SHARED_OBJECT_INIT_def init_ring_def Let_def)
    show "ring_ok pw (the (q_mem ?q (gm 0)))"
      using init_ring_ok(1) [OF pw] by (auto simp: ring_ok_def SHARED_OBJECT_INIT_def init_ring_def Let_def nth_append)
    have "filter (\<lambda>v. v \<noteq> - 1) (map n_val (drop k (rq_array (init_ring pw)))) = []" for k
      using init_ring_ok(4) [OF pw] set_drop_subset [of k "rq_array (init_ring pw)"]
      by (auto simp: ring_vals_def filter_empty_conv)
    moreover have "filter (\<lambda>v. v \<noteq> - 1) (map n_val (map (\<lambda>i. \<lparr>n_val = 0, n_idx = of_nat i\<rparr>) [0..<k])) = replicate k 0" for k
      by (simp add: o_def map_replicate_const)
    ultimately have "filter (\<lambda>v. v \<noteq> - 1) (map n_val (rq_array (the (q_mem ?q (gm 0))))) = ?xs"
      using init_ring_ok(4) [OF pw]
      by (auto simp: SHARED_OBJECT_INIT_def Let_def ring_vals_def filter_empty_conv simp del: map_map)
    then show "ring_vals (the (q_mem ?q (gm 0))) = mset ?xs" by (simp only: ring_vals_def)
  qed
  have "stored (y_q (lcrq_start gm pw FULL n)) {gm 0} = mset ?xs"
    using r by (simp add: stored_def lcrq_start_def)
  then show ?thesis
    using r thr unfolding lcrq_inv_def Let_def P
    by (simp add: lcrq_start_def mem_ok_def alloc_ok_def thr_ok_def nrq_distinct_def
        pending_def delivered_def filter_replicate new_lthread_def linked_def spare_def)
      (simp add: SHARED_OBJECT_INIT_def Let_def)
qed

lemma inv_step: "lcrq_step gm pw y y' \<Longrightarrow> pw < 64 \<Longrightarrow> getMemory_ok gm \<Longrightarrow> lcrq_inv gm pw y \<Longrightarrow> lcrq_inv gm pw y'"
proof (induction rule: lcrq_step.induct)
  case (step_call i y call)
  then show ?case by (intro inv_call)
next
  case (step_run i y y')
  then show ?case using inv_run [of gm pw y i] by auto
qed

lemma lcrq_reachable:
  assumes "(lcrq_step gm pw)\<^sup>*\<^sup>* (lcrq_start gm pw FULL n) y" and "pw < 64" and "getMemory_ok gm"
  shows "lcrq_inv gm pw y"
  using assms by (induction rule: rtranclp_induct) (auto intro: inv_start inv_step)

end
