(* ===== verification/Lcrq_Fifo.thy ===== *)
theory Lcrq_Fifo
  imports Lcrq_Safety
begin

text \<open>
  The concurrent queue used by one call at a time: \<open>enqueue\<close> and \<open>dequeue\<close> refine a FIFO queue, over any
  number of rings.
\<close>

unbundle bit_operations_syntax

section \<open>Tickets as numbers\<close>

lemma unat_ticket: "n < 2 ^ 63 \<Longrightarrow> unat (of_nat n :: u64) = n"
  by (simp add: unat_of_nat)

lemma ticket_le: "m < 2 ^ 63 \<Longrightarrow> n < 2 ^ 63 \<Longrightarrow> (of_nat m :: u64) \<le> of_nat n \<longleftrightarrow> m \<le> n"
  by (simp add: word_le_nat_alt unat_ticket)

lemma ticket_less: "m < 2 ^ 63 \<Longrightarrow> n < 2 ^ 63 \<Longrightarrow> (of_nat m :: u64) < of_nat n \<longleftrightarrow> m < n"
  by (simp add: word_less_nat_alt unat_ticket)

lemma bit_ticket: "n < 2 ^ 63 \<Longrightarrow> \<not> bit (of_nat n :: u64) 63"
proof -
  assume n: "n < 2 ^ 63"
  have "bit (of_nat n :: u64) 63 \<longleftrightarrow> bit (unat (of_nat n :: u64)) 63" by (simp add: bit_unsigned_iff)
  also have "\<dots> \<longleftrightarrow> odd (n div 2 ^ 63)" unfolding unat_ticket [OF n] by (rule bit_iff_odd)
  finally show ?thesis using n by simp
qed

lemma ticket_bits:
  assumes "n < 2 ^ 63"
  shows "node_unsafe (of_nat n) = 0" and "node_index (of_nat n) = of_nat n" and "tail_index (of_nat n) = of_nat n"
    and "\<not> crq_is_closed (of_nat n)" and "tail_index (of_nat n OR UNSAFE_BIT) = of_nat n"
    and "crq_is_closed (x OR UNSAFE_BIT)"
proof -
  note b = bit_ticket [OF assms]
  show "node_unsafe (of_nat n) = 0" "node_index (of_nat n) = of_nat n" "tail_index (of_nat n) = of_nat n"
    "tail_index (of_nat n OR UNSAFE_BIT) = of_nat n"
    using b by (auto intro!: bit_eqI simp: node_unsafe_def node_index_def tail_index_def bit_and_iff bit_or_iff bit_not_iff)
  then show "\<not> crq_is_closed (of_nat n)" by (simp add: crq_is_closed_def node_unsafe_def)
  have "bit ((x OR UNSAFE_BIT) AND UNSAFE_BIT) 63" by (simp add: bit_and_iff bit_or_iff)
  then show "crq_is_closed (x OR UNSAFE_BIT)" unfolding crq_is_closed_def by (metis bit_0_eq bot_apply bot_bool_def)
qed

lemma slot_ticket: "pw < 64 \<Longrightarrow> n < 2 ^ 63 \<Longrightarrow> slot pw (of_nat n) = n mod 2 ^ pw"
  by (simp add: slot_mod unat_ticket)

section \<open>One ring\<close>

lemma mod_inj:
  assumes "((H :: nat) + j) mod m = (H + k) mod m" and "j < m" and "k < m"
  shows "j = k"
proof -
  have "((H + j) - (H + k)) mod m = 0" "((H + k) - (H + j)) mod m = 0"
    using assms(1) by (metis mod_eq_dvd_iff_nat mod_0_imp_dvd dvd_imp_mod_0 diff_is_0_eq mod_0 nle_le)+
  then show ?thesis using assms(2,3) by (cases "j \<le> k") auto
qed

text \<open>
  The ring holds \<open>xs\<close>, the first of them under ticket \<open>H\<close>.  The cells of the next tickets are empty, and their
  indices are no bar to an enqueue.
\<close>

definition ring_holds :: "nat \<Rightarrow> RingQueue \<Rightarrow> nat \<Rightarrow> u64 list \<Rightarrow> bool" where
  "ring_holds pw r H xs \<longleftrightarrow>
     rq_head r = of_nat H \<and> length (rq_array r) = 2 ^ pw \<and> length xs \<le> 2 ^ pw \<and> - 1 \<notin> set xs \<and>
     (\<forall>j<length xs. rq_array r ! ((H + j) mod 2 ^ pw) = \<lparr>n_val = xs ! j, n_idx = of_nat (H + j)\<rparr>) \<and>
     (\<forall>j. length xs \<le> j \<longrightarrow> j < 2 ^ pw \<longrightarrow>
        n_val (rq_array r ! ((H + j) mod 2 ^ pw)) = - 1 \<and> unat (n_idx (rq_array r ! ((H + j) mod 2 ^ pw))) \<le> H + j)"

lemma ring_holds_free:
  assumes "ring_holds pw r H xs" and "length xs \<le> j" and "j < 2 ^ pw" and "t = H + j"
  shows "n_val (rq_array r ! (t mod 2 ^ pw)) = - 1" and "unat (n_idx (rq_array r ! (t mod 2 ^ pw))) \<le> t"
  using assms by (simp_all add: ring_holds_def)

lemma ring_holds_hd:
  assumes "ring_holds pw r H (x # xs)"
  shows "rq_array r ! (H mod 2 ^ pw) = \<lparr>n_val = x, n_idx = of_nat H\<rparr>" and "x \<noteq> - 1"
proof -
  have "rq_array r ! ((H + 0) mod 2 ^ pw) = \<lparr>n_val = (x # xs) ! 0, n_idx = of_nat (H + 0)\<rparr>" "x \<noteq> - 1"
    using assms unfolding ring_holds_def by (blast intro: length_greater_0_conv [THEN iffD2], auto)
  then show "rq_array r ! (H mod 2 ^ pw) = \<lparr>n_val = x, n_idx = of_nat H\<rparr>" "x \<noteq> - 1" by simp_all
qed

lemma ring_holds_cong: "rq_head r' = rq_head r \<Longrightarrow> rq_array r' = rq_array r \<Longrightarrow> ring_holds pw r' H xs = ring_holds pw r H xs"
  by (simp add: ring_holds_def)

lemma ring_holds_rd:
  assumes "ring_holds pw r H xs" and "pw < 64" and "t < 2 ^ 63"
  shows "rd (rq_array r) (t mod 2 ^ pw) = Inr (rq_array r ! (t mod 2 ^ pw))" and "slot pw (of_nat t) = t mod 2 ^ pw"
  using assms by (simp_all add: ring_holds_def slot_ticket)

lemma ring_push:
  assumes "ring_holds pw r H xs" and "length xs < 2 ^ pw" and "v \<noteq> - 1"
  shows "ring_holds pw (r\<lparr>rq_tail := x, rq_array := (rq_array r)[(H + length xs) mod 2 ^ pw := \<lparr>n_val = v, n_idx = of_nat (H + length xs)\<rparr>]\<rparr>)
    H (xs @ [v])"
proof -
  have "(H + length xs) mod 2 ^ pw = (H + j) mod 2 ^ pw \<longleftrightarrow> j = length xs" if "j < 2 ^ pw" for j
    using mod_inj [of H "length xs" "2 ^ pw" j] that assms(2) by auto
  then show ?thesis using assms unfolding ring_holds_def by (auto simp: nth_list_update nth_append less_Suc_eq)
qed

text \<open>A dequeue moves the head on and leaves the cell to the ticket of the next round.\<close>

definition ring_pop :: "nat \<Rightarrow> nat \<Rightarrow> RingQueue \<Rightarrow> RingQueue" where
  "ring_pop pw H r =
     r\<lparr>rq_head := of_nat (Suc H), rq_array := (rq_array r)[H mod 2 ^ pw := \<lparr>n_val = - 1, n_idx = of_nat (H + 2 ^ pw)\<rparr>]\<rparr>"

lemma ring_pop_holds:
  assumes "ring_holds pw r H xs" and "H + 2 ^ pw < 2 ^ 63"
  shows "ring_holds pw (ring_pop pw H r) (Suc H) (tl xs)"
proof -
  have other: "(H + j) mod 2 ^ pw \<noteq> H mod 2 ^ pw" if "0 < j" "j < 2 ^ pw" for j
    using mod_inj [of H j "2 ^ pw" 0] that by auto
  have full: "rq_array (ring_pop pw H r) ! ((Suc H + j) mod 2 ^ pw) = rq_array r ! ((H + Suc j) mod 2 ^ pw)"
    if "Suc j < 2 ^ pw" for j
    using other [of "Suc j"] that by (simp add: ring_pop_def)
  have last: "rq_array (ring_pop pw H r) ! ((Suc H + j) mod 2 ^ pw) = \<lparr>n_val = - 1, n_idx = of_nat (H + 2 ^ pw)\<rparr>"
    if "Suc j = 2 ^ pw" for j
  proof -
    have "(Suc H + j) mod 2 ^ pw = (H + 2 ^ pw) mod 2 ^ pw" unfolding that [symmetric] by simp
    then have "(Suc H + j) mod 2 ^ pw = H mod 2 ^ pw" by simp
    moreover have "H mod 2 ^ pw < length (rq_array r)" using assms(1) by (simp add: ring_holds_def)
    ultimately show ?thesis by (simp add: ring_pop_def del: of_nat_add)
  qed
  have len: "length (tl xs) < 2 ^ pw" using assms(1) by (cases xs) (auto simp: ring_holds_def)
  have "rq_array (ring_pop pw H r) ! ((Suc H + j) mod 2 ^ pw) = \<lparr>n_val = tl xs ! j, n_idx = of_nat (Suc H + j)\<rparr>"
    if "j < length (tl xs)" for j
    using that len full [of j] assms(1) by (cases xs) (auto simp: ring_holds_def)
  moreover have "n_val (rq_array (ring_pop pw H r) ! ((Suc H + j) mod 2 ^ pw)) = - 1 \<and>
      unat (n_idx (rq_array (ring_pop pw H r) ! ((Suc H + j) mod 2 ^ pw))) \<le> Suc H + j"
    if "length (tl xs) \<le> j" "j < 2 ^ pw" for j
  proof (cases "Suc j = 2 ^ pw")
    case True
    then show ?thesis using assms(2) last [OF True] unat_ticket [OF assms(2)] by (simp del: of_nat_add)
  next
    case False
    then have "Suc j < 2 ^ pw" "length xs \<le> Suc j" using that by auto
    then show ?thesis using full [of j] ring_holds_free [OF assms(1), of "Suc j"] by simp
  qed
  moreover have "- 1 \<notin> set (tl xs)" using assms(1) by (cases xs) (auto simp: ring_holds_def)
  ultimately show ?thesis using assms(1) len unfolding ring_holds_def by (simp add: ring_pop_def)
qed

section \<open>Calls on one ring\<close>

lemma ring_put [simp]: "ring (put_ring a r q) b = (if b = a then Inr r else ring q b)"
  by (simp add: ring_def put_ring_def)

lemma put_put [simp]: "put_ring a r (put_ring a r' q) = put_ring a r q"
  by (simp add: put_ring_def)

lemma put_ring_select [simp]:
  "q_head (put_ring a r q) = q_head q" "q_tail (put_ring a r q) = q_tail q" "q_allocs (put_ring a r q) = q_allocs q"
  "q_mem (put_ring a r q) = (q_mem q)(a \<mapsto> r)"
  by (simp_all add: put_ring_def)

lemma put_ring_over: "put_ring a r (put_ring b r' (put_ring a r'' q)) = put_ring a r (put_ring b r' q)"
  by (auto simp: put_ring_def)

lemma put_ring_alloc:
  "(put_ring a r q)\<lparr>q_allocs := n\<rparr> = put_ring a r (q\<lparr>q_allocs := n\<rparr>)"
  by (simp add: put_ring_def)

lemma enq_run_more: "enq_run gm pw n pc l q = Inr (Some x) \<Longrightarrow> n \<le> m \<Longrightarrow> enq_run gm pw m pc l q = Inr (Some x)"
proof (induction n arbitrary: m pc l q)
  case (Suc n)
  then obtain m' where "m = Suc m'" "n \<le> m'" by (cases m) auto
  with Suc show ?case by (cases "enq_step gm pw pc l q") (auto split: option.splits)
qed simp

lemma deq_run_more: "deq_run pw n pc q = Inr (Some x) \<Longrightarrow> n \<le> m \<Longrightarrow> deq_run pw m pc q = Inr (Some x)"
proof (induction n arbitrary: m pc q)
  case (Suc n)
  then obtain m' where "m = Suc m'" "n \<le> m'" by (cases m) auto
  with Suc show ?case by (cases "deq_step pw pc q") (auto split: deq_out.splits)
qed simp

lemma run_numeral:
  "enq_run gm pw (numeral k) pc l q =
     rbind (enq_step gm pw pc l q) (\<lambda>(r, l', q').
     case r of None \<Rightarrow> Inr (Some (l', q')) | Some pc' \<Rightarrow> enq_run gm pw (pred_numeral k) pc' l' q')"
  "deq_run pw (numeral k) dpc q =
     rbind (deq_step pw dpc q) (\<lambda>(r, q').
     case r of DReturn v \<Rightarrow> Inr (Some (v, q')) | DGo pc' \<Rightarrow> deq_run pw (pred_numeral k) pc' q')"
  by (simp_all add: numeral_eq_Suc)

text \<open>A number of steps of \<open>dequeue\<close> without a return.\<close>

fun deq_iter :: "nat \<Rightarrow> nat \<Rightarrow> deq_pc \<Rightarrow> lcrq \<Rightarrow> (deq_pc \<times> lcrq) option" where
  "deq_iter pw 0 pc q = Some (pc, q)"
| "deq_iter pw (Suc k) pc q =
     (case deq_step pw pc q of Inr (DGo pc', q') \<Rightarrow> deq_iter pw k pc' q' | _ \<Rightarrow> None)"

lemma deq_iter_numeral:
  "deq_iter pw (numeral k) pc q =
     (case deq_step pw pc q of Inr (DGo pc', q') \<Rightarrow> deq_iter pw (pred_numeral k) pc' q' | _ \<Rightarrow> None)"
  by (simp add: numeral_eq_Suc)

lemma deq_iter_run: "deq_iter pw k pc q = Some (pc', q') \<Longrightarrow> deq_run pw (m + k) pc q = deq_run pw m pc' q'"
  by (induction k arbitrary: pc q) (auto split: sum.splits deq_out.splits)

lemma enq_push:
  assumes r: "ring_holds pw r H xs" "rq_next r = None" "rq_tail r = of_nat T" and T: "T = H + length xs"
    and space: "length xs < 2 ^ pw" and bound: "pw < 64" "T < 2 ^ 63 - 1"
    and q: "q_mem q a = Some r" "q_tail q = a" and v: "l_arg l \<noteq> - 1"
  shows "enq_run gm pw 6 EReadTail l q = Inr (Some (l, put_ring a
    (r\<lparr>rq_tail := of_nat (Suc T), rq_array := (rq_array r)[T mod 2 ^ pw := \<lparr>n_val = l_arg l, n_idx = of_nat T\<rparr>]\<rparr>) q))"
proof -
  let ?n = "rq_array r ! (T mod 2 ^ pw)"
  have n: "n_val ?n = - 1" "unat (n_idx ?n) \<le> T" using ring_holds_free [OF r(1) order_refl space T] by simp_all
  obtain k where k: "n_idx ?n = of_nat k" "k \<le> T" using n(2) that [of "unat (n_idx ?n)"] by simp
  have b: "k < 2 ^ 63" "T < 2 ^ 63" using k(2) bound(2) by auto
  note B = ticket_bits [OF b(1)] ticket_bits [OF b(2)] ticket_le [OF b] ring_holds_rd [OF r(1) bound(1) b(2)]
  have rg: "ring q a = Inr r" using q(1) by (simp add: ring_def)
  show ?thesis
    using n(1) k q(2) r(2,3) rg
    by (simp add: B run_numeral deq_iter_numeral cell_def CAS2_def is_empty_def Let_def add.commute)
qed

text \<open>A full ring is closed, and a new one with the value in it is linked behind it.\<close>

lemma enq_full:
  assumes r: "ring_holds pw r H xs" "rq_next r = None" "rq_tail r = of_nat T" and T: "T = H + length xs" "length xs = 2 ^ pw"
    and bound: "pw < 64" "T < 2 ^ 63 - 1"
    and q: "q_mem q a = Some r" "q_tail q = a" "gm (q_allocs q) \<noteq> a" and l: "l_nrq l = None" "l_try l = 0"
  shows "\<exists>l'. l_nrq l' = None \<and> l_arg l' = l_arg l \<and>
    enq_run gm pw 10 EReadTail l q = Inr (Some (l',
      (put_ring a (r\<lparr>rq_tail := of_nat (Suc T) OR UNSAFE_BIT, rq_next := Some (gm (q_allocs q))\<rparr>)
        (put_ring (gm (q_allocs q)) (solo (l_arg l) (init_ring pw)) (q\<lparr>q_allocs := Suc (q_allocs q)\<rparr>)))
        \<lparr>q_tail := gm (q_allocs q)\<rparr>))"
proof -
  have "0 < length xs" using T(2) by simp
  then obtain x xs' where xs: "xs = x # xs'" by (cases xs) auto
  let ?n = "rq_array r ! (T mod 2 ^ pw)"
  have n: "n_val ?n \<noteq> - 1" using ring_holds_hd [OF r(1) [unfolded xs]] T by simp
  have b: "T < 2 ^ 63" "2 ^ pw < (2 :: nat) ^ 63" using bound(2) T by auto
  have "rq_head r = of_nat H" using r(1) by (simp add: ring_holds_def)
  moreover have "RING_SIZE pw = of_nat (2 ^ pw)" by (simp add: RING_SIZE_def)
  ultimately have full: "RING_SIZE pw \<le> of_nat T - rq_head r" using T by simp
  note B = ticket_bits [OF b(1)] ring_holds_rd [OF r(1) bound(1) b(1)]
  have rg: "ring q a = Inr r" using q(1) by (simp add: ring_def)
  show ?thesis
    using n q(2,3) r(2,3) rg l full
    by (simp add: B run_numeral deq_iter_numeral cell_def CAS2_def is_empty_def Let_def close_crq_def put_ring_alloc put_ring_over add.commute)
qed

lemma deq_pop:
  assumes r: "ring_holds pw r H (x # xs)" and bound: "pw < 64" "H < 2 ^ 63"
    and q: "q_mem q a = Some r" "q_head q = a"
  shows "deq_run pw 5 DReadHead q = Inr (Some (x, put_ring a (ring_pop pw H r) q))"
proof -
  note hd = ring_holds_hd [OF r]
  have h: "rq_head r = of_nat H" using r by (simp add: ring_holds_def)
  note B = ticket_bits [OF bound(2)] ring_holds_rd [OF r bound]
  have "RING_SIZE pw = of_nat (2 ^ pw)" by (simp add: RING_SIZE_def)
  moreover have "ring q a = Inr r" using q(1) by (simp add: ring_def)
  ultimately show ?thesis
    using hd q(2) h
    by (simp add: B run_numeral deq_iter_numeral cell_def CAS2_def deq_cas_def is_empty_def Let_def ring_pop_def ac_simps)
qed

text \<open>
  On a ring that is drained, \<open>dequeue\<close> uses its ticket up, repairs the tail if need be, and comes to the
  test of \<open>next\<close>.
\<close>

lemma deq_skip:
  assumes r: "ring_holds pw r H []" and bound: "pw < 64" "H + 2 ^ pw < 2 ^ 63"
    and q: "q_mem q a = Some r" "q_head q = a" and tl: "tail_index (rq_tail r) - 1 \<le> of_nat H"
  shows "\<exists>k \<le> 11. deq_iter pw k DReadHead q =
    Some (DNext a, put_ring a ((ring_pop pw H r)\<lparr>rq_tail := max (rq_tail r) (of_nat (Suc H))\<rparr>) q)"
proof -
  let ?n = "rq_array r ! (H mod 2 ^ pw)"
  have n: "n_val ?n = - 1" "unat (n_idx ?n) \<le> H" using ring_holds_free [OF r, of 0 H] by simp_all
  obtain k where k: "n_idx ?n = of_nat k" "k \<le> H" using n(2) that [of "unat (n_idx ?n)"] by simp
  have b: "H < 2 ^ 63" "k < 2 ^ 63" using k(2) bound(2) by auto
  have h: "rq_head r = of_nat H" using r by (simp add: ring_holds_def)
  note B = ticket_bits [OF b(1)] ticket_bits [OF b(2)] ticket_less [OF b] ring_holds_rd [OF r bound(1) b(1)]
  have rs: "RING_SIZE pw = of_nat (2 ^ pw)" by (simp add: RING_SIZE_def)
  have rg: "ring q a = Inr r" using q(1) by (simp add: ring_def)
  show ?thesis
  proof (cases "rq_tail r < of_nat (Suc H)")
    case True
    then have "max (rq_tail r) (of_nat (Suc H)) = of_nat (Suc H)" by (rule max.absorb2 [OF less_imp_le])
    then have "deq_iter pw 11 DReadHead q =
      Some (DNext a, put_ring a ((ring_pop pw H r)\<lparr>rq_tail := max (rq_tail r) (of_nat (Suc H))\<rparr>) q)"
      using n(1) k q(2) h rg rs tl True
      by (simp add: B run_numeral deq_iter_numeral cell_def CAS2_def deq_cas_def deq_empty_def is_empty_def Let_def ring_pop_def ac_simps)
    then show ?thesis by blast
  next
    case False
    then have "max (rq_tail r) (of_nat (Suc H)) = rq_tail r" by (intro max.absorb1) (simp only: not_less)
    then have "deq_iter pw 10 DReadHead q =
      Some (DNext a, put_ring a ((ring_pop pw H r)\<lparr>rq_tail := max (rq_tail r) (of_nat (Suc H))\<rparr>) q)"
      using n(1) k q(2) h rg rs tl False
      by (simp add: B run_numeral deq_iter_numeral cell_def CAS2_def deq_cas_def deq_empty_def is_empty_def Let_def ring_pop_def ac_simps)
    then show ?thesis by (intro exI [of _ 10]) simp
  qed
qed

section \<open>The list of rings\<close>

text \<open>
  The ring at \<open>a\<close> holds \<open>xs\<close>.  The last ring of the list is open, all others have been closed by the call
  that found them full.
\<close>

definition holds_at :: "nat \<Rightarrow> lcrq \<Rightarrow> nat \<Rightarrow> nat \<Rightarrow> addr \<Rightarrow> addr option \<Rightarrow> u64 list \<Rightarrow> bool" where
  "holds_at pw q lo B a nx xs \<longleftrightarrow>
     (\<exists>r H. q_mem q a = Some r \<and> ring_holds pw r H xs \<and> rq_next r = nx \<and> lo \<le> H + length xs \<and> H + length xs \<le> B \<and>
        rq_tail r = (case nx of None \<Rightarrow> of_nat (H + length xs) | Some b \<Rightarrow> of_nat (Suc (H + length xs)) OR UNSAFE_BIT))"

fun closed_chain :: "nat \<Rightarrow> lcrq \<Rightarrow> nat \<Rightarrow> addr list \<Rightarrow> addr \<Rightarrow> u64 list list \<Rightarrow> bool" where
  "closed_chain pw q B [] a [] = True"
| "closed_chain pw q B (b # bs) a (xs # xss) =
     (holds_at pw q 0 B b (Some (hd (bs @ [a]))) xs \<and> closed_chain pw q B bs a xss)"
| "closed_chain pw q B _ a _ = False"

text \<open>
  The queue holds \<open>xs\<close>, no more than \<open>B\<close> tickets of a ring have been drawn, and at least \<open>lo\<close> of the last.
  Only the first ring can be drained.
\<close>

definition chain_rep ::
  "(nat \<Rightarrow> addr) \<Rightarrow> nat \<Rightarrow> nat \<Rightarrow> nat \<Rightarrow> lcrq \<Rightarrow> addr list \<Rightarrow> addr \<Rightarrow> u64 list list \<Rightarrow> u64 list \<Rightarrow> bool" where
  "chain_rep gm pw lo B q bs a xss ys \<longleftrightarrow>
     closed_chain pw q B bs a xss \<and> holds_at pw q lo B a None ys \<and> distinct (bs @ [a]) \<and>
     q_head q = hd (bs @ [a]) \<and> q_tail q = a \<and> alloc_ok gm q \<and> [] \<notin> set (tl (xss @ [ys]))"

definition lrep :: "(nat \<Rightarrow> addr) \<Rightarrow> nat \<Rightarrow> nat \<Rightarrow> nat \<Rightarrow> lcrq \<Rightarrow> u64 list \<Rightarrow> bool" where
  "lrep gm pw lo B q xs \<longleftrightarrow> (\<exists>bs a xss ys. chain_rep gm pw lo B q bs a xss ys \<and> xs = concat xss @ ys)"

lemma holds_at_frame:
  "holds_at pw q lo B a nx xs \<Longrightarrow> q_mem q' a = q_mem q a \<Longrightarrow> B \<le> B' \<Longrightarrow> lo' \<le> lo \<Longrightarrow> holds_at pw q' lo' B' a nx xs"
  by (fastforce simp: holds_at_def)

lemma closed_chain_frame:
  "closed_chain pw q B bs a xss \<Longrightarrow> \<forall>b \<in> set bs. q_mem q' b = q_mem q b \<Longrightarrow> B \<le> B' \<Longrightarrow> closed_chain pw q' B' bs a xss"
  by (induction pw q B bs a xss rule: closed_chain.induct) (auto intro: holds_at_frame)

lemma closed_chain_snoc:
  "closed_chain pw q B bs b xss \<Longrightarrow> holds_at pw q 0 B b (Some a) xs \<Longrightarrow> closed_chain pw q B (bs @ [b]) a (xss @ [xs])"
proof (induction pw q B bs b xss rule: closed_chain.induct)
  case (2 pw q B c bs b ys xss)
  then show ?case by (cases bs) auto
qed auto

lemma closed_chain_Nil: "closed_chain pw q B [] a xss \<longleftrightarrow> xss = []"
  by (cases xss) auto

lemma closed_chain_dom: "closed_chain pw q B bs a xss \<Longrightarrow> set bs \<subseteq> dom (q_mem q)"
  by (induction pw q B bs a xss rule: closed_chain.induct) (auto simp: holds_at_def)

lemma fresh_address:
  assumes "alloc_ok gm q" and "getMemory_ok gm"
  shows "gm (q_allocs q) \<notin> dom (q_mem q)"
proof -
  have "gm (q_allocs q) \<notin> gm ` {..<q_allocs q}" using assms(2) by (auto simp: getMemory_ok_def dest: injD)
  then show ?thesis using assms(1) by (auto simp: alloc_ok_def)
qed

lemma init_ring_holds:
  assumes "pw < 63"
  shows "ring_holds pw (init_ring pw) 0 []"
    and "v \<noteq> - 1 \<Longrightarrow> ring_holds pw (solo v (init_ring pw)) 0 [v]"
proof -
  have "unat (of_nat j :: u64) \<le> j" for j by (simp add: unat_of_nat)
  then show init: "ring_holds pw (init_ring pw) 0 []"
    by (simp add: ring_holds_def init_ring_def)
  show "ring_holds pw (solo v (init_ring pw)) 0 [v]" if "v \<noteq> - 1"
    using ring_push [OF init _ that, of 1] by (simp add: solo_def)
qed

lemma lrepI:
  assumes "closed_chain pw q B bs a xss" and "holds_at pw q lo B a None ys" and "distinct (bs @ [a])"
    and "q_head q = hd (bs @ [a])" and "q_tail q = a" and "alloc_ok gm q" and "[] \<notin> set (tl (xss @ [ys]))"
  shows "lrep gm pw lo B q (concat xss @ ys)"
  using assms unfolding lrep_def chain_rep_def by blast

lemma alloc_ok_put: "alloc_ok gm q \<Longrightarrow> a \<in> dom (q_mem q) \<Longrightarrow> alloc_ok gm (put_ring a r q)"
  by (auto simp: alloc_ok_def)

lemma chain_last:
  assumes "chain_rep gm pw lo B q bs a xss ys"
  obtains r H where "q_mem q a = Some r" and "ring_holds pw r H ys" and "rq_next r = None" and "H + length ys \<le> B"
    and "rq_tail r = of_nat (H + length ys)" and "a \<in> dom (q_mem q)" and "q_tail q = a"
  using assms unfolding chain_rep_def holds_at_def by auto

text \<open>\<open>enqueue\<close> fills the last ring, then it closes it and opens another.\<close>

lemma enqueue_space:
  assumes rep: "chain_rep gm pw lo B q bs a xss ys" and bound: "pw < 63" "B + 2 ^ pw < 2 ^ 63 - 1"
    and v: "v \<noteq> - 1" and space: "length ys < 2 ^ pw"
  shows "\<exists>q'. enqueue gm pw 10 v None q = Inr (Some (None, q')) \<and> chain_rep gm pw 1 (Suc B) q' bs a xss (ys @ [v])"
proof -
  note R = rep [unfolded chain_rep_def]
  obtain r H where r: "q_mem q a = Some r" "ring_holds pw r H ys" "rq_next r = None" "H + length ys \<le> B"
    "rq_tail r = of_nat (H + length ys)" "a \<in> dom (q_mem q)" "q_tail q = a"
    by (rule chain_last [OF rep])
  let ?l = "\<lparr>l_arg = v, l_try = 0, l_nrq = None\<rparr>" and ?T = "H + length ys"
  let ?r = "r\<lparr>rq_tail := of_nat (Suc ?T), rq_array := (rq_array r)[?T mod 2 ^ pw := \<lparr>n_val = v, n_idx = of_nat ?T\<rparr>]\<rparr>"
  have T: "?T < 2 ^ 63 - 1" "pw < 64" using r(4) bound by simp_all
  have "enq_run gm pw 6 EReadTail ?l q = Inr (Some (?l, put_ring a ?r q))"
    using enq_push [OF r(2,3,5) refl space T(2,1) r(1,7), of ?l gm] v by simp
  then have "enq_run gm pw 10 EReadTail ?l q = Inr (Some (?l, put_ring a ?r q))" by (rule enq_run_more) simp
  then have run: "enqueue gm pw 10 v None q = Inr (Some (None, put_ring a ?r q))" by (simp add: enqueue_def)
  have "ring_holds pw ?r H (ys @ [v])" by (rule ring_push [OF r(2) space v])
  then have "holds_at pw (put_ring a ?r q) 1 (Suc B) a None (ys @ [v])"
    using r(3,4) unfolding holds_at_def by (intro exI [of _ ?r] exI [of _ H]) simp
  moreover have "closed_chain pw (put_ring a ?r q) (Suc B) bs a xss"
    by (rule closed_chain_frame [of pw q B]) (use R in auto)
  moreover have "[] \<notin> set (tl (xss @ [ys @ [v]]))" using R by (cases xss) auto
  ultimately have "chain_rep gm pw 1 (Suc B) (put_ring a ?r q) bs a xss (ys @ [v])"
    using R alloc_ok_put [of gm q, OF _ r(6)] unfolding chain_rep_def by simp
  with run show ?thesis by blast
qed

lemma enqueue_full:
  assumes rep: "chain_rep gm pw lo B q bs a xss ys" and bound: "pw < 63" "B + 2 ^ pw < 2 ^ 63 - 1"
    and gm: "getMemory_ok gm" and v: "v \<noteq> - 1" and full: "length ys = 2 ^ pw"
  shows "\<exists>q' a'. enqueue gm pw 10 v None q = Inr (Some (None, q')) \<and>
    chain_rep gm pw 1 (Suc B) q' (bs @ [a]) a' (xss @ [ys]) [v]"
proof -
  note R = rep [unfolded chain_rep_def]
  obtain r H where r: "q_mem q a = Some r" "ring_holds pw r H ys" "rq_next r = None" "H + length ys \<le> B"
    "rq_tail r = of_nat (H + length ys)" "a \<in> dom (q_mem q)" "q_tail q = a"
    by (rule chain_last [OF rep])
  let ?l = "\<lparr>l_arg = v, l_try = 0, l_nrq = None\<rparr>" and ?T = "H + length ys"
  let ?a = "gm (q_allocs q)" and ?n = "solo v (init_ring pw)"
  let ?r = "r\<lparr>rq_tail := of_nat (Suc ?T) OR UNSAFE_BIT, rq_next := Some ?a\<rparr>"
  let ?q = "(put_ring a ?r (put_ring ?a ?n (q\<lparr>q_allocs := Suc (q_allocs q)\<rparr>)))\<lparr>q_tail := ?a\<rparr>"
  have T: "?T < 2 ^ 63 - 1" "pw < 64" using r(4) bound by simp_all
  have "?a \<notin> dom (q_mem q)" using R gm by (simp add: fresh_address)
  then have new: "?a \<noteq> a" "?a \<notin> set bs" using r(6) closed_chain_dom [of pw q B bs a xss] R by auto
  obtain l' where "l_nrq l' = None" "enq_run gm pw 10 EReadTail ?l q = Inr (Some (l', ?q))"
    using enq_full [OF r(2,3,5) refl full T(2,1) r(1,7), of gm ?l] new(1) by auto
  then have run: "enqueue gm pw 10 v None q = Inr (Some (None, ?q))" by (simp add: enqueue_def)
  have "holds_at pw ?q 0 (Suc B) a (Some ?a) ys"
    using r(1,2,4) new(1) ring_holds_cong [of ?r r] unfolding holds_at_def by (intro exI [of _ ?r] exI [of _ H]) simp
  moreover have "closed_chain pw ?q (Suc B) bs a xss"
    by (rule closed_chain_frame [of pw q B]) (use R new in auto)
  ultimately have "closed_chain pw ?q (Suc B) (bs @ [a]) ?a (xss @ [ys])" by (intro closed_chain_snoc)
  moreover have "holds_at pw ?q 1 (Suc B) ?a None [v]"
    using new init_ring_holds(2) [OF bound(1) v] unfolding holds_at_def
    by (intro exI [of _ ?n] exI [of _ 0]) (simp add: solo_def init_ring_def)
  moreover have "alloc_ok gm ?q" using R r(6) by (auto simp: alloc_ok_def lessThan_Suc)
  moreover have "[] \<notin> set (tl ((xss @ [ys]) @ [[v]]))" using R by (cases xss) auto
  moreover have "q_head ?q = hd ((bs @ [a]) @ [?a])" using R by (simp add: hd_append)
  moreover have "distinct ((bs @ [a]) @ [?a])" using R new by auto
  ultimately have "chain_rep gm pw 1 (Suc B) ?q (bs @ [a]) ?a (xss @ [ys]) [v]"
    unfolding chain_rep_def by simp
  with run show ?thesis by blast
qed

lemma enqueue_rep:
  assumes rep: "lrep gm pw lo B q xs" and bound: "pw < 63" "B + 2 ^ pw < 2 ^ 63 - 1" and gm: "getMemory_ok gm" and v: "v \<noteq> - 1"
  shows "\<exists>q'. enqueue gm pw 10 v None q = Inr (Some (None, q')) \<and> lrep gm pw 1 (Suc B) q' (xs @ [v])"
proof -
  obtain bs a xss ys where C: "chain_rep gm pw lo B q bs a xss ys" "xs = concat xss @ ys"
    using rep unfolding lrep_def by blast
  obtain r H where "ring_holds pw r H ys" by (rule chain_last [OF C(1)])
  then consider "length ys < 2 ^ pw" | "length ys = 2 ^ pw" by (auto simp: ring_holds_def le_less)
  then show ?thesis
  proof cases
    case 1
    show ?thesis using enqueue_space [OF C(1) bound v 1] C(2) unfolding lrep_def by fastforce
  next
    case 2
    then obtain q' a' where "enqueue gm pw 10 v None q = Inr (Some (None, q'))"
      "chain_rep gm pw 1 (Suc B) q' (bs @ [a]) a' (xss @ [ys]) [v]"
      using enqueue_full [OF C(1) bound gm v] by blast
    moreover have "xs @ [v] = concat (xss @ [ys]) @ [v]" using C(2) by simp
    ultimately show ?thesis unfolding lrep_def by blast
  qed
qed

lemma deq_at:
  assumes a: "holds_at pw q lo B a nx (x # xs)" "q_head q = a" and bound: "pw < 63" "B + 2 ^ pw < 2 ^ 63 - 1"
  shows "\<exists>r. deq_run pw 5 DReadHead q = Inr (Some (x, put_ring a r q)) \<and> holds_at pw (put_ring a r q) lo B a nx xs"
proof -
  obtain r H where r: "q_mem q a = Some r" "ring_holds pw r H (x # xs)" "rq_next r = nx"
    "lo \<le> H + length (x # xs)" "H + length (x # xs) \<le> B"
    "rq_tail r = (case nx of None \<Rightarrow> of_nat (H + length (x # xs)) | Some b \<Rightarrow> of_nat (Suc (H + length (x # xs))) OR UNSAFE_BIT)"
    using a(1) unfolding holds_at_def by blast
  have len: "H + length (x # xs) = Suc H + length xs" by simp
  have b: "pw < 64" "H < 2 ^ 63" "H + 2 ^ pw < 2 ^ 63" using bound r(5) by simp_all
  have "ring_holds pw (ring_pop pw H r) (Suc H) xs" using ring_pop_holds [OF r(2) b(3)] by simp
  then have "holds_at pw (put_ring a (ring_pop pw H r) q) lo B a nx xs"
    using r(3) r(4-6) [unfolded len] unfolding holds_at_def
    by (intro exI [of _ "ring_pop pw H r"] exI [of _ "Suc H"]) (simp add: ring_pop_def del: of_nat_Suc of_nat_add)
  then show ?thesis using deq_pop [OF r(2) b(1,2) r(1) a(2)] by blast
qed

lemma chain_pop:
  assumes rep: "chain_rep gm pw lo B q bs a xss ys" and first: "xss @ [ys] = (x # zs) # zss"
    and bound: "pw < 63" "B + 2 ^ pw < 2 ^ 63 - 1"
  shows "\<exists>q'. deq_run pw 5 DReadHead q = Inr (Some (x, q')) \<and> lrep gm pw lo B q' (zs @ concat zss)"
proof -
  note R = rep [unfolded chain_rep_def]
  have a: "a \<in> dom (q_mem q)" using R by (auto simp: holds_at_def)
  show ?thesis
  proof (cases bs)
    case Nil
    then have "xss = []" using R by (simp add: closed_chain_Nil)
    then have h: "holds_at pw q lo B a None (x # zs)" "q_head q = a" "zss = []" using R Nil first by simp_all
    obtain r where r: "deq_run pw 5 DReadHead q = Inr (Some (x, put_ring a r q))"
      "holds_at pw (put_ring a r q) lo B a None zs"
      using deq_at [OF h(1,2) bound] by blast
    have "lrep gm pw lo B (put_ring a r q) (concat [] @ zs)"
      using R r(2) h(2) a by (intro lrepI [of _ _ _ "[]" a]) (auto intro: alloc_ok_put)
    then show ?thesis using r(1) h(3) by (intro exI [of _ "put_ring a r q"]) simp
  next
    case (Cons b bs')
    then obtain xss' where xss: "xss = (x # zs) # xss'" "zss = xss' @ [ys]"
      using R first by (cases xss) auto
    have h: "holds_at pw q 0 B b (Some (hd (bs' @ [a]))) (x # zs)" "q_head q = b" "b \<noteq> a" "b \<notin> set bs'"
      using R Cons xss(1) by auto
    obtain r where r: "deq_run pw 5 DReadHead q = Inr (Some (x, put_ring b r q))"
      "holds_at pw (put_ring b r q) 0 B b (Some (hd (bs' @ [a]))) zs"
      using deq_at [OF h(1,2) bound] by blast
    have "closed_chain pw q B bs' a xss'" using R Cons xss(1) by simp
    then have "closed_chain pw (put_ring b r q) B bs' a xss'" by (rule closed_chain_frame) (use h(4) in auto)
    moreover have "holds_at pw (put_ring b r q) lo B a None ys"
      using R h(3) holds_at_frame [of pw q lo B a None ys _ B lo] by simp
    moreover have "alloc_ok gm (put_ring b r q)" using R h(1) by (intro alloc_ok_put) (auto simp: holds_at_def)
    ultimately have "lrep gm pw lo B (put_ring b r q) (concat (zs # xss') @ ys)"
      using R r(2) Cons xss(1) by (intro lrepI [of _ _ _ bs a]) simp_all
    then show ?thesis using r(1) xss(2) by (intro exI [of _ "put_ring b r q"]) simp
  qed
qed

text \<open>The first ring is dropped, with all it holds, when the head is swung to the next.\<close>

lemma chain_drop:
  assumes rep: "chain_rep gm pw lo B q (b # bs) a (zs # xss) ys"
    and q': "\<forall>c \<in> set (bs @ [a]). q_mem q' c = q_mem q c" "q_head q' = hd (bs @ [a])" "q_tail q' = q_tail q"
      "dom (q_mem q') = dom (q_mem q)" "q_allocs q' = q_allocs q"
  shows "chain_rep gm pw lo B q' bs a xss ys"
proof -
  note R = rep [unfolded chain_rep_def]
  have "closed_chain pw q' B bs a xss" by (rule closed_chain_frame [of pw q B]) (use R q'(1) in auto)
  moreover have "holds_at pw q' lo B a None ys" by (rule holds_at_frame [of pw q lo B]) (use R q'(1) in auto)
  moreover have "[] \<notin> set (tl (xss @ [ys]))" using R by (cases xss) auto
  ultimately show ?thesis using R q'(2-5) unfolding chain_rep_def by (simp add: alloc_ok_def)
qed

text \<open>\<open>dequeue\<close> leaves a closed ring that is drained for the next one.\<close>

lemma chain_swing:
  assumes rep: "chain_rep gm pw lo B q (b # bs) a ([] # xss) ys" and bound: "pw < 63" "B + 2 ^ pw < 2 ^ 63 - 1"
  shows "\<exists>k q'. k \<le> 13 \<and> (\<forall>m. deq_run pw (m + k) DReadHead q = deq_run pw m DReadHead q') \<and>
    chain_rep gm pw lo B q' bs a xss ys"
proof -
  note R = rep [unfolded chain_rep_def]
  let ?c = "hd (bs @ [a])"
  obtain r H where r: "q_mem q b = Some r" "ring_holds pw r H []" "rq_next r = Some ?c" "H \<le> B"
    "rq_tail r = of_nat (Suc H) OR UNSAFE_BIT"
    using R unfolding closed_chain.simps holds_at_def by fastforce
  have b: "pw < 64" "H + 2 ^ pw < 2 ^ 63" "Suc H < 2 ^ 63" using bound r(4) by simp_all
  let ?r = "(ring_pop pw H r)\<lparr>rq_tail := max (rq_tail r) (of_nat (Suc H))\<rparr>"
  let ?q = "(put_ring b ?r q)\<lparr>q_head := ?c\<rparr>"
  have head: "q_head q = b" using R by simp
  have "tail_index (rq_tail r) - 1 \<le> of_nat H" using ticket_bits(5) [OF b(3)] r(5) by simp
  then obtain k where k: "k \<le> 11"
    "deq_iter pw k DReadHead q = Some (DNext b, put_ring b ?r q)"
    using deq_skip [OF r(2) b(1,2) r(1) head] by blast
  have two: "deq_run pw (m + 2) (DNext b) (put_ring b ?r q) = deq_run pw m DReadHead ?q" for m
    using r(3) head by (simp add: ring_pop_def numeral_eq_Suc)
  have "deq_run pw (m + (2 + k)) DReadHead q = deq_run pw m DReadHead ?q" for m
    using trans [OF deq_iter_run [OF k(2)] two] by (simp only: add.assoc)
  moreover have "chain_rep gm pw lo B ?q bs a xss ys" by (rule chain_drop [OF rep]) (use R r(1) in auto)
  ultimately show ?thesis using k(1) by (intro exI [of _ "2 + k"] exI [of _ ?q]) simp
qed

lemma dequeue_rep:
  assumes rep: "lrep gm pw lo B q (x # xs)" and bound: "pw < 63" "B + 2 ^ pw < 2 ^ 63 - 1"
  shows "\<exists>q'. dequeue pw 20 q = Inr (Some (x, q')) \<and> lrep gm pw lo B q' xs"
proof -
  obtain bs a xss ys where C: "chain_rep gm pw lo B q bs a xss ys" "x # xs = concat (xss @ [ys])"
    using rep unfolding lrep_def by auto
  show ?thesis
  proof (cases "hd (xss @ [ys])")
    case (Cons z zs)
    then obtain zss where first: "xss @ [ys] = (z # zs) # zss" by (cases "xss @ [ys]") auto
    have xs: "z = x" "xs = zs @ concat zss" using C(2) unfolding first by simp_all
    obtain q' where "deq_run pw 5 DReadHead q = Inr (Some (x, q'))" "lrep gm pw lo B q' xs"
      using chain_pop [OF C(1) first bound] xs by auto
    then show ?thesis using deq_run_more [of pw 5 DReadHead q _ 20] by (auto simp only: dequeue_def)
  next
    case Nil
    obtain b bs' xss' where C': "bs = b # bs'" "xss = [] # xss'"
      using C Nil by (cases bs; cases xss) (auto simp: chain_rep_def)
    obtain k q1 where k: "k \<le> 13" "\<And>m. deq_run pw (m + k) DReadHead q = deq_run pw m DReadHead q1"
      "chain_rep gm pw lo B q1 bs' a xss' ys"
      using chain_swing [OF C(1) [unfolded C'] bound] by blast
    have "[] \<notin> set (xss' @ [ys])" using C(1) C'(2) by (simp add: chain_rep_def)
    then obtain z zs zss where first: "xss' @ [ys] = (z # zs) # zss" by (cases "xss' @ [ys]"; cases "hd (xss' @ [ys])") auto
    have "concat (xss' @ [ys]) = x # xs" using C(2) C'(2) by simp
    then have xs: "z = x" "xs = zs @ concat zss" unfolding first by simp_all
    obtain q' where "deq_run pw 5 DReadHead q1 = Inr (Some (x, q'))" "lrep gm pw lo B q' xs"
      using chain_pop [OF k(3) first bound] xs by auto
    moreover from this have "deq_run pw (5 + k) DReadHead q = Inr (Some (x, q'))" using k(2) by simp
    ultimately show ?thesis
      using deq_run_more [of pw "5 + k" DReadHead q _ 20] k(1) unfolding dequeue_def by fastforce
  qed
qed

text \<open>
  On an empty queue \<open>dequeue\<close> uses a ticket up and comes to the test of \<open>next\<close>, with a queue that is still
  empty.
\<close>

lemma chain_empty:
  assumes rep: "chain_rep gm pw 1 B q [] a [] []" and bound: "pw < 63" "B + 2 ^ pw < 2 ^ 63 - 1"
  shows "\<exists>k q'. k \<le> 11 \<and> deq_iter pw k DReadHead q = Some (DNext a, q') \<and> chain_rep gm pw 1 (Suc B) q' [] a [] []"
proof -
  obtain r H where r: "q_mem q a = Some r" "ring_holds pw r H []" "rq_next r = None" "1 \<le> H" "H \<le> B"
    "rq_tail r = of_nat H"
    using rep unfolding chain_rep_def holds_at_def by fastforce
  have b: "pw < 64" "H + 2 ^ pw < 2 ^ 63" "Suc H < 2 ^ 63" "H < 2 ^ 63" using bound r(5) by simp_all
  let ?r = "(ring_pop pw H r)\<lparr>rq_tail := max (rq_tail r) (of_nat (Suc H))\<rparr>"
  let ?q = "put_ring a ?r q"
  have head: "q_head q = a" using rep by (simp add: chain_rep_def)
  have "(of_nat H :: u64) - 1 = of_nat (H - 1)" using r(4) by (simp add: of_nat_diff)
  moreover have "H - 1 < 2 ^ 63" using b(4) by simp
  ultimately have "tail_index (rq_tail r) - 1 \<le> of_nat H" using ticket_bits(3) [OF b(4)] b(4) r(6) by (simp add: ticket_le)
  then obtain k where k: "k \<le> 11" "deq_iter pw k DReadHead q = Some (DNext a, ?q)"
    using deq_skip [OF r(2) b(1,2) r(1) head] by blast
  have "max (rq_tail r) (of_nat (Suc H)) = of_nat (Suc H)"
    unfolding r(6) by (rule max.absorb2) (simp add: ticket_le [OF b(4,3)] del: of_nat_Suc)
  moreover have "ring_holds pw ?r (Suc H) []" using ring_pop_holds [OF r(2) b(2)] ring_holds_cong [of ?r "ring_pop pw H r"] by simp
  ultimately have "holds_at pw ?q 1 (Suc B) a None []"
    using r(3,5) unfolding holds_at_def by (intro exI [of _ ?r] exI [of _ "Suc H"]) (simp add: ring_pop_def)
  moreover have "alloc_ok gm ?q" using rep r(1) by (intro alloc_ok_put) (auto simp: chain_rep_def)
  ultimately have "chain_rep gm pw 1 (Suc B) ?q [] a [] []" using rep by (simp add: chain_rep_def)
  with k show ?thesis by blast
qed

lemma lrep_Nil:
  assumes "lrep gm pw lo B q []"
  obtains a where "chain_rep gm pw lo B q [] a [] []"
proof -
  obtain bs a xss ys where C: "chain_rep gm pw lo B q bs a xss ys" "[] = concat xss @ ys"
    using assms unfolding lrep_def by blast
  then have "xss = []" "ys = []" by (cases xss; simp add: chain_rep_def)+
  moreover from this have "bs = []" using C(1) by (cases bs) (simp_all add: chain_rep_def)
  ultimately show thesis using C(1) that by simp
qed

lemma dequeue_empty_rep:
  assumes rep: "lrep gm pw 1 B q []" and bound: "pw < 63" "B + 2 ^ pw < 2 ^ 63 - 1"
  shows "\<exists>q'. dequeue pw 20 q = Inr (Some (- 1, q')) \<and> lrep gm pw 1 (Suc B) q' []"
proof -
  obtain a where "chain_rep gm pw 1 B q [] a [] []" by (rule lrep_Nil [OF rep])
  then obtain k q' where k: "k \<le> 11" "deq_iter pw k DReadHead q = Some (DNext a, q')" "chain_rep gm pw 1 (Suc B) q' [] a [] []"
    using chain_empty bound by blast
  obtain r where "q_mem q' a = Some r" "rq_next r = None" by (rule chain_last [OF k(3)])
  then have "deq_run pw 1 (DNext a) q' = Inr (Some (- 1, q'))" by (simp add: ring_def)
  then have "deq_run pw (1 + k) DReadHead q = Inr (Some (- 1, q'))" using deq_iter_run [OF k(2), of 1] by simp
  then have "dequeue pw 20 q = Inr (Some (- 1, q'))"
    unfolding dequeue_def by (rule deq_run_more) (use k(1) in simp)
  moreover have "lrep gm pw 1 (Suc B) q' []" using k(3) unfolding lrep_def by fastforce
  ultimately show ?thesis by blast
qed

section \<open>The contract of a FIFO queue\<close>

text \<open>A sequence of calls, \<open>Some v\<close> for \<open>enqueue v\<close> and \<open>None\<close> for \<open>dequeue\<close>, and what the dequeues deliver.\<close>

fun queue_run ::
  "('v \<Rightarrow> 's \<Rightarrow> 's option) \<Rightarrow> ('s \<Rightarrow> ('v option \<times> 's) option) \<Rightarrow> 'v option list \<Rightarrow> 's \<Rightarrow> ('v option list \<times> 's) option" where
  "queue_run enq deq [] q = Some ([], q)"
| "queue_run enq deq (Some v # ops) q =
     (case enq v q of None \<Rightarrow> None | Some q' \<Rightarrow> queue_run enq deq ops q')"
| "queue_run enq deq (None # ops) q =
     (case deq q of None \<Rightarrow> None
      | Some (v, q') \<Rightarrow> map_option (\<lambda>(vs, q''). (v # vs, q'')) (queue_run enq deq ops q'))"

text \<open>The same on a list.\<close>

fun fifo_run :: "'v option list \<Rightarrow> 'v list \<Rightarrow> 'v option list \<times> 'v list" where
  "fifo_run [] xs = ([], xs)"
| "fifo_run (Some v # ops) xs = fifo_run ops (xs @ [v])"
| "fifo_run (None # ops) [] = (let (vs, ys) = fifo_run ops [] in (None # vs, ys))"
| "fifo_run (None # ops) (x # xs) = (let (vs, ys) = fifo_run ops xs in (Some x # vs, ys))"

text \<open>
  \<open>rep lo B q xs\<close>: \<open>q\<close> holds \<open>xs\<close>, and \<open>B\<close> bounds what has been used up of the queue's \<open>limit\<close>.  With \<open>lo = 0\<close>
  nothing need have been put in yet, and a dequeue of the empty queue is not covered.
\<close>

locale fifo_queue =
  fixes rep :: "nat \<Rightarrow> nat \<Rightarrow> 's \<Rightarrow> 'v list \<Rightarrow> bool" and enq :: "'v \<Rightarrow> 's \<Rightarrow> 's option"
    and deq :: "'s \<Rightarrow> ('v option \<times> 's) option" and item :: "'v \<Rightarrow> bool" and limit :: nat
  assumes enq: "rep lo B q xs \<Longrightarrow> B < limit \<Longrightarrow> item v \<Longrightarrow> \<exists>q'. enq v q = Some q' \<and> rep 1 (Suc B) q' (xs @ [v])"
    and deq: "rep lo B q (x # xs) \<Longrightarrow> B < limit \<Longrightarrow> item x \<and> (\<exists>q'. deq q = Some (Some x, q') \<and> rep lo B q' xs)"
    and deq_empty: "rep 1 B q [] \<Longrightarrow> B < limit \<Longrightarrow> \<exists>q'. deq q = Some (None, q') \<and> rep 1 (Suc B) q' []"
begin

lemma run:
  assumes "rep 1 B q xs" and "B + length ops \<le> limit" and "\<forall>v. Some v \<in> set ops \<longrightarrow> item v"
  shows "\<exists>B' q'. queue_run enq deq ops q = Some (fst (fifo_run ops xs), q') \<and>
    rep 1 B' q' (snd (fifo_run ops xs))"
  using assms
proof (induction ops xs arbitrary: B q rule: fifo_run.induct)
  case (1 xs)
  then show ?case by auto
next
  case (2 v ops xs)
  then obtain q1 where q1: "enq v q = Some q1" "rep 1 (Suc B) q1 (xs @ [v])" using enq [of 1 B q xs v] by auto
  then show ?case using 2(1) [OF q1(2)] 2(3,4) by auto
next
  case (3 ops)
  then obtain q1 where q1: "deq q = Some (None, q1)" "rep 1 (Suc B) q1 []" using deq_empty [of B q] by auto
  then show ?case using 3(1) [OF q1(2)] 3(3,4) by (auto split: prod.splits)
next
  case (4 ops x xs)
  then obtain q1 where q1: "deq q = Some (Some x, q1)" "rep 1 B q1 xs" using deq [of 1 B q x xs] by auto
  moreover obtain B' q' where "queue_run enq deq ops q1 = Some (fst (fifo_run ops xs), q')"
    "rep 1 B' q' (snd (fifo_run ops xs))"
    using 4(1) [OF q1(2)] 4(3,4) by auto
  ultimately show ?case by (auto split: prod.splits)
qed

text \<open>A fresh queue, used for the first time by an enqueue.\<close>

lemma run_fresh:
  assumes "rep 0 B q xs" and "B + Suc (length ops) \<le> limit" and "item v" and "\<forall>v. Some v \<in> set ops \<longrightarrow> item v"
  shows "\<exists>B' q'. queue_run enq deq (Some v # ops) q = Some (fst (fifo_run (Some v # ops) xs), q') \<and>
    rep 1 B' q' (snd (fifo_run (Some v # ops) xs))"
proof -
  obtain q1 where q1: "enq v q = Some q1" "rep 1 (Suc B) q1 (xs @ [v])" using enq [of 0 B q xs v] assms by auto
  then show ?thesis using run [OF q1(2), of ops] assms(2,4) by simp
qed

end

text \<open>The calls of the concurrent queue in this form; \<open>-1\<close> is the empty queue.\<close>

definition lcrq_enq :: "(nat \<Rightarrow> addr) \<Rightarrow> nat \<Rightarrow> u64 \<Rightarrow> lcrq \<Rightarrow> lcrq option" where
  "lcrq_enq gm pw v q = (case enqueue gm pw 10 v None q of Inr (Some (None, q')) \<Rightarrow> Some q' | _ \<Rightarrow> None)"

definition lcrq_deq :: "nat \<Rightarrow> lcrq \<Rightarrow> (u64 option \<times> lcrq) option" where
  "lcrq_deq pw q =
     (case dequeue pw 20 q of Inr (Some (v, q')) \<Rightarrow> Some (if is_empty v then None else Some v, q') | _ \<Rightarrow> None)"

lemma lrep_items: "lrep gm pw lo B q xs \<Longrightarrow> - 1 \<notin> set xs"
proof -
  assume "lrep gm pw lo B q xs"
  then obtain bs a xss ys where C: "closed_chain pw q B bs a xss" "holds_at pw q lo B a None ys" "xs = concat xss @ ys"
    unfolding lrep_def chain_rep_def by blast
  have at: "- 1 \<notin> set zs" if "holds_at pw q lo B b nx zs" for lo b nx zs
    using that by (auto simp: holds_at_def ring_holds_def)
  have "- 1 \<notin> set (concat xss)"
    using C(1) by (induction pw q B bs a xss rule: closed_chain.induct) (auto simp: holds_at_def ring_holds_def)
  with at [OF C(2)] C(3) show ?thesis by auto
qed

interpretation lcrq: fifo_queue
  "\<lambda>lo B q xs. lrep gm pw lo B q xs \<and> getMemory_ok gm \<and> pw < 31" "lcrq_enq gm pw" "lcrq_deq pw"
  "\<lambda>v. v \<noteq> - 1" "2 ^ 62"
proof (unfold_locales, goal_cases)
  case (1 lo B q xs v)
  then have "pw < 63" "B + 2 ^ pw < 2 ^ 63 - 1"
    using power_strict_increasing [of pw 31 "2 :: nat"] by simp_all
  then show ?case using 1 enqueue_rep [of gm pw lo B q xs v] by (auto simp: lcrq_enq_def)
next
  case (2 lo B q x xs)
  then have "pw < 63" "B + 2 ^ pw < 2 ^ 63 - 1"
    using power_strict_increasing [of pw 31 "2 :: nat"] by simp_all
  then show ?case using 2 dequeue_rep [of gm pw lo B q x xs] lrep_items [of gm pw lo B q "x # xs"]
    by (auto simp: lcrq_deq_def is_empty_def)
next
  case (3 B q)
  then have "pw < 63" "B + 2 ^ pw < 2 ^ 63 - 1"
    using power_strict_increasing [of pw 31 "2 :: nat"] by simp_all
  then show ?case using 3 dequeue_empty_rep [of gm pw B q] by (auto simp: lcrq_deq_def is_empty_def)
qed

text \<open>A new queue is empty, or half a ring of zeros if it is to be filled.\<close>

lemma new_queue_chain:
  assumes "pw < 31"
  shows "chain_rep gm pw 0 (2 ^ 30) (SHARED_OBJECT_INIT gm pw FULL) [] (gm 0) []
    (if FULL then replicate (2 ^ pw div 2) 0 else [])"
proof -
  let ?q = "SHARED_OBJECT_INIT gm pw FULL" and ?xs = "if FULL then replicate (2 ^ pw div 2) 0 else [] :: u64 list"
  let ?r = "the (q_mem ?q (gm 0))"
  have half: "2 ^ pw div 2 \<le> (2 :: nat) ^ 30" using assms power_increasing [of pw 30 "2 :: nat"] by simp
  have idx: "unat (of_nat j :: u64) \<le> j" for j by (simp add: unat_of_nat)
  have "ring_holds pw ?r 0 ?xs"
    using idx by (auto simp: ring_holds_def SHARED_OBJECT_INIT_def init_ring_def Let_def nth_append)
  then have "holds_at pw ?q 0 (2 ^ 30) (gm 0) None ?xs"
    using half unfolding holds_at_def
    by (intro exI [of _ ?r] exI [of _ 0]) (simp add: SHARED_OBJECT_INIT_def init_ring_def Let_def)
  then show ?thesis by (simp add: chain_rep_def SHARED_OBJECT_INIT_def Let_def alloc_ok_def)
qed

lemma new_queue_rep:
  "pw < 31 \<Longrightarrow> lrep gm pw 0 (2 ^ 30) (SHARED_OBJECT_INIT gm pw FULL) (if FULL then replicate (2 ^ pw div 2) 0 else [])"
  using new_queue_chain [of pw gm FULL] unfolding lrep_def by fastforce

end
