(* ===== verification/Lcrq_Races.thy ===== *)
theory Lcrq_Races
  imports Lcrq_Fifo
begin

text \<open>
  The properties of the concurrent queue, and two of its defects: values that are lost when a dequeue
  races with enqueues that fill the ring, and a dequeue that never finds a new queue empty.
\<close>

section \<open>Whole calls of a thread\<close>

lemma step_run_one:
  "i < length (y_thr y) \<Longrightarrow> lcrq_run gm pw i y = Inr y' \<Longrightarrow> (lcrq_step gm pw)\<^sup>*\<^sup>* y' z \<Longrightarrow> (lcrq_step gm pw)\<^sup>*\<^sup>* y z"
  by (meson converse_rtranclp_into_rtranclp step_run)

lemma after_step_simps [simp]:
  "y_q (after_step i t q ins outs y) = q" "y_in (after_step i t q ins outs y) = ins"
  "y_out (after_step i t q ins outs y) = outs" "y_thr (after_step i t q ins outs y) = (y_thr y)[i := t]"
  "after_step i t q ins outs (after_step i t' q' ins' outs' y) = after_step i t q ins outs y"
  by (simp_all add: after_step_def)

lemma after_step_same: "after_step i (y_thr y ! i) (y_q y) (y_in y) (y_out y) y = y"
  by (cases y) (simp add: after_step_def)

lemma enq_run_steps:
  "i < length (y_thr y) \<Longrightarrow> y_thr y ! i = \<lparr>t_pc = LEnq pc, t_loc = l\<rparr> \<Longrightarrow>
   enq_run gm pw n pc l (y_q y) = Inr (Some (l', q')) \<Longrightarrow>
   (lcrq_step gm pw)\<^sup>*\<^sup>* y (after_step i \<lparr>t_pc = LIdle, t_loc = l'\<rparr> q' (y_in y @ [l_arg l']) (y_out y) y)"
proof (induction n arbitrary: pc l y)
  case (Suc n)
  then obtain r l1 q1 where st: "enq_step gm pw pc l (y_q y) = Inr (r, l1, q1)"
    by (cases "enq_step gm pw pc l (y_q y)") auto
  show ?case
  proof (cases r)
    case None
    with st Suc(2-4) show ?thesis by (intro step_run_one [OF _ _ rtranclp.rtrancl_refl]) (auto simp: lcrq_run_def)
  next
    case (Some pc1)
    let ?y = "after_step i \<lparr>t_pc = LEnq pc1, t_loc = l1\<rparr> q1 (y_in y) (y_out y) y"
    have "lcrq_run gm pw i y = Inr ?y" using st Some Suc(3) by (simp add: lcrq_run_def)
    moreover have "(lcrq_step gm pw)\<^sup>*\<^sup>* ?y (after_step i \<lparr>t_pc = LIdle, t_loc = l'\<rparr> q' (y_in y @ [l_arg l']) (y_out y) y)"
      using Suc(1) [of ?y pc1 l1] Suc(2,4) st Some by simp
    ultimately show ?thesis by (rule step_run_one [OF Suc(2)])
  qed
qed simp

lemma enq_step_arg: "enq_step gm pw pc l q = Inr (r, l', q') \<Longrightarrow> l_arg l' = l_arg l"
  by (cases pc) (auto simp: rbind_eq_Inr_iff Let_def split: option.splits)

lemma enq_run_arg: "enq_run gm pw n pc l q = Inr (Some (l', q')) \<Longrightarrow> l_arg l' = l_arg l"
proof (induction n arbitrary: pc l q)
  case (Suc n)
  then show ?case
    by (cases "enq_step gm pw pc l q") (auto dest: enq_step_arg split: option.splits)
qed simp

lemma deq_iter_steps:
  "i < length (y_thr y) \<Longrightarrow> y_thr y ! i = \<lparr>t_pc = LDeq pc, t_loc = l\<rparr> \<Longrightarrow> deq_iter pw n pc (y_q y) = Some (pc', q') \<Longrightarrow>
   (lcrq_step gm pw)\<^sup>*\<^sup>* y (after_step i \<lparr>t_pc = LDeq pc', t_loc = l\<rparr> q' (y_in y) (y_out y) y)"
proof (induction n arbitrary: pc y)
  case 0
  then show ?case using after_step_same [of i y] by simp
next
  case (Suc n)
  then obtain pc1 q1 where st: "deq_step pw pc (y_q y) = Inr (DGo pc1, q1)" "deq_iter pw n pc1 q1 = Some (pc', q')"
    by (auto split: sum.splits deq_out.splits)
  let ?y = "after_step i \<lparr>t_pc = LDeq pc1, t_loc = l\<rparr> q1 (y_in y) (y_out y) y"
  have "lcrq_run gm pw i y = Inr ?y" using st Suc(3) by (simp add: lcrq_run_def)
  moreover have "(lcrq_step gm pw)\<^sup>*\<^sup>* ?y (after_step i \<lparr>t_pc = LDeq pc', t_loc = l\<rparr> q' (y_in y) (y_out y) y)"
    using Suc(1) [of ?y pc1] Suc(2) st by simp
  ultimately show ?case by (rule step_run_one [OF Suc(2)])
qed

lemma deq_run_steps:
  "i < length (y_thr y) \<Longrightarrow> y_thr y ! i = \<lparr>t_pc = LDeq pc, t_loc = l\<rparr> \<Longrightarrow> deq_run pw n pc (y_q y) = Inr (Some (v, q')) \<Longrightarrow>
   (lcrq_step gm pw)\<^sup>*\<^sup>* y (after_step i \<lparr>t_pc = LIdle, t_loc = l\<rparr> q' (y_in y) (y_out y @ [v]) y)"
proof (induction n arbitrary: pc y)
  case (Suc n)
  then obtain out q1 where st: "deq_step pw pc (y_q y) = Inr (out, q1)" by (cases "deq_step pw pc (y_q y)") auto
  show ?case
  proof (cases out)
    case (DReturn v')
    with st Suc(2-4) show ?thesis by (intro step_run_one [OF _ _ rtranclp.rtrancl_refl]) (auto simp: lcrq_run_def)
  next
    case (DGo pc1)
    let ?y = "after_step i \<lparr>t_pc = LDeq pc1, t_loc = l\<rparr> q1 (y_in y) (y_out y) y"
    have "lcrq_run gm pw i y = Inr ?y" using st DGo Suc(3) by (simp add: lcrq_run_def)
    moreover have "(lcrq_step gm pw)\<^sup>*\<^sup>* ?y (after_step i \<lparr>t_pc = LIdle, t_loc = l\<rparr> q' (y_in y) (y_out y @ [v]) y)"
      using Suc(1) [of ?y pc1] Suc(2,4) st DGo by simp
    ultimately show ?thesis by (rule step_run_one [OF Suc(2)])
  qed
qed simp

text \<open>A thread between calls, without a spare ring.\<close>

definition idle :: "lthread \<Rightarrow> bool" where
  "idle t \<longleftrightarrow> t_pc t = LIdle \<and> l_nrq (t_loc t) = None"

lemma thread_enqueue:
  assumes i: "i < length (y_thr y)" "idle (y_thr y ! i)" and v: "v \<noteq> - 1"
    and run: "enqueue gm pw n v None (y_q y) = Inr (Some (None, q'))"
  obtains t where "idle t" and "(lcrq_step gm pw)\<^sup>*\<^sup>* y (after_step i t q' (y_in y @ [v]) (y_out y) y)"
proof -
  let ?l = "\<lparr>l_arg = v, l_try = 0, l_nrq = None\<rparr>"
  obtain l' where l': "enq_run gm pw n EReadTail ?l (y_q y) = Inr (Some (l', q'))" "l_nrq l' = None"
    using run by (auto simp: enqueue_def rbind_eq_Inr_iff)
  let ?y = "lcrq_call i (Some v) y"
  have call: "?y = after_step i \<lparr>t_pc = LEnq EReadTail, t_loc = ?l\<rparr> (y_q y) (y_in y) (y_out y) y"
    using i(2) by (cases "y_thr y ! i"; cases "t_loc (y_thr y ! i)") (simp add: lcrq_call_def idle_def)
  have "lcrq_step gm pw y ?y" using i v by (intro step_call) (simp_all add: idle_def)
  moreover have "(lcrq_step gm pw)\<^sup>*\<^sup>* ?y (after_step i \<lparr>t_pc = LIdle, t_loc = l'\<rparr> q' (y_in y @ [v]) (y_out y) y)"
    using enq_run_steps [of i ?y EReadTail ?l gm pw n l' q'] enq_run_arg [OF l'(1)] l'(1) i(1) unfolding call by simp
  ultimately show thesis
    using that [of "\<lparr>t_pc = LIdle, t_loc = l'\<rparr>"] l'(2) by (simp add: idle_def converse_rtranclp_into_rtranclp)
qed

lemma call_dequeue:
  assumes "i < length (y_thr y)" and "y_thr y ! i = \<lparr>t_pc = LIdle, t_loc = l\<rparr>"
  shows "lcrq_step gm pw y (after_step i \<lparr>t_pc = LDeq DReadHead, t_loc = l\<rparr> (y_q y) (y_in y) (y_out y) y)"
  using step_call [of i y None gm pw] assms by (simp add: lcrq_call_def)

lemma thread_dequeue:
  assumes "i < length (y_thr y)" and "y_thr y ! i = \<lparr>t_pc = LIdle, t_loc = l\<rparr>"
    and "deq_run pw n DReadHead (y_q y) = Inr (Some (v, q'))"
  shows "(lcrq_step gm pw)\<^sup>*\<^sup>* y (after_step i \<lparr>t_pc = LIdle, t_loc = l\<rparr> q' (y_in y) (y_out y @ [v]) y)"
proof -
  let ?y = "after_step i \<lparr>t_pc = LDeq DReadHead, t_loc = l\<rparr> (y_q y) (y_in y) (y_out y) y"
  have "(lcrq_step gm pw)\<^sup>*\<^sup>* ?y (after_step i \<lparr>t_pc = LIdle, t_loc = l\<rparr> q' (y_in y) (y_out y @ [v]) y)"
    using deq_run_steps [of i ?y DReadHead l pw n v q' gm] assms by simp
  then show ?thesis using call_dequeue [OF assms(1,2)] by (rule converse_rtranclp_into_rtranclp [rotated])
qed

text \<open>A ring is filled by one thread.\<close>

lemma thread_fill:
  assumes "i < length (y_thr y)" and "idle (y_thr y ! i)" and "- 1 \<notin> set vs" and "pw < 31"
    and "chain_rep gm pw 1 B (y_q y) [] a [] ys" and "length ys + length vs \<le> 2 ^ pw" and "B + length vs \<le> 2 ^ 62"
  shows "\<exists>t q'. idle t \<and> (lcrq_step gm pw)\<^sup>*\<^sup>* y (after_step i t q' (y_in y @ vs) (y_out y) y) \<and>
    chain_rep gm pw 1 (B + length vs) q' [] a [] (ys @ vs)"
  using assms
proof (induction vs arbitrary: y B ys)
  case Nil
  then show ?case by (intro exI [of _ "y_thr y ! i"] exI [of _ "y_q y"]) (simp add: after_step_same)
next
  case (Cons v vs)
  have "pw < 63" "B + 2 ^ pw < 2 ^ 63 - 1" "length ys < 2 ^ pw" "v \<noteq> - 1"
    using Cons.prems power_strict_increasing [of pw 31 "2 :: nat"] by auto
  then obtain q1 where q1: "enqueue gm pw 10 v None (y_q y) = Inr (Some (None, q1))"
    "chain_rep gm pw 1 (Suc B) q1 [] a [] (ys @ [v])"
    using enqueue_space [OF Cons.prems(5)] by blast
  obtain t where t: "idle t" "(lcrq_step gm pw)\<^sup>*\<^sup>* y (after_step i t q1 (y_in y @ [v]) (y_out y) y)"
    by (rule thread_enqueue [OF Cons.prems(1,2) \<open>v \<noteq> - 1\<close> q1(1)])
  let ?y = "after_step i t q1 (y_in y @ [v]) (y_out y) y"
  obtain t' q' where t': "idle t'" "(lcrq_step gm pw)\<^sup>*\<^sup>* ?y (after_step i t' q' (y_in y @ v # vs) (y_out y) y)"
    "chain_rep gm pw 1 (B + Suc (length vs)) q' [] a [] (ys @ v # vs)"
    using Cons.IH [of ?y "Suc B" "ys @ [v]"] Cons.prems t(1) q1(2) by auto
  have "(lcrq_step gm pw)\<^sup>*\<^sup>* y (after_step i t' q' (y_in y @ v # vs) (y_out y) y)"
    using t(2) t'(2) by (rule rtranclp_trans)
  with t'(1,3) show ?case by auto
qed

text \<open>A dequeue that has found its ring empty leaves it, whatever has been put into it meanwhile.\<close>

lemma deq_leaves_ring:
  assumes rep: "chain_rep gm pw 1 B q [b] a [vs] [w]" and bound: "pw < 63" "B + 2 ^ pw < 2 ^ 63 - 1"
  shows "\<exists>q'. deq_run pw 7 (DNext b) q = Inr (Some (w, q')) \<and> lrep gm pw 1 B q' []"
proof -
  have R: "holds_at pw q 0 B b (Some a) vs" "q_head q = b" using rep by (simp_all add: chain_rep_def)
  let ?q = "q\<lparr>q_head := a\<rparr>"
  have "chain_rep gm pw 1 B ?q [] a [] [w]" by (rule chain_drop [OF rep]) simp_all
  then obtain q' where q': "deq_run pw 5 DReadHead ?q = Inr (Some (w, q'))" "lrep gm pw 1 B q' []"
    using chain_pop [of gm pw 1 B ?q "[]" a "[]" "[w]" w "[]" "[]"] bound by auto
  have "deq_iter pw 2 (DNext b) q = Some (DReadHead, ?q)" using R by (auto simp: holds_at_def ring_def numeral_eq_Suc)
  from deq_iter_run [OF this, of 5] q' show ?thesis by simp
qed

section \<open>A new queue\<close>

text \<open>
  The state of a dequeue on a ring whose tail is \<open>0\<close>: it has seen that tail, an empty cell, and a ticket
  below \<open>n\<close>.
\<close>

definition starving :: "nat \<Rightarrow> deq_pc \<Rightarrow> addr \<Rightarrow> bool" where
  "starving n pc a \<longleftrightarrow>
     (case pc of
        DReadHead \<Rightarrow> True
      | DTicket rq \<Rightarrow> rq = a
      | DReadIdx rq h r tt \<Rightarrow> rq = a \<and> unat h < n \<and> tt = 0
      | DReadVal rq h r tt c \<Rightarrow> rq = a \<and> unat h < n \<and> tt = 0
      | DReadTl rq h r c v \<Rightarrow> rq = a \<and> unat h < n \<and> v = - 1
      | DSkip rq h r tt c v \<Rightarrow> rq = a \<and> unat h < n \<and> tt = 0 \<and> v = - 1
      | DSkipUnsafe rq h r tt c v \<Rightarrow> rq = a \<and> unat h < n \<and> tt = 0 \<and> v = - 1
      | DCheck rq h \<Rightarrow> rq = a \<and> unat h < n
      | _ \<Rightarrow> False)"

definition starved :: "nat \<Rightarrow> nat \<Rightarrow> lcrq \<Rightarrow> addr \<Rightarrow> bool" where
  "starved pw n q a \<longleftrightarrow>
     q_head q = a \<and>
     (\<exists>r. q_mem q a = Some r \<and> rq_tail r = 0 \<and> unat (rq_head r) \<le> n \<and> length (rq_array r) = 2 ^ pw \<and>
        (\<forall>c \<in> set (rq_array r). n_val c = - 1))"

lemma never_reached:
  assumes "unat h < n" and "n < 2 ^ 64 - 1"
  shows "\<not> tail_index (0 :: u64) - 1 \<le> h"
proof -
  have "unat (- 1 :: u64) = 2 ^ 64 - 1" by (simp add: unsigned_minus_1_eq_mask mask_eq_exp_minus_1)
  then show ?thesis using assms by (simp add: tail_index_def word_le_nat_alt)
qed

lemma starved_cell:
  assumes "starved pw n q a" and "pw < 64"
  obtains c where "cell pw q a h = Inr c" and "n_val c = - 1"
  using assms slot_less [OF assms(2), of h] by (auto simp: starved_def cell_def ring_def)

lemma starved_CAS2:
  assumes "starved pw n q a" and "pw < 64"
  obtains ok q1 where "CAS2 pw a h o1 o2 (- 1) n2 q = Inr (ok, q1)" and "starved pw n q1 a"
proof -
  obtain r where r: "q_mem q a = Some r" "rq_tail r = 0" "unat (rq_head r) \<le> n" "length (rq_array r) = 2 ^ pw"
    "\<forall>c \<in> set (rq_array r). n_val c = - 1" "q_head q = a"
    using assms(1) by (auto simp: starved_def)
  let ?r = "r\<lparr>rq_array := (rq_array r)[slot pw h := \<lparr>n_val = - 1, n_idx = n2\<rparr>]\<rparr>"
  have "starved pw n (put_ring a ?r q) a"
    using r by (auto simp: starved_def dest!: subsetD [OF set_update_subset_insert])
  then show thesis
    using that [of True "put_ring a ?r q"] that [of False q] assms(1) r(1,4) slot_less [OF assms(2), of h]
    by (cases "n_val (rq_array r ! slot pw h) = o1 \<and> n_idx (rq_array r ! slot pw h) = o2")
      (auto simp: CAS2_def ring_def)
qed

lemma starved_step:
  assumes q: "starved pw n q a" and pc: "starving n pc a" and pw: "pw < 64" and n: "n < 2 ^ 64 - 1"
  shows "\<exists>pc' q'. deq_step pw pc q = Inr (DGo pc', q') \<and> starved pw (Suc n) q' a \<and> starving (Suc n) pc' a"
proof -
  obtain r where r: "ring q a = Inr r" "q_mem q a = Some r" "rq_tail r = 0" "unat (rq_head r) \<le> n" "q_head q = a"
    using q by (auto simp: starved_def ring_def)
  have q': "starved pw (Suc n) q a" using q by (auto simp: starved_def)
  have no: "\<not> tail_index (0 :: u64) - 1 \<le> h" if "unat h < n" for h using never_reached [OF that n] .
  have cellE: "\<exists>c. cell pw q a h = Inr c \<and> n_val c = - 1" for h using starved_cell [OF q pw] by metis
  have cas: "\<exists>pc' q'. deq_cas pw a h k 0 (- 1) o2 (- 1) n2 (DGo (DCheck a h)) q = Inr (DGo pc', q') \<and>
      starved pw (Suc n) q' a \<and> starving (Suc n) pc' a" if "unat h < n" for h k o2 n2
  proof -
    obtain ok q1 where "CAS2 pw a h (- 1) o2 (- 1) n2 q = Inr (ok, q1)" "starved pw n q1 a"
      by (rule starved_CAS2 [OF q pw])
    then show ?thesis using that by (auto simp: deq_cas_def starving_def starved_def)
  qed
  have empty: "starving (Suc n) (deq_empty a h k 0 c (- 1)) a" if "unat h < n" for h k c
    using that no [OF that] by (simp add: deq_empty_def starving_def)
  show ?thesis
  proof (cases pc)
    case DReadHead
    then show ?thesis using q' r(5) by (auto simp: starving_def)
  next
    case (DTicket rq)
    have "unat (rq_head r + 1) \<le> Suc n" using r(4) n by (simp add: unat_word_ariths)
    then have "starved pw (Suc n) (put_ring a (r\<lparr>rq_head := rq_head r + 1\<rparr>) q) a" using q r(2) by (simp add: starved_def)
    then show ?thesis using DTicket pc r(1,4) by (simp add: starving_def Let_def)
  next
    case (DReadIdx rq h k tt)
    then show ?thesis using pc cellE [of h] q' by (auto simp: starving_def)
  next
    case (DReadVal rq h k tt c)
    then show ?thesis using pc cellE [of h] q' empty by (auto simp: starving_def Let_def is_empty_def)
  next
    case (DReadTl rq h k c v)
    then show ?thesis using pc r(1,3) q' empty by (auto simp: starving_def)
  next
    case (DSkipUnsafe rq h k tt c v)
    then show ?thesis using pc cas by (simp add: starving_def)
  next
    case (DSkip rq h k tt c v)
    then show ?thesis using pc cas by (simp add: starving_def)
  next
    case (DCheck rq h)
    then show ?thesis using pc r(1,3) q' no by (auto simp: starving_def)
  qed (use pc in \<open>simp_all add: starving_def\<close>)
qed

lemma starved_run:
  "starved pw n q a \<Longrightarrow> starving n pc a \<Longrightarrow> pw < 64 \<Longrightarrow> n + fuel < 2 ^ 64 \<Longrightarrow> deq_run pw fuel pc q = Inr None"
proof (induction fuel arbitrary: n pc q)
  case (Suc fuel)
  then obtain pc' q' where "deq_step pw pc q = Inr (DGo pc', q')" "starved pw (Suc n) q' a" "starving (Suc n) pc' a"
    using starved_step [of pw n q a pc] by auto
  then show ?case using Suc.IH [of "Suc n" q' pc'] Suc.prems by simp
qed simp

section \<open>Properties\<close>

text \<open>
  C22: in every state that any number of threads reach by any interleaving of calls of \<open>enqueue\<close> and
  \<open>dequeue\<close>, the next step of every thread succeeds: it reads and writes rings that are allocated and cells
  within them, and never dereferences a null pointer.
\<close>

theorem lcrq_memory_safe:
  assumes "(lcrq_step gm pw)\<^sup>*\<^sup>* (lcrq_start gm pw FULL n) y" and "pw < 31" and "getMemory_ok gm" and "i < length (y_thr y)"
  shows "\<exists>y'. lcrq_run gm pw i y = Inr y'"
  using inv_run [OF lcrq_reachable [OF assms(1)]] assms(2-4) by fastforce

text \<open>
  C21: no value is lost from memory, made up or delivered twice.  From a queue that starts empty or half
  full, in every reachable state the values put in at the start and by the enqueues that have returned, together
  with those of enqueues that have linked their ring and are about to return, are exactly the values in the
  rings that threads can reach, together with the values that dequeues have returned.
\<close>

theorem lcrq_conserves_values:
  assumes "(lcrq_step gm pw)\<^sup>*\<^sup>* (lcrq_start gm pw FULL n) y" and "pw < 31" and "getMemory_ok gm"
  shows "mset (y_in y) + pending (y_thr y) = stored (y_q y) (public (y_q y) (y_thr y)) + delivered (y_out y)"
  using lcrq_reachable [OF assms(1)] assms(2,3) by (simp add: lcrq_inv_def Let_def)

text \<open>
  C26: the rings stay well formed.  In every reachable state each ring has \<open>2 ^ RING_POW\<close> cells, the index of
  a cell is congruent to its position, so a cell only ever serves its own tickets, and \<open>next\<close> and the queue's
  \<open>head\<close> and \<open>tail\<close> point to rings that exist.
\<close>

theorem lcrq_rings_well_formed:
  assumes "(lcrq_step gm pw)\<^sup>*\<^sup>* (lcrq_start gm pw FULL n) y" and "pw < 31" and "getMemory_ok gm" and "q_mem (y_q y) a = Some r"
  shows "length (rq_array r) = 2 ^ pw \<and> (\<forall>k \<in> {..<2 ^ pw}. slot pw (n_idx (rq_array r ! k)) = k) \<and>
    set_option (rq_next r) \<union> {q_head (y_q y), q_tail (y_q y)} \<subseteq> dom (q_mem (y_q y))"
proof -
  have "mem_ok pw (public (y_q y) (y_thr y)) (y_q y)"
    using lcrq_reachable [OF assms(1)] assms(2,3) by (simp add: lcrq_inv_def Let_def)
  then have "ring_ok pw r" "set_option (rq_next r) \<union> {q_head (y_q y), q_tail (y_q y)} \<subseteq> public (y_q y) (y_thr y)"
    using assms(4) by (auto simp: mem_ok_def)
  then show ?thesis using public_dom [of "y_q y" "y_thr y"] unfolding ring_ok_def by blast
qed

text \<open>
  C19: used by one call at a time, the queue is a FIFO queue without a bound.  From a new queue, empty or
  filled by half, any sequence of up to \<open>2 ^ 61\<close> calls that begins with an enqueue returns, and its dequeues deliver
  what those of a list deliver, over the closing of full rings and the linking of new ones; an empty queue
  is reported as such.
\<close>

theorem lcrq_refines_fifo:
  assumes "pw < 31" and "getMemory_ok gm" and "length ops < 2 ^ 61" and "Some (- 1) \<notin> set (Some v # ops)"
  shows "\<exists>q. queue_run (lcrq_enq gm pw) (lcrq_deq pw) (Some v # ops) (SHARED_OBJECT_INIT gm pw FULL) =
    Some (fst (fifo_run (Some v # ops) (if FULL then replicate (2 ^ pw div 2) 0 else [])), q)"
proof -
  let ?xs = "if FULL then replicate (2 ^ pw div 2) 0 else []"
  have "\<exists>B q. queue_run (lcrq_enq gm pw) (lcrq_deq pw) (Some v # ops) (SHARED_OBJECT_INIT gm pw FULL) =
      Some (fst (fifo_run (Some v # ops) ?xs), q) \<and>
    (lrep gm pw 1 B q (snd (fifo_run (Some v # ops) ?xs)) \<and> getMemory_ok gm \<and> pw < 31)"
    by (rule lcrq.run_fresh [of gm pw "2 ^ 30"]) (use new_queue_rep [of pw gm FULL] assms in auto)
  then show ?thesis by blast
qed

text \<open>
  C36: two threads can lose a ring full of values.  A dequeue that finds the ring empty and is then delayed
  before it reads \<open>next\<close> swings \<open>head\<close> to the next ring without looking at the ring again.  If the
  other thread has filled the ring meanwhile and begun a new one, the values \<open>vs\<close> are skipped: the last value is
  delivered first, and with all calls returned the queue reports empty.
\<close>

theorem lcrq_loses_values:
  assumes pw: "pw < 31" and gm: "getMemory_ok gm" and vs: "length vs = 2 ^ pw" "- 1 \<notin> set (u # vs @ [w])"
  shows "\<exists>y q'. (lcrq_step gm pw)\<^sup>*\<^sup>* (lcrq_start gm pw False 2) y \<and> list_all (\<lambda>t. t_pc t = LIdle) (y_thr y) \<and>
    y_in y = u # vs @ [w] \<and> y_out y = [u, w] \<and> dequeue pw 20 (y_q y) = Inr (Some (- 1, q'))"
proof -
  let ?R = "(lcrq_step gm pw)\<^sup>*\<^sup>*" and ?y0 = "lcrq_start gm pw False 2"
  have p30: "2 ^ pw \<le> (2 :: nat) ^ 30" using pw power_increasing [of pw 30 "2 :: nat"] by simp
  have pw': "pw < 63" using pw by simp
  have b: "B + 2 ^ pw < 2 ^ 63 - 1" if "B \<le> 2 ^ 32" for B :: nat using p30 that by simp
  have thr0: "y_thr ?y0 = [new_lthread, new_lthread]" "idle new_lthread" "y_in ?y0 = []" "y_out ?y0 = []"
    by (simp_all add: lcrq_start_def idle_def new_lthread_def numeral_2_eq_2)
  \<comment> \<open>thread 0 puts \<open>u\<close> in and gets it out\<close>
  have start: "chain_rep gm pw 0 (2 ^ 30) (y_q ?y0) [] (gm 0) [] []"
    using new_queue_chain [OF pw, of gm False] by (simp add: lcrq_start_def)
  obtain q1 where q1: "enqueue gm pw 10 u None (y_q ?y0) = Inr (Some (None, q1))"
    "chain_rep gm pw 1 (Suc (2 ^ 30)) q1 [] (gm 0) [] [u]"
    using enqueue_space [OF start pw' b, where v = u] vs(2) by auto
  obtain t1 where t1: "idle t1" "?R ?y0 (after_step 0 t1 q1 [u] [] ?y0)"
    using thread_enqueue [where y = ?y0 and i = 0 and v = u and n = 10 and q' = q1] q1(1) thr0 vs(2) by auto
  obtain l1 where l1: "t1 = \<lparr>t_pc = LIdle, t_loc = l1\<rparr>" using t1(1) by (cases t1) (auto simp: idle_def)
  obtain q2 where q2: "deq_run pw 5 DReadHead q1 = Inr (Some (u, q2))" "lrep gm pw 1 (Suc (2 ^ 30)) q2 []"
    using chain_pop [OF q1(2) _ pw' b, where x = u and zs = "[]" and zss = "[]"] by auto
  obtain a where a: "chain_rep gm pw 1 (Suc (2 ^ 30)) q2 [] a [] []" by (rule lrep_Nil [OF q2(2)])
  let ?y2 = "after_step 0 t1 q2 [u] [u] ?y0"
  have y2: "?R (after_step 0 t1 q1 [u] [] ?y0) ?y2"
    using thread_dequeue [of 0 "after_step 0 t1 q1 [u] [] ?y0" l1 pw 5 u q2 gm] q2(1) thr0(1) l1 by simp
  \<comment> \<open>thread 1 finds the ring empty\<close>
  obtain k q3 where q3: "deq_iter pw k DReadHead q2 = Some (DNext a, q3)" "chain_rep gm pw 1 (2 ^ 30 + 2) q3 [] a [] []"
    using chain_empty [OF a pw' b] by auto
  let ?l0 = "t_loc new_lthread"
  let ?w3 = "after_step 1 \<lparr>t_pc = LDeq DReadHead, t_loc = ?l0\<rparr> q2 [u] [u] ?y2"
    and ?y3 = "after_step 1 \<lparr>t_pc = LDeq (DNext a), t_loc = ?l0\<rparr> q3 [u] [u] ?y2"
  have new: "new_lthread = \<lparr>t_pc = LIdle, t_loc = ?l0\<rparr>" by (simp add: new_lthread_def)
  have "lcrq_step gm pw ?y2 ?w3" using call_dequeue [of 1 ?y2 ?l0 gm pw] thr0(1) new by simp
  moreover have "?R ?w3 ?y3" using deq_iter_steps [of 1 ?w3 DReadHead ?l0 pw k "DNext a" q3 gm] q3(1) thr0(1) by simp
  ultimately have y3: "?R ?y2 ?y3" by (rule converse_rtranclp_into_rtranclp)
  \<comment> \<open>thread 0 fills the ring and begins another\<close>
  obtain t4 q4 where t4: "idle t4" "?R ?y3 (after_step 0 t4 q4 (u # vs) [u] ?y3)" "chain_rep gm pw 1 (2 ^ 30 + 2 + 2 ^ pw) q4 [] a [] vs"
    using thread_fill [of 0 ?y3 vs pw gm "2 ^ 30 + 2" a "[]"] q3(2) vs pw p30 t1(1) thr0(1) by auto
  obtain q5 a' where q5: "enqueue gm pw 10 w None q4 = Inr (Some (None, q5))"
    "chain_rep gm pw 1 (2 ^ 30 + 3 + 2 ^ pw) q5 [a] a' [vs] [w]"
    using enqueue_full [OF t4(3) pw' b gm _ vs(1), where v = w] vs(2) p30 by (auto simp: numeral_3_eq_3)
  let ?y4 = "after_step 0 t4 q4 (u # vs) [u] ?y3"
  obtain t5 where t5: "idle t5" "?R ?y4 (after_step 0 t5 q5 (u # vs @ [w]) [u] ?y4)"
    using thread_enqueue [where y = ?y4 and i = 0 and v = w and n = 10 and q' = q5] q5(1) t4(1) thr0(1) vs(2) by auto
  \<comment> \<open>thread 1 goes on\<close>
  let ?y5 = "after_step 0 t5 q5 (u # vs @ [w]) [u] ?y4"
  obtain q6 where q6: "deq_run pw 7 (DNext a) q5 = Inr (Some (w, q6))" "lrep gm pw 1 (2 ^ 30 + 3 + 2 ^ pw) q6 []"
    using deq_leaves_ring [OF q5(2) pw' b] p30 by auto
  let ?y6 = "after_step 1 \<lparr>t_pc = LIdle, t_loc = ?l0\<rparr> q6 (u # vs @ [w]) [u, w] ?y5"
  have "?R ?y5 ?y6" using deq_run_steps [of 1 ?y5 "DNext a" ?l0 pw 7 w q6 gm] q6(1) thr0(1) by simp
  then have "?R ?y0 ?y6" using t1(2) y2 y3 t4(2) t5(2) by (meson rtranclp_trans)
  moreover have "list_all (\<lambda>t. t_pc t = LIdle) (y_thr ?y6)" using thr0(1) t5(1) by (simp add: idle_def)
  moreover obtain q' where "dequeue pw 20 q6 = Inr (Some (- 1, q'))" using dequeue_empty_rep [OF q6(2) pw' b] p30 by auto
  ultimately show ?thesis by (intro exI [of _ ?y6] exI [of _ q']) simp
qed

text \<open>
  C37: on a new queue, into which nothing has been put, \<open>dequeue\<close> does not return within \<open>2 ^ 63\<close> steps, though
  no other thread interferes: for a tail of \<open>0\<close> the test \<open>tail_index(rq->tail) - 1 <= h\<close> wraps around and fails,
  so that it neither gives its ticket up early nor comes to report the empty queue.
\<close>

theorem dequeue_new_queue_spins:
  assumes "pw < 31" and "fuel \<le> 2 ^ 63"
  shows "dequeue pw fuel (SHARED_OBJECT_INIT gm pw False) = Inr None"
proof -
  have "starved pw 0 (SHARED_OBJECT_INIT gm pw False) (gm 0)"
    by (auto simp: starved_def SHARED_OBJECT_INIT_def init_ring_def Let_def)
  then show ?thesis
    unfolding dequeue_def using assms by (intro starved_run [of pw 0 _ "gm 0"]) (simp_all add: starving_def)
qed

section \<open>Witnesses\<close>

text \<open>A reachable state: thread 0 has put \<open>7\<close> into the queue.\<close>

lemma getMemory_id: "getMemory_ok id"
  by (simp add: getMemory_ok_def)

lemma demo_reachable:
  obtains y where "(lcrq_step id 1)\<^sup>*\<^sup>* (lcrq_start id 1 False 2) y" and "y_in y = [7]" and "y_out y = []" and "length (y_thr y) = 2"
    and "pending (y_thr y) = {#}" and "\<exists>r. q_mem (y_q y) 0 = Some r"
proof -
  let ?y = "lcrq_start id 1 False 2"
  have C: "chain_rep id 1 0 (2 ^ 30) (y_q ?y) [] 0 [] []"
    using new_queue_chain [of 1 id False] by (simp add: lcrq_start_def)
  obtain q where q: "enqueue id 1 10 7 None (y_q ?y) = Inr (Some (None, q))" "chain_rep id 1 1 (Suc (2 ^ 30)) q [] 0 [] [7]"
    using enqueue_space [OF C, where v = 7] by auto
  have thr: "y_thr ?y = [new_lthread, new_lthread]" "idle new_lthread" "y_in ?y = []" "y_out ?y = []"
    by (simp_all add: lcrq_start_def idle_def new_lthread_def numeral_2_eq_2)
  obtain t where t: "idle t" "(lcrq_step id 1)\<^sup>*\<^sup>* ?y (after_step 0 t q [7] [] ?y)"
    using thread_enqueue [where y = ?y and i = 0 and v = 7 and n = 10 and q' = q] q(1) thr by auto
  have "pending (y_thr (after_step 0 t q [7] [] ?y)) = {#}"
    using t(1) thr by (simp add: pending_def idle_def linked_def)
  moreover obtain r where "q_mem q 0 = Some r" by (rule chain_last [OF q(2)])
  ultimately show thesis using that [OF t(2)] thr by auto
qed

lemma lcrq_memory_safe_witness: "\<exists>y y'. (lcrq_step id 1)\<^sup>*\<^sup>* (lcrq_start id 1 False 2) y \<and> y_in y = [7] \<and> lcrq_run id 1 0 y = Inr y'"
proof -
  obtain y where "(lcrq_step id 1)\<^sup>*\<^sup>* (lcrq_start id 1 False 2) y" "y_in y = [7]" "length (y_thr y) = 2"
    by (rule demo_reachable)
  then show ?thesis using lcrq_memory_safe [of id 1 False 2 y 0] getMemory_id by auto
qed

lemma lcrq_conserves_values_witness:
  "\<exists>y. (lcrq_step id 1)\<^sup>*\<^sup>* (lcrq_start id 1 False 2) y \<and> stored (y_q y) (public (y_q y) (y_thr y)) = {#7#}"
proof -
  obtain y where y: "(lcrq_step id 1)\<^sup>*\<^sup>* (lcrq_start id 1 False 2) y" "y_in y = [7]" "y_out y = []" "pending (y_thr y) = {#}"
    by (rule demo_reachable)
  then have "stored (y_q y) (public (y_q y) (y_thr y)) = {#7#}"
    using lcrq_conserves_values [OF y(1)] getMemory_id by (simp add: delivered_def)
  with y(1) show ?thesis by blast
qed

lemma lcrq_rings_well_formed_witness:
  "\<exists>y r. (lcrq_step id 1)\<^sup>*\<^sup>* (lcrq_start id 1 False 2) y \<and> y_in y = [7] \<and> q_mem (y_q y) 0 = Some r \<and> length (rq_array r) = 2"
proof -
  obtain y r where y: "(lcrq_step id 1)\<^sup>*\<^sup>* (lcrq_start id 1 False 2) y" "y_in y = [7]" "q_mem (y_q y) 0 = Some r"
    by (rule demo_reachable) blast
  then show ?thesis using lcrq_rings_well_formed [OF y(1) _ getMemory_id y(3)] by auto
qed

text \<open>Three values through rings of one cell: the first ring is closed twice over.\<close>

lemma lcrq_refines_fifo_witness:
  "\<exists>q. queue_run (lcrq_enq id 0) (lcrq_deq 0) [Some 5, Some 6, None, Some 7, None, None, None]
    (SHARED_OBJECT_INIT id 0 False) = Some ([Some 5, Some 6, Some 7, None], q)"
  using lcrq_refines_fifo [of 0 id "[Some 6, None, Some 7, None, None, None]" 5 False] getMemory_id by simp

lemma lcrq_loses_values_witness:
  "\<exists>y q'. (lcrq_step id 1)\<^sup>*\<^sup>* (lcrq_start id 1 False 2) y \<and> list_all (\<lambda>t. t_pc t = LIdle) (y_thr y) \<and>
    y_in y = [1, 2, 3, 4] \<and> y_out y = [1, 4] \<and> dequeue 1 20 (y_q y) = Inr (Some (- 1, q'))"
  using lcrq_loses_values [of 1 id "[2, 3]" 1 4] getMemory_id by simp

lemma dequeue_new_queue_spins_witness: "dequeue 17 1000000 (SHARED_OBJECT_INIT id 17 False) = Inr None"
  using dequeue_new_queue_spins [of 17 1000000 id] by simp

end
