(* ===== verification/Lcrq_Bench.thy ===== *)
theory Lcrq_Bench
  imports Lcrq_Races
begin

text \<open>
  The benchmark of \<open>src/snippets/lcrq.c\<close>: every thread runs \<open>Execute\<close>, which calls \<open>enqueue(id, id)\<close> and
  \<open>dequeue(id)\<close> in turn.  The pauses between the calls, the barrier at the start and the statistics have no effect on
  the queue.  A history of the dequeues that returned, with the threads that made them, is kept beside the
  state (\<open>b_log\<close>); no step depends on it.  \<open>Lcrq_Main\<close> adds the barrier and the threads' creation and end.
\<close>

section \<open>The benchmark\<close>

text \<open>
  The system, the number of calls each thread has still to make, and the history of the dequeues that
  returned: the thread that made the call and its result.
\<close>

record bench =
  b_sys :: lsys
  b_left :: "nat list"
  b_log :: "(nat \<times> u64) list"

definition returned :: "nat \<Rightarrow> lsys \<Rightarrow> lsys \<Rightarrow> (nat \<times> u64) list" where
  "returned i y y' = map (Pair i) (drop (length (y_out y)) (y_out y'))"

text \<open>What the dequeues of thread \<open>i\<close> have returned.\<close>

definition results_of :: "nat \<Rightarrow> bench \<Rightarrow> u64 list" where
  "results_of i b = map snd (filter (\<lambda>r. fst r = i) (b_log b))"

text \<open>The next call of thread \<open>num\<close>, with \<open>left\<close> calls to make.\<close>

definition Execute :: "nat \<Rightarrow> nat \<Rightarrow> u64 option" where
  "Execute num left = (if even left then Some (of_nat num) else None)"

inductive bench_step :: "(nat \<Rightarrow> addr) \<Rightarrow> nat \<Rightarrow> bench \<Rightarrow> bench \<Rightarrow> bool" for gm pw where
  bench_call: "i < length (y_thr (b_sys b)) \<Longrightarrow> t_pc (y_thr (b_sys b) ! i) = LIdle \<Longrightarrow> 0 < b_left b ! i \<Longrightarrow>
    bench_step gm pw b \<lparr>b_sys = lcrq_call i (Execute i (b_left b ! i)) (b_sys b), b_left = (b_left b)[i := b_left b ! i - 1],
      b_log = b_log b\<rparr>"
| bench_run: "i < length (y_thr (b_sys b)) \<Longrightarrow> lcrq_run gm pw i (b_sys b) = Inr y' \<Longrightarrow>
    bench_step gm pw b \<lparr>b_sys = y', b_left = b_left b, b_log = b_log b @ returned i (b_sys b) y'\<rparr>"

definition bench_main :: "(nat \<Rightarrow> addr) \<Rightarrow> nat \<Rightarrow> bool \<Rightarrow> nat \<Rightarrow> nat \<Rightarrow> bench" where
  "bench_main gm pw FULL N_THREADS RUNS =
     \<lparr>b_sys = lcrq_start gm pw FULL N_THREADS, b_left = replicate N_THREADS (2 * RUNS), b_log = []\<rparr>"

text \<open>All threads have returned.\<close>

definition bench_joined :: "bench \<Rightarrow> bool" where
  "bench_joined b \<longleftrightarrow> list_all (\<lambda>t. t_pc t = LIdle) (y_thr (b_sys b)) \<and> list_all (\<lambda>k. k = 0) (b_left b)"

section \<open>Accounts\<close>

definition enq_args :: "lthread \<Rightarrow> u64 multiset" where
  "enq_args t = (case t_pc t of LEnq pc \<Rightarrow> {#l_arg (t_loc t)#} | _ \<Rightarrow> {#})"

definition deq_calls :: "lthread \<Rightarrow> nat" where
  "deq_calls t = (case t_pc t of LDeq pc \<Rightarrow> 1 | _ \<Rightarrow> 0)"

lemma sum_change:
  fixes f g :: "nat \<Rightarrow> 'a :: comm_monoid_add"
  assumes "j < n" and "\<And>i. i < n \<Longrightarrow> i \<noteq> j \<Longrightarrow> g i = f i"
  shows "sum g {..<n} + f j = sum f {..<n} + g j"
proof -
  have "sum g {..<n} = g j + sum f ({..<n} - {j})" "sum f {..<n} = f j + sum f ({..<n} - {j})"
    using assms(1) sum.cong [of "{..<n} - {j}" "{..<n} - {j}" g f] assms(2)
    by (simp_all add: sum.remove [of "{..<n}" j])
  then show ?thesis by (simp add: ac_simps)
qed

lemma balance:
  fixes A A' S S' x x' :: "'a :: cancel_comm_monoid_add"
  assumes "S' + x = S + x'" and "A' + x' = A + x"
  shows "A' + S' = A + S"
proof -
  have "(A' + S') + x = A' + (S' + x)" by (simp add: ac_simps)
  also have "\<dots> = (A' + x') + S" unfolding assms(1) by (simp add: ac_simps)
  also have "\<dots> = (A + S) + x" unfolding assms(2) by (simp add: ac_simps)
  finally show ?thesis by simp
qed

text \<open>A step within a call moves its argument or its result from the thread to the account.\<close>

lemma run_accounts:
  assumes "lcrq_run gm pw i y = Inr y'" and "i < length (y_thr y)"
  obtains t out where "y_thr y' = (y_thr y)[i := t]"
    and "mset (y_in y') + enq_args t = mset (y_in y) + enq_args (y_thr y ! i)"
    and "y_out y' = y_out y @ out" and "length out + deq_calls t = deq_calls (y_thr y ! i)"
proof (cases "t_pc (y_thr y ! i)")
  case LIdle
  then show thesis using that [of "y_thr y ! i" "[]"] assms by (simp add: lcrq_run_def)
next
  case (LEnq pc)
  then obtain r l q where st: "enq_step gm pw pc (t_loc (y_thr y ! i)) (y_q y) = Inr (r, l, q)"
    using assms(1) by (cases "enq_step gm pw pc (t_loc (y_thr y ! i)) (y_q y)") (auto simp: lcrq_run_def)
  have "l_arg l = l_arg (t_loc (y_thr y ! i))" by (rule enq_step_arg [OF st])
  then show thesis
    using that assms LEnq st
    by (cases r) (auto simp: lcrq_run_def enq_args_def deq_calls_def after_step_def)
next
  case (LDeq pc)
  then obtain r q where st: "deq_step pw pc (y_q y) = Inr (r, q)"
    using assms(1) by (cases "deq_step pw pc (y_q y)") (auto simp: lcrq_run_def)
  then show thesis
    using that assms LDeq
    by (cases r) (auto simp: lcrq_run_def enq_args_def deq_calls_def after_step_def)
qed

definition bench_inv :: "(nat \<Rightarrow> addr) \<Rightarrow> nat \<Rightarrow> bool \<Rightarrow> nat \<Rightarrow> nat \<Rightarrow> bench \<Rightarrow> bool" where
  "bench_inv gm pw FULL n RUNS b \<longleftrightarrow>
     (lcrq_step gm pw)\<^sup>*\<^sup>* (lcrq_start gm pw FULL n) (b_sys b) \<and>
     length (y_thr (b_sys b)) = n \<and> length (b_left b) = n \<and> (\<forall>i<n. b_left b ! i \<le> 2 * RUNS) \<and>
     mset (y_in (b_sys b)) + (\<Sum>i<n. enq_args (y_thr (b_sys b) ! i)) =
       mset (y_in (lcrq_start gm pw FULL n)) + (\<Sum>i<n. replicate_mset (RUNS - b_left b ! i div 2) (of_nat i)) \<and>
     length (y_out (b_sys b)) + (\<Sum>i<n. deq_calls (y_thr (b_sys b) ! i)) = (\<Sum>i<n. RUNS - Suc (b_left b ! i) div 2)"

lemma bench_inv_start: "bench_inv gm pw FULL n RUNS (bench_main gm pw FULL n RUNS)"
  by (simp add: bench_inv_def bench_main_def lcrq_start_def enq_args_def deq_calls_def new_lthread_def)

text \<open>A call is put down to the thread that makes it.\<close>

lemma call_accounts:
  assumes "i < length (y_thr y)" and "t_pc (y_thr y ! i) = LIdle"
  obtains t where "y_thr (lcrq_call i call y) = (y_thr y)[i := t]"
    and "y_in (lcrq_call i call y) = y_in y" and "y_out (lcrq_call i call y) = y_out y"
    and "enq_args t = (case call of None \<Rightarrow> {#} | Some v \<Rightarrow> {#v#})" and "deq_calls t = (case call of None \<Rightarrow> 1 | Some v \<Rightarrow> 0)"
    and "enq_args (y_thr y ! i) = {#}" and "deq_calls (y_thr y ! i) = 0"
  using assms that by (cases call) (simp_all add: lcrq_call_def after_step_def enq_args_def deq_calls_def Let_def)

lemma halves:
  assumes "0 < k" and "k \<le> 2 * RUNS"
  shows "RUNS - (k - 1) div 2 = (if even k then Suc (RUNS - k div 2) else RUNS - k div 2)"
    and "RUNS - Suc (k - 1) div 2 = (if even k then RUNS - Suc k div 2 else Suc (RUNS - Suc k div 2))"
proof -
  obtain m where "k = 2 * m \<or> k = Suc (2 * m)" using odd_two_times_div_two_succ [of k] by (metis evenE oddE Suc_eq_plus1)
  with assms show "RUNS - (k - 1) div 2 = (if even k then Suc (RUNS - k div 2) else RUNS - k div 2)"
    "RUNS - Suc (k - 1) div 2 = (if even k then RUNS - Suc k div 2 else Suc (RUNS - Suc k div 2))"
    by auto
qed

lemma bench_inv_step:
  assumes step: "bench_step gm pw b b'" and inv: "bench_inv gm pw FULL n RUNS b" and n: "n < 2 ^ 63"
  shows "bench_inv gm pw FULL n RUNS b'"
  using step
proof cases
  case (bench_call i)
  let ?y = "b_sys b" and ?k = "b_left b ! i"
  note I = inv [unfolded bench_inv_def]
  have i: "i < n" "i < length (y_thr ?y)" "i < length (b_left b)" using bench_call(2) I by simp_all
  let ?call = "Execute i ?k"
  obtain t where t: "y_thr (lcrq_call i ?call ?y) = (y_thr ?y)[i := t]"
    "y_in (lcrq_call i ?call ?y) = y_in ?y" "y_out (lcrq_call i ?call ?y) = y_out ?y"
    "enq_args t = (case ?call of None \<Rightarrow> {#} | Some v \<Rightarrow> {#v#})" "deq_calls t = (case ?call of None \<Rightarrow> 1 | Some v \<Rightarrow> 0)"
    "enq_args (y_thr ?y ! i) = {#}" "deq_calls (y_thr ?y ! i) = 0"
    by (rule call_accounts [OF i(2) bench_call(3)])
  have "?call \<noteq> Some (- 1)"
  proof
    assume "?call = Some (- 1)"
    then have "(of_nat i :: u64) = - 1" by (simp add: Execute_def split: if_splits)
    then have "unat (of_nat i :: u64) = unat (- 1 :: u64)" by simp
    then show False using i(1) n by (simp add: unat_ticket unsigned_minus_1_eq_mask mask_eq_exp_minus_1)
  qed
  then have "lcrq_step gm pw ?y (lcrq_call i ?call ?y)" by (intro step_call i(2) bench_call(3))
  then have reach: "(lcrq_step gm pw)\<^sup>*\<^sup>* (lcrq_start gm pw FULL n) (lcrq_call i ?call ?y)"
    using I by (meson rtranclp.rtrancl_into_rtrancl)
  have left: "b_left b' = (b_left b)[i := ?k - 1]" "b_sys b' = lcrq_call i ?call ?y" using bench_call(1) by simp_all
  note H = halves [OF bench_call(4), of RUNS]
  have k: "?k \<le> 2 * RUNS" using I i(1) by blast
  have E: "(\<Sum>j<n. enq_args (y_thr (b_sys b') ! j)) + enq_args (y_thr ?y ! i) = (\<Sum>j<n. enq_args (y_thr ?y ! j)) + enq_args t"
    using sum_change [OF i(1), of "\<lambda>j. enq_args (y_thr (b_sys b') ! j)" "\<lambda>j. enq_args (y_thr ?y ! j)"] t(1) i(2) left(2) by simp
  have D: "(\<Sum>j<n. deq_calls (y_thr (b_sys b') ! j)) + deq_calls (y_thr ?y ! i) = (\<Sum>j<n. deq_calls (y_thr ?y ! j)) + deq_calls t"
    using sum_change [OF i(1), of "\<lambda>j. deq_calls (y_thr (b_sys b') ! j)" "\<lambda>j. deq_calls (y_thr ?y ! j)"] t(1) i(2) left(2) by simp
  have Er: "(\<Sum>j<n. replicate_mset (RUNS - b_left b' ! j div 2) (of_nat j :: u64)) =
      (\<Sum>j<n. replicate_mset (RUNS - b_left b ! j div 2) (of_nat j)) + enq_args t"
    using sum_change [OF i(1), of "\<lambda>j. replicate_mset (RUNS - b_left b' ! j div 2) (of_nat j :: u64)"
        "\<lambda>j. replicate_mset (RUNS - b_left b ! j div 2) (of_nat j)"] left(1) i(3) t(4) H [OF k]
    by (auto simp: Execute_def split: if_splits)
  have Dr: "(\<Sum>j<n. RUNS - Suc (b_left b' ! j) div 2) = (\<Sum>j<n. RUNS - Suc (b_left b ! j) div 2) + deq_calls t"
    using sum_change [OF i(1), of "\<lambda>j. RUNS - Suc (b_left b' ! j) div 2" "\<lambda>j. RUNS - Suc (b_left b ! j) div 2"]
      left(1) i(3) t(5) H [OF k]
    by (auto simp: Execute_def split: if_splits)
  have "b_left b' ! j \<le> 2 * RUNS" if "j < n" for j
    using I left(1) le_trans [OF diff_le_self k] that i(3) by (cases "j = i") simp_all
  moreover have "length (y_thr (b_sys b')) = n" "length (b_left b') = n" using I left t(1) by simp_all
  ultimately show ?thesis
    unfolding bench_inv_def using reach I left(2) t(2,3,6,7) E D Er Dr by simp
next
  case (bench_run i y')
  let ?y = "b_sys b"
  note I = inv [unfolded bench_inv_def]
  have i: "i < n" "i < length (y_thr ?y)" using bench_run(2) I by simp_all
  obtain t out where t: "y_thr y' = (y_thr ?y)[i := t]"
    "mset (y_in y') + enq_args t = mset (y_in ?y) + enq_args (y_thr ?y ! i)"
    and out: "y_out y' = y_out ?y @ out" "length out + deq_calls t = deq_calls (y_thr ?y ! i)"
    by (rule run_accounts [OF bench_run(3) i(2)])
  then have len: "length (y_out y') + deq_calls t = length (y_out ?y) + deq_calls (y_thr ?y ! i)" by simp
  have reach: "(lcrq_step gm pw)\<^sup>*\<^sup>* (lcrq_start gm pw FULL n) y'"
    using I step_run [OF i(2) bench_run(3)] by (meson rtranclp.rtrancl_into_rtrancl)
  have E: "(\<Sum>j<n. enq_args (y_thr y' ! j)) + enq_args (y_thr ?y ! i) = (\<Sum>j<n. enq_args (y_thr ?y ! j)) + enq_args t"
    using sum_change [OF i(1), of "\<lambda>j. enq_args (y_thr y' ! j)" "\<lambda>j. enq_args (y_thr ?y ! j)"] t(1) i(2) by simp
  have D: "(\<Sum>j<n. deq_calls (y_thr y' ! j)) + deq_calls (y_thr ?y ! i) = (\<Sum>j<n. deq_calls (y_thr ?y ! j)) + deq_calls t"
    using sum_change [OF i(1), of "\<lambda>j. deq_calls (y_thr y' ! j)" "\<lambda>j. deq_calls (y_thr ?y ! j)"] t(1) i(2) by simp
  show ?thesis
    unfolding bench_inv_def bench_run(1)
    using reach I t(1) balance [OF E t(2)] balance [OF D len] by simp
qed

text \<open>The history holds the results in their order, and of each thread as many as it has made dequeues.\<close>

definition log_inv :: "nat \<Rightarrow> nat \<Rightarrow> bench \<Rightarrow> bool" where
  "log_inv n RUNS b \<longleftrightarrow>
     map snd (b_log b) = y_out (b_sys b) \<and>
     (\<forall>i<n. length (results_of i b) + deq_calls (y_thr (b_sys b) ! i) = RUNS - Suc (b_left b ! i) div 2)"

lemma log_inv_start: "log_inv n RUNS (bench_main gm pw FULL n RUNS)"
  by (simp add: log_inv_def bench_main_def lcrq_start_def deq_calls_def new_lthread_def results_of_def)

lemma log_inv_step:
  assumes step: "bench_step gm pw b b'" and inv: "bench_inv gm pw FULL n RUNS b" and log: "log_inv n RUNS b"
  shows "log_inv n RUNS b'"
proof -
  have len: "length (y_thr (b_sys b)) = n" "length (b_left b) = n" and max: "\<And>j. j < n \<Longrightarrow> b_left b ! j \<le> 2 * RUNS"
    using inv by (simp_all add: bench_inv_def)
  have L: "map snd (b_log b) = y_out (b_sys b)"
    "\<And>j. j < n \<Longrightarrow> length (results_of j b) + deq_calls (y_thr (b_sys b) ! j) = RUNS - Suc (b_left b ! j) div 2"
    using log by (simp_all add: log_inv_def)
  show ?thesis
    using step
  proof cases
    case (bench_call i)
    let ?k = "b_left b ! i"
    have i: "i < n" using bench_call(2) len by simp
    obtain t where t: "y_thr (b_sys b') = (y_thr (b_sys b))[i := t]" "y_out (b_sys b') = y_out (b_sys b)"
      "deq_calls t = (case Execute i ?k of None \<Rightarrow> 1 | Some v \<Rightarrow> 0)" "deq_calls (y_thr (b_sys b) ! i) = 0"
      using call_accounts [OF bench_call(2,3), of "Execute i ?k"] bench_call(1) by (metis bench.select_convs(1))
    have "RUNS - Suc (?k - 1) div 2 = RUNS - Suc ?k div 2 + deq_calls t"
      using halves(2) [OF bench_call(4) max [OF i]] t(3) by (auto simp: Execute_def)
    moreover have "b_left b' = (b_left b)[i := ?k - 1]" "results_of j b' = results_of j b" "b_log b' = b_log b" for j
      using bench_call(1) by (simp_all add: results_of_def)
    ultimately show ?thesis
      using L L(2) [OF i] t(1,2,4) i len by (auto simp: log_inv_def nth_list_update)
  next
    case (bench_run i y')
    have i: "i < n" using bench_run(2) len by simp
    obtain t out where t: "y_thr y' = (y_thr (b_sys b))[i := t]"
      and out: "y_out y' = y_out (b_sys b) @ out" "length out + deq_calls t = deq_calls (y_thr (b_sys b) ! i)"
      using run_accounts [OF bench_run(3,2)] by metis
    have log': "b_log b' = b_log b @ map (Pair i) out" using bench_run(1) out(1) by (simp add: returned_def)
    then have "results_of j b' = results_of j b @ (if j = i then out else [])" for j
      by (simp add: results_of_def filter_map comp_def)
    moreover have "length (results_of i b) + length out + deq_calls t = RUNS - Suc (b_left b ! i) div 2"
      using L(2) [OF i] out(2) by simp
    ultimately show ?thesis
      using L t i len out(1) log' bench_run(1) by (auto simp: log_inv_def comp_def nth_list_update)
  qed
qed

lemma bench_reachable:
  assumes "(bench_step gm pw)\<^sup>*\<^sup>* (bench_main gm pw FULL n RUNS) b" and "n < 2 ^ 63"
  shows "bench_inv gm pw FULL n RUNS b"
  using assms by (induction rule: rtranclp_induct) (auto intro: bench_inv_start bench_inv_step)

lemma log_reachable:
  assumes "(bench_step gm pw)\<^sup>*\<^sup>* (bench_main gm pw FULL n RUNS) b" and "n < 2 ^ 63"
  shows "log_inv n RUNS b"
  using assms(1)
proof (induction rule: rtranclp_induct)
  case (step b b')
  then show ?case using log_inv_step bench_reachable assms(2) by blast
qed (rule log_inv_start)

section \<open>The next step of a thread\<close>

text \<open>A thread that has no call left does nothing.\<close>

definition bench_next :: "(nat \<Rightarrow> addr) \<Rightarrow> nat \<Rightarrow> nat \<Rightarrow> bench \<Rightarrow> bench res" where
  "bench_next gm pw i b =
     (if length (y_thr (b_sys b)) \<le> i then Inr b
      else if t_pc (y_thr (b_sys b) ! i) \<noteq> LIdle then
        rbind (lcrq_run gm pw i (b_sys b)) (\<lambda>y'. 
          Inr \<lparr>b_sys = y', b_left = b_left b, b_log = b_log b @ returned i (b_sys b) y'\<rparr>)
      else if b_left b ! i = 0 then Inr b
      else Inr \<lparr>b_sys = lcrq_call i (Execute i (b_left b ! i)) (b_sys b), b_left = (b_left b)[i := b_left b ! i - 1],
        b_log = b_log b\<rparr>)"

lemma bench_next_step: "bench_next gm pw i b = Inr b' \<Longrightarrow> (bench_step gm pw)\<^sup>*\<^sup>* b b'"
  by (auto simp: bench_next_def rbind_eq_Inr_iff not_le simp del: One_nat_def split: if_splits
      intro!: r_into_rtranclp intro: bench_step.intros)

section \<open>The end of the benchmark\<close>

text \<open>
  When all threads of the benchmark have returned, each has got the results of \<open>RUNS\<close> dequeues, and what the queue holds together with what the
  dequeues returned are the values it held at the start and \<open>RUNS\<close> times the number of each thread.
\<close>

lemma benchmark_balances:
  assumes "(bench_step gm pw)\<^sup>*\<^sup>* (bench_main gm pw FULL N RUNS) b" and "bench_joined b"
    and "pw < 31" and "getMemory_ok gm" and "N < 2 ^ 63"
  shows "length (y_out (b_sys b)) = N * RUNS \<and> map snd (b_log b) = y_out (b_sys b) \<and>
    (\<forall>i<N. length (results_of i b) = RUNS) \<and>
    stored (y_q (b_sys b)) (public (y_q (b_sys b)) (y_thr (b_sys b))) + delivered (y_out (b_sys b)) =
      mset (y_in (lcrq_start gm pw FULL N)) + (\<Sum>i<N. replicate_mset RUNS (of_nat i))"
proof -
  let ?y = "b_sys b"
  have I: "bench_inv gm pw FULL N RUNS b" by (rule bench_reachable [OF assms(1,5)])
  then have len: "length (y_thr ?y) = N" "length (b_left b) = N" by (simp_all add: bench_inv_def)
  then have idle: "t_pc (y_thr ?y ! i) = LIdle" "b_left b ! i = 0" if "i < N" for i
    using assms(2) that by (simp_all add: bench_joined_def list_all_length)
  then have zero: "enq_args (y_thr ?y ! i) = {#}" "deq_calls (y_thr ?y ! i) = 0" if "i < N" for i
    using that by (simp_all add: enq_args_def deq_calls_def)
  have "pending (y_thr ?y) = {#}"
    using assms(2) by (auto simp: pending_def bench_joined_def list_all_iff linked_def filter_empty_conv)
  moreover have "mset (y_in ?y) + pending (y_thr ?y) = stored (y_q ?y) (public (y_q ?y) (y_thr ?y)) + delivered (y_out ?y)"
    using lcrq_reachable [of gm pw FULL N ?y] I assms(3,4) by (simp add: bench_inv_def lcrq_inv_def Let_def)
  moreover have "map snd (b_log b) = y_out ?y" "\<forall>i<N. length (results_of i b) = RUNS"
    using log_reachable [OF assms(1,5)] idle zero by (auto simp: log_inv_def)
  ultimately show ?thesis using I idle zero by (simp add: bench_inv_def)
qed

end
