(* ===== verification/Lcrq_Main.thy ===== *)
theory Lcrq_Main
  imports Lcrq_Bench
begin

text \<open>
  The program around the benchmark of \<open>src/snippets/lcrq.c\<close>: \<open>main\<close> with its argument, the barrier, \<open>StartThread\<close>,
  the start and the end of \<open>Execute\<close>, and \<open>pthread_join\<close>, as steps of a process.

  The results of the \<open>pthread\<close> functions are parameters (\<open>benv\<close>, 0 for success).  A barrier of \<open>N_THREADS\<close> lets its
  threads pass once all of them have arrived.  \<open>N_THREADS\<close> and \<open>RUNS\<close> are macros of a header that is not in the
  repository, and parameters here.  The clock and the processor counters have no effect on the queue.
\<close>

section \<open>The argument\<close>

definition isspace :: "byte \<Rightarrow> bool" where
  "isspace c \<longleftrightarrow> c = 32 \<or> 9 \<le> c \<and> c \<le> 13"

definition isdigit :: "byte \<Rightarrow> bool" where
  "isdigit c \<longleftrightarrow> 48 \<le> c \<and> c \<le> 57"

text \<open>\<open>sscanf(s, "%d", &v)\<close>: \<open>None\<close> where nothing matches and \<open>v\<close> is left alone.\<close>

definition sscanf_d :: "byte list \<Rightarrow> int option res" where
  "sscanf_d s =
     (let s1 = dropWhile isspace s;
          sign = (s1 \<noteq> [] \<and> (hd s1 = 43 \<or> hd s1 = 45));
          ds = takeWhile isdigit (if sign then tl s1 else s1);
          v = (if sign \<and> hd s1 = 45 then - int (dec_value ds) else int (dec_value ds))
      in if ds = [] then Inr None
         else if - int INT_MAX - 1 \<le> v \<and> v \<le> int INT_MAX then Inr (Some v) else Inl SignedOverflow)"

lemmas scan_simps = sscanf_d_def isspace_def isdigit_def dec_value_def INT_MAX_def

section \<open>The process\<close>

record benv =
  be_barrier_init :: int
  be_create :: "nat \<Rightarrow> int"       \<comment> \<open>the result of \<open>pthread_create\<close> for thread \<open>i\<close>\<close>
  be_wait :: "nat \<Rightarrow> int"         \<comment> \<open>the result of \<open>pthread_barrier_wait\<close> in thread \<open>i\<close>\<close>
  be_destroy :: int

definition PTHREAD_BARRIER_SERIAL_THREAD :: int where
  "PTHREAD_BARRIER_SERIAL_THREAD = - 1"

datatype bphase =
    BNone      \<comment> \<open>not created\<close>
  | BStart     \<comment> \<open>before the barrier\<close>
  | BWait      \<comment> \<open>at the barrier\<close>
  | BRun       \<comment> \<open>in the loop\<close>
  | BEnd       \<comment> \<open>returned\<close>

datatype mphase =
    MStart nat       \<comment> \<open>\<open>threads[i] = StartThread(i)\<close>\<close>
  | MJoin nat        \<comment> \<open>\<open>pthread_join(threads[i], NULL)\<close>\<close>
  | MDone cerror     \<comment> \<open>the process has ended; \<open>ExitWith v\<close> is also the return of \<open>v\<close> from \<open>main\<close>\<close>

record bproc =
  bp_bench :: bench
  bp_phase :: "bphase list"
  bp_main :: mphase
  bp_full :: int
  bp_printed :: "int option"      \<comment> \<open>what \<open>full=%d\<close> has printed\<close>

text \<open>\<open>main\<close> up to the first thread.  \<open>full\<close> keeps the argument, as \<open>SHARED_OBJECT_INIT\<close> resets \<open>FULL\<close>.\<close>

definition lcrq_main :: "benv \<Rightarrow> (nat \<Rightarrow> addr) \<Rightarrow> nat \<Rightarrow> nat \<Rightarrow> nat \<Rightarrow> byte list list \<Rightarrow> bproc res" where
  "lcrq_main env gm pw N_THREADS RUNS argv =
     (if length argv < 2 then Inl (ExitWith 0)
      else
        rbind (rd argv 1) (\<lambda>arg.
        rbind (sscanf_d arg) (\<lambda>v.
        let FULL = (case v of None \<Rightarrow> 0 | Some n \<Rightarrow> n) in
        if be_barrier_init env \<noteq> 0 then Inl (ExitWith (- 1))
        else
          let full = FULL in
          Inr \<lparr>bp_bench = bench_main gm pw (FULL \<noteq> 0) N_THREADS RUNS, bp_phase = replicate N_THREADS BNone,
               bp_main = MStart 0, bp_full = full, bp_printed = None\<rparr>)))"

text \<open>The result of \<open>pthread_create\<close> is dropped.\<close>

definition StartThread :: "benv \<Rightarrow> nat \<Rightarrow> bproc \<Rightarrow> bproc" where
  "StartThread env i s = s\<lparr>bp_phase := (bp_phase s)[i := if be_create env i = 0 then BStart else BNone]\<rparr>"

definition running :: "bproc \<Rightarrow> bool" where
  "running s \<longleftrightarrow> (case bp_main s of MDone e \<Rightarrow> False | _ \<Rightarrow> True)"

definition wait_ok :: "int \<Rightarrow> bool" where
  "wait_ok rc \<longleftrightarrow> \<not> (rc \<noteq> 0 \<and> rc \<noteq> PTHREAD_BARRIER_SERIAL_THREAD)"

definition arrived :: "bphase \<Rightarrow> bool" where
  "arrived p \<longleftrightarrow> p = BWait \<or> p = BRun \<or> p = BEnd"

text \<open>The loop of \<open>Execute\<close> has ended.\<close>

definition bench_finished :: "nat \<Rightarrow> bench \<Rightarrow> bool" where
  "bench_finished i b \<longleftrightarrow> t_pc (y_thr (b_sys b) ! i) = LIdle \<and> b_left b ! i = 0"

inductive proc_step :: "benv \<Rightarrow> (nat \<Rightarrow> addr) \<Rightarrow> nat \<Rightarrow> nat \<Rightarrow> bproc \<Rightarrow> bproc \<Rightarrow> bool" for env gm pw N where
  proc_create: "bp_main s = MStart i \<Longrightarrow> i < N \<Longrightarrow>
    proc_step env gm pw N s ((StartThread env i s)\<lparr>bp_main := MStart (Suc i)\<rparr>)"
| proc_created: "bp_main s = MStart N \<Longrightarrow> proc_step env gm pw N s (s\<lparr>bp_main := MJoin 0\<rparr>)"
| barrier_wait: "running s \<Longrightarrow> i < N \<Longrightarrow> bp_phase s ! i = BStart \<Longrightarrow> wait_ok (be_wait env i) \<Longrightarrow>
    proc_step env gm pw N s (s\<lparr>bp_phase := (bp_phase s)[i := BWait]\<rparr>)"
| barrier_fails: "running s \<Longrightarrow> i < N \<Longrightarrow> bp_phase s ! i = BStart \<Longrightarrow> \<not> wait_ok (be_wait env i) \<Longrightarrow>
    proc_step env gm pw N s (s\<lparr>bp_main := MDone (ExitWith (- 1))\<rparr>)"
| barrier_passed: "running s \<Longrightarrow> i < N \<Longrightarrow> bp_phase s ! i = BWait \<Longrightarrow> list_all arrived (bp_phase s) \<Longrightarrow>
    proc_step env gm pw N s (s\<lparr>bp_phase := (bp_phase s)[i := BRun]\<rparr>)"
| thread_works: "running s \<Longrightarrow> i < N \<Longrightarrow> bp_phase s ! i = BRun \<Longrightarrow> \<not> bench_finished i (bp_bench s) \<Longrightarrow>
    bench_next gm pw i (bp_bench s) = Inr b \<Longrightarrow> proc_step env gm pw N s (s\<lparr>bp_bench := b\<rparr>)"
| thread_returns: "running s \<Longrightarrow> i < N \<Longrightarrow> bp_phase s ! i = BRun \<Longrightarrow> bench_finished i (bp_bench s) \<Longrightarrow>
    proc_step env gm pw N s (s\<lparr>bp_phase := (bp_phase s)[i := BEnd]\<rparr>)"
| proc_joins: "bp_main s = MJoin i \<Longrightarrow> i < N \<Longrightarrow> bp_phase s ! i = BEnd \<Longrightarrow>
    proc_step env gm pw N s (s\<lparr>bp_main := MJoin (Suc i)\<rparr>)"
| proc_joins_none: "bp_main s = MJoin i \<Longrightarrow> i < N \<Longrightarrow> be_create env i \<noteq> 0 \<Longrightarrow>
    proc_step env gm pw N s (s\<lparr>bp_main := MDone Indeterminate\<rparr>)"
| proc_returns: "bp_main s = MJoin N \<Longrightarrow>
    proc_step env gm pw N s (s\<lparr>bp_printed := Some (bp_full s),
      bp_main := MDone (ExitWith (if be_destroy env \<noteq> 0 then - 1 else 0))\<rparr>)"

section \<open>The invariant\<close>

definition proc_inv :: "benv \<Rightarrow> nat \<Rightarrow> bproc \<Rightarrow> bool" where
  "proc_inv env N s \<longleftrightarrow>
     (case bp_main s of
        MStart i \<Rightarrow> i \<le> N \<and> (\<forall>j<i. be_create env j = 0 \<longrightarrow> bp_phase s ! j \<noteq> BNone) \<and> (\<forall>j<N. i \<le> j \<longrightarrow> bp_phase s ! j = BNone)
      | MJoin i \<Rightarrow> i \<le> N \<and> (\<forall>j<N. be_create env j = 0 \<longrightarrow> bp_phase s ! j \<noteq> BNone) \<and> (\<forall>j<i. bp_phase s ! j = BEnd)
      | MDone e \<Rightarrow> e = ExitWith 0 \<longrightarrow> bp_printed s = Some (bp_full s) \<and> (\<forall>j<N. bp_phase s ! j = BEnd))"

definition threads_inv :: "benv \<Rightarrow> nat \<Rightarrow> bench \<Rightarrow> bproc \<Rightarrow> bool" where
  "threads_inv env N b0 s \<longleftrightarrow>
     length (bp_phase s) = N \<and>
     (\<forall>j<N. bp_phase s ! j \<noteq> BNone \<longrightarrow> be_create env j = 0) \<and>
     (\<forall>j<N. bp_phase s ! j = BEnd \<longrightarrow> bench_finished j (bp_bench s)) \<and>
     (list_all arrived (bp_phase s) \<or>
        bp_bench s = b0 \<and> bp_printed s = None \<and> (\<forall>j<N. bp_phase s ! j \<noteq> BRun \<and> bp_phase s ! j \<noteq> BEnd))"

lemma lcrq_run_other:
  assumes "lcrq_run gm pw i y = Inr y'" and "j \<noteq> i"
  shows "y_thr y' ! j = y_thr y ! j"
  using assms
  by (auto simp: lcrq_run_def Let_def rbind_eq_Inr_iff split: lpc.splits option.split deq_out.split)

lemma bench_next_other:
  assumes "bench_next gm pw i b = Inr b'" and "j \<noteq> i" and "bench_finished j b"
  shows "bench_finished j b'"
  using assms lcrq_run_other [of gm pw i "b_sys b" _ j]
  by (auto simp: bench_next_def bench_finished_def rbind_eq_Inr_iff lcrq_call_def Let_def split: if_splits)

lemma threads_inv_step:
  assumes "proc_step env gm pw N s s'" and "threads_inv env N b0 s" and "proc_inv env N s"
  shows "threads_inv env N b0 s'"
  using assms
proof cases
  case (proc_create i)
  then have "bp_phase s ! i = BNone" using assms(3) by (simp add: proc_inv_def)
  then have "\<not> list_all arrived (bp_phase s)" using proc_create assms(2) by (auto simp: list_all_length arrived_def threads_inv_def)
  with proc_create assms(2) show ?thesis by (auto simp: threads_inv_def StartThread_def nth_list_update)
next
  case (barrier_wait i)
  then show ?thesis using assms(2) by (auto simp: threads_inv_def nth_list_update list_all_length arrived_def)
next
  case (barrier_passed i)
  then show ?thesis using assms(2) by (auto simp: threads_inv_def nth_list_update list_all_length arrived_def)
next
  case (thread_works i b)
  have arr: "list_all arrived (bp_phase s)" using assms(2) thread_works(3,4) unfolding threads_inv_def by metis
  have "bench_finished j b" if "j < N" "bp_phase s ! j = BEnd" for j
  proof (rule bench_next_other [OF thread_works(6)])
    show "j \<noteq> i" using that(2) thread_works(4) by auto
    show "bench_finished j (bp_bench s)" using assms(2) that unfolding threads_inv_def by blast
  qed
  then show ?thesis using assms(2) arr unfolding thread_works(1) threads_inv_def by simp
next
  case (thread_returns i)
  then show ?thesis using assms(2) by (auto simp: threads_inv_def nth_list_update list_all_length arrived_def)
next
  case proc_returns
  then have "list_all arrived (bp_phase s)"
    using assms(2,3) by (simp add: proc_inv_def threads_inv_def list_all_length arrived_def)
  then show ?thesis using assms(2) proc_returns by (simp add: threads_inv_def)
qed (use assms(2) in \<open>simp_all add: threads_inv_def\<close>)

lemma proc_main_step:
  assumes "proc_step env gm pw N s s'" and "threads_inv env N b0 s" and "proc_inv env N s"
  shows "proc_inv env N s'"
proof -
  have len: "length (bp_phase s) = N" using assms(2) by (simp add: threads_inv_def)
  show ?thesis
    using assms(1)
  proof cases
    case (proc_create i)
    then show ?thesis using assms(3) len by (auto simp: proc_inv_def StartThread_def nth_list_update less_Suc_eq)
  next
    case (barrier_wait i)
    then show ?thesis using assms(3) len by (auto simp: proc_inv_def nth_list_update running_def split: mphase.splits)
  next
    case (barrier_passed i)
    then show ?thesis using assms(3) len by (auto simp: proc_inv_def nth_list_update running_def split: mphase.splits)
  next
    case (thread_returns i)
    then show ?thesis using assms(3) len by (auto simp: proc_inv_def nth_list_update running_def split: mphase.splits)
  next
    case (proc_joins i)
    then show ?thesis using assms(3) by (auto simp: proc_inv_def less_Suc_eq)
  qed (use assms(3) in \<open>auto simp: proc_inv_def running_def split: mphase.splits\<close>)
qed

lemma bench_steps:
  assumes "proc_step env gm pw N s s'"
  shows "(bench_step gm pw)\<^sup>*\<^sup>* (bp_bench s) (bp_bench s')" and "bp_full s' = bp_full s"
  using assms by (cases; auto simp: StartThread_def intro: bench_next_step)+

lemma proc_start:
  assumes "lcrq_main env gm pw N RUNS argv = Inr s"
  shows "proc_inv env N s" and "threads_inv env N (bp_bench s) s" and "bp_bench s = bench_main gm pw (bp_full s \<noteq> 0) N RUNS"
    and "bp_printed s = None"
  using assms
  by (auto simp: lcrq_main_def rbind_eq_Inr_iff proc_inv_def threads_inv_def Let_def split: if_splits)

lemma proc_reachable:
  assumes "lcrq_main env gm pw N RUNS argv = Inr s0" and "(proc_step env gm pw N)\<^sup>*\<^sup>* s0 s"
  shows "proc_inv env N s \<and> threads_inv env N (bp_bench s0) s \<and> (bench_step gm pw)\<^sup>*\<^sup>* (bp_bench s0) (bp_bench s) \<and> bp_full s = bp_full s0"
  using assms(2)
proof (induction rule: rtranclp_induct)
  case base
  then show ?case using proc_start [OF assms(1)] by simp
next
  case (step s s')
  then show ?case using proc_main_step threads_inv_step bench_steps by (metis rtranclp_trans)
qed

section \<open>Running a schedule\<close>

text \<open>The next step of \<open>main\<close> and of thread \<open>i\<close>; one that has to wait leaves the process as it is.\<close>

definition main_next :: "benv \<Rightarrow> nat \<Rightarrow> bproc \<Rightarrow> bproc" where
  "main_next env N s =
     (case bp_main s of
        MStart i \<Rightarrow>
          if i < N then (StartThread env i s)\<lparr>bp_main := MStart (Suc i)\<rparr>
          else if i = N then s\<lparr>bp_main := MJoin 0\<rparr> else s
      | MJoin i \<Rightarrow>
          if i < N then
            (if be_create env i \<noteq> 0 then s\<lparr>bp_main := MDone Indeterminate\<rparr>
             else if bp_phase s ! i = BEnd then s\<lparr>bp_main := MJoin (Suc i)\<rparr> else s)
          else if i = N then
            s\<lparr>bp_printed := Some (bp_full s), bp_main := MDone (ExitWith (if be_destroy env \<noteq> 0 then - 1 else 0))\<rparr>
          else s
      | MDone e \<Rightarrow> s)"

definition thread_next :: "benv \<Rightarrow> (nat \<Rightarrow> addr) \<Rightarrow> nat \<Rightarrow> nat \<Rightarrow> nat \<Rightarrow> bproc \<Rightarrow> bproc" where
  "thread_next env gm pw N i s =
     (if \<not> running s \<or> N \<le> i then s
      else
        case bp_phase s ! i of
          BNone \<Rightarrow> s
        | BStart \<Rightarrow>
            if wait_ok (be_wait env i) then s\<lparr>bp_phase := (bp_phase s)[i := BWait]\<rparr>
            else s\<lparr>bp_main := MDone (ExitWith (- 1))\<rparr>
        | BWait \<Rightarrow> if list_all arrived (bp_phase s) then s\<lparr>bp_phase := (bp_phase s)[i := BRun]\<rparr> else s
        | BRun \<Rightarrow>
            if bench_finished i (bp_bench s) then s\<lparr>bp_phase := (bp_phase s)[i := BEnd]\<rparr>
            else (case bench_next gm pw i (bp_bench s) of Inl e \<Rightarrow> s | Inr b \<Rightarrow> s\<lparr>bp_bench := b\<rparr>)
        | BEnd \<Rightarrow> s)"

fun proc_exec :: "benv \<Rightarrow> (nat \<Rightarrow> addr) \<Rightarrow> nat \<Rightarrow> nat \<Rightarrow> nat option list \<Rightarrow> bproc \<Rightarrow> bproc" where
  "proc_exec env gm pw N [] s = s"
| "proc_exec env gm pw N (None # ws) s = proc_exec env gm pw N ws (main_next env N s)"
| "proc_exec env gm pw N (Some i # ws) s = proc_exec env gm pw N ws (thread_next env gm pw N i s)"

lemma main_next_step: "(proc_step env gm pw N)\<^sup>*\<^sup>* s (main_next env N s)"
proof (cases "bp_main s")
  case (MStart i)
  then show ?thesis by (auto simp: main_next_def intro!: r_into_rtranclp intro: proc_create proc_created)
next
  case (MJoin i)
  consider "N < i" | "i = N" | "i < N" "be_create env i \<noteq> 0" | "i < N" "be_create env i = 0" by linarith
  then show ?thesis
  proof cases
    case 2
    then show ?thesis using MJoin proc_returns [of s N env gm pw] by (simp add: main_next_def r_into_rtranclp)
  qed (use MJoin in \<open>auto simp: main_next_def intro!: r_into_rtranclp intro: proc_joins proc_joins_none\<close>)
qed (simp add: main_next_def)

lemma thread_next_step: "(proc_step env gm pw N)\<^sup>*\<^sup>* s (thread_next env gm pw N i s)"
proof (cases "running s \<and> i < N")
  case True
  then show ?thesis
    by (auto simp: thread_next_def not_le intro!: r_into_rtranclp split: bphase.split sum.split
        intro: barrier_wait barrier_fails [of s i] barrier_passed thread_works thread_returns)
next
  case False
  then show ?thesis by (auto simp: thread_next_def)
qed

lemma proc_exec_steps: "(proc_step env gm pw N)\<^sup>*\<^sup>* s (proc_exec env gm pw N ws s)"
  by (induction env gm pw N ws s rule: proc_exec.induct) (auto intro: rtranclp_trans main_next_step thread_next_step)

section \<open>Properties\<close>

text \<open>
  C24: when \<open>main\<close> of the benchmark returns 0, all threads have returned, it has printed the argument it was called with,
  \<open>RUNS\<close> dequeues of each thread have returned and no others (the history \<open>b_log\<close> holds the thread and the
  result of every one), and what the queue holds together with what the dequeues returned are
  the values it held at the start and \<open>RUNS\<close> times the number of each thread.
\<close>

theorem lcrq_main_balances:
  assumes "lcrq_main env gm pw N RUNS argv = Inr s0" and "(proc_step env gm pw N)\<^sup>*\<^sup>* s0 s" and "bp_main s = MDone (ExitWith 0)"
    and "pw < 31" and "getMemory_ok gm" and "N < 2 ^ 63"
  shows "bp_phase s = replicate N BEnd \<and> bp_printed s = Some (bp_full s0) \<and>
    (let y = b_sys (bp_bench s) in
     length (y_out y) = N * RUNS \<and> map snd (b_log (bp_bench s)) = y_out y \<and>
     (\<forall>i<N. length (results_of i (bp_bench s)) = RUNS) \<and>
     stored (y_q y) (public (y_q y) (y_thr y)) + delivered (y_out y) =
       mset (y_in (lcrq_start gm pw (bp_full s0 \<noteq> 0) N)) + (\<Sum>i<N. replicate_mset RUNS (of_nat i)))"
proof -
  note R = proc_reachable [OF assms(1,2)]
  let ?b = "bp_bench s"
  have ends: "bp_phase s ! j = BEnd" if "j < N" for j using R assms(3) that by (simp add: proc_inv_def)
  have p: "bp_printed s = Some (bp_full s0)" using R assms(3) by (simp add: proc_inv_def)
  have steps: "(bench_step gm pw)\<^sup>*\<^sup>* (bench_main gm pw (bp_full s0 \<noteq> 0) N RUNS) ?b"
    using R proc_start(3) [OF assms(1)] by simp
  have "bench_inv gm pw (bp_full s0 \<noteq> 0) N RUNS ?b" by (rule bench_reachable [OF steps assms(6)])
  then have "bench_joined ?b"
    using R ends by (auto simp: bench_inv_def bench_joined_def list_all_length threads_inv_def bench_finished_def)
  from benchmark_balances [OF steps this assms(4-6)] show ?thesis
    using R ends p by (simp add: threads_inv_def Let_def list_eq_iff_nth_eq)
qed

text \<open>A run of two threads, one round each on rings of two cells; the queue is half full at the start.\<close>

definition fair_env :: benv where
  "fair_env = \<lparr>be_barrier_init = 0, be_create = \<lambda>i. 0, be_wait = \<lambda>i. if i = 0 then - 1 else 0, be_destroy = 0\<rparr>"

theorem lcrq_main_balances_witness:
  "\<exists>s0 s. lcrq_main fair_env id 1 2 1 [[108], [32, 43, 49]] = Inr s0 \<and> (proc_step fair_env id 1 2)\<^sup>*\<^sup>* s0 s \<and>
     bp_main s = MDone (ExitWith 0) \<and> bp_phase s = [BEnd, BEnd] \<and> bp_printed s = Some 1 \<and> length (y_out (b_sys (bp_bench s))) = 2 \<and>
     length (results_of 0 (bp_bench s)) = 1 \<and> length (results_of 1 (bp_bench s)) = 1"
proof -
  let ?s0 = "\<lparr>bp_bench = bench_main id 1 True 2 1, bp_phase = replicate 2 BNone, bp_main = MStart 0, bp_full = 1, bp_printed = None\<rparr>"
  let ?ws = "replicate 3 None @ concat (replicate 30 [Some 0, Some 1]) @ replicate 3 None"
  have s0: "lcrq_main fair_env id 1 2 1 [[108], [32, 43, 49]] = Inr ?s0"
    by (simp add: lcrq_main_def scan_simps fair_env_def)
  have "bp_main (proc_exec fair_env id 1 2 ?ws ?s0) = MDone (ExitWith 0)" by code_simp
  then obtain s where s: "(proc_step fair_env id 1 2)\<^sup>*\<^sup>* ?s0 s" "bp_main s = MDone (ExitWith 0)"
    using proc_exec_steps by blast
  have "replicate 2 BEnd = [BEnd, BEnd]" by (simp add: numeral_2_eq_2)
  then show ?thesis
    using lcrq_main_balances [OF s0 s _ getMemory_id] s0 s
    by (intro exI [of _ ?s0] exI [of _ s]) (simp add: Let_def)
qed

text \<open>
  C38: \<open>StartThread\<close> drops the result of \<open>pthread_create\<close>.  When a thread cannot be created, the barrier is never passed:
  in every state the process can reach, no thread has touched the queue, nothing has been printed, and \<open>main\<close> is
  creating threads, waits for thread 0, or the process has ended by joining a thread that does not exist or with
  status -1.
\<close>

theorem lcrq_main_create_fails:
  assumes "lcrq_main env gm pw N RUNS argv = Inr s0" and "(proc_step env gm pw N)\<^sup>*\<^sup>* s0 s" and "k < N" and "be_create env k \<noteq> 0"
  shows "bp_bench s = bp_bench s0 \<and> bp_printed s = None \<and>
    (case bp_main s of MStart i \<Rightarrow> True | MJoin i \<Rightarrow> i = 0 | MDone e \<Rightarrow> e \<noteq> ExitWith 0)"
proof -
  note R = proc_reachable [OF assms(1,2)]
  then have "bp_phase s ! k = BNone" "length (bp_phase s) = N" using assms(3,4) by (auto simp: threads_inv_def)
  then have "\<not> list_all arrived (bp_phase s)" using assms(3) by (auto simp: list_all_length arrived_def)
  then have T: "bp_bench s = bp_bench s0" "bp_printed s = None" "bp_phase s ! j \<noteq> BEnd" if "j < N" for j
    using R that by (auto simp: threads_inv_def)
  then show ?thesis using R assms(3) by (fastforce simp: proc_inv_def split: mphase.splits)
qed

text \<open>Thread 1 of two is not created: \<open>main\<close> waits for thread 0, which waits at the barrier.\<close>

definition failing_env :: benv where
  "failing_env = fair_env\<lparr>be_create := \<lambda>i. if i = 1 then 11 else 0\<rparr>"

theorem lcrq_main_create_fails_witness:
  "\<exists>s0 s. lcrq_main failing_env id 1 2 1 [[108], [48]] = Inr s0 \<and> (proc_step failing_env id 1 2)\<^sup>*\<^sup>* s0 s \<and>
     bp_main s = MJoin 0 \<and> bp_phase s = [BWait, BNone] \<and> bp_printed s = None \<and> bp_bench s = bp_bench s0"
proof -
  let ?s0 = "\<lparr>bp_bench = bench_main id 1 False 2 1, bp_phase = replicate 2 BNone, bp_main = MStart 0, bp_full = 0, bp_printed = None\<rparr>"
  let ?ws = "replicate 3 None @ concat (replicate 3 [Some 0, Some 1, None])"
  have s0: "lcrq_main failing_env id 1 2 1 [[108], [48]] = Inr ?s0"
    by (simp add: lcrq_main_def scan_simps failing_env_def fair_env_def)
  have "bp_main (proc_exec failing_env id 1 2 ?ws ?s0) = MJoin 0 \<and> bp_phase (proc_exec failing_env id 1 2 ?ws ?s0) = [BWait, BNone]"
    by code_simp
  then obtain s where s: "(proc_step failing_env id 1 2)\<^sup>*\<^sup>* ?s0 s" "bp_main s = MJoin 0" "bp_phase s = [BWait, BNone]"
    using proc_exec_steps by blast
  have "be_create failing_env 1 \<noteq> 0" by (simp add: failing_env_def)
  from lcrq_main_create_fails [OF s0 s(1) _ this] show ?thesis using s0 s by (intro exI [of _ ?s0] exI [of _ s]) simp
qed

lemma bench_next_succeeds:
  assumes "bench_inv gm pw FULL N RUNS b" and "i < N" and "pw < 31" and "getMemory_ok gm"
  shows "\<exists>b'. bench_next gm pw i b = Inr b'"
proof -
  have "lcrq_inv gm pw (b_sys b)" "i < length (y_thr (b_sys b))"
    using assms lcrq_reachable [of gm pw FULL N "b_sys b"] by (auto simp: bench_inv_def)
  then obtain y' where "lcrq_run gm pw i (b_sys b) = Inr y'" using inv_run [of gm pw "b_sys b" i] assms(3,4) by auto
  then show ?thesis by (auto simp: bench_next_def)
qed

text \<open>A thread that has been created and not returned can go on, unless it waits at the barrier for another one.\<close>

lemma thread_can_step:
  assumes run: "running s" and "bench_inv gm pw FULL N RUNS (bp_bench s)" and "pw < 31" and "getMemory_ok gm"
    and i: "i < N" "bp_phase s ! i \<noteq> BNone" "bp_phase s ! i \<noteq> BEnd"
    and arr: "list_all arrived (bp_phase s) \<or> bp_phase s ! i = BStart"
  shows "\<exists>s'. proc_step env gm pw N s s'"
proof (cases "bp_phase s ! i")
  case BStart
  then show ?thesis using barrier_wait barrier_fails run i(1) by metis
next
  case BWait
  then show ?thesis using barrier_passed [OF run i(1)] arr by auto
next
  case BRun
  obtain b where "bench_next gm pw i (bp_bench s) = Inr b" using bench_next_succeeds [OF assms(2) i(1) assms(3,4)] by blast
  then show ?thesis using thread_works [OF run i(1) BRun] thread_returns [OF run i(1) BRun] by blast
qed (use i in simp_all)

lemma create_can_step:
  assumes "bp_main s = MStart i" and "i \<le> N"
  shows "\<exists>s'. proc_step env gm pw N s s'"
proof (cases "i = N")
  case True
  with assms(1) proc_created [of s N env gm pw] show ?thesis by blast
next
  case False
  with assms(2) have "i < N" by simp
  from proc_create [OF assms(1) this] show ?thesis by blast
qed

text \<open>
  C25: the benchmark does not deadlock.  When all threads can be created, in every state the process reaches before its
  end some thread or \<open>main\<close> can take a step.
\<close>

theorem lcrq_main_never_stuck:
  assumes "lcrq_main env gm pw N RUNS argv = Inr s0" and "(proc_step env gm pw N)\<^sup>*\<^sup>* s0 s" and "running s"
    and create: "\<forall>k<N. be_create env k = 0" and "pw < 31" and "getMemory_ok gm" and "N < 2 ^ 63"
  shows "\<exists>s'. proc_step env gm pw N s s'"
proof -
  note R = proc_reachable [OF assms(1,2)]
  have "bench_inv gm pw (bp_full s0 \<noteq> 0) N RUNS (bp_bench s)"
    using R proc_start(3) [OF assms(1)] assms(7) by (intro bench_reachable) simp_all
  note work = thread_can_step [OF assms(3) this assms(5,6)]
  show ?thesis
  proof (cases "bp_main s")
    case (MStart i)
    then have "i \<le> N" using R by (simp add: proc_inv_def)
    with MStart show ?thesis by (rule create_can_step)
  next
    case (MJoin i)
    then have created: "bp_phase s ! j \<noteq> BNone" if "j < N" for j using R create that by (simp add: proc_inv_def)
    show ?thesis
    proof (cases "i < N")
      case True
      show ?thesis
      proof (cases "list_all arrived (bp_phase s)")
        case arr: True
        then show ?thesis using work [OF True created [OF True]] proc_joins [OF MJoin True] by blast
      next
        case False
        then obtain j where "j < N" "\<not> arrived (bp_phase s ! j)" using R by (auto simp: list_all_length threads_inv_def)
        then have "j < N" "bp_phase s ! j = BStart" using created [of j] by (cases "bp_phase s ! j"; simp add: arrived_def)+
        then show ?thesis using work [of j] by simp
      qed
    next
      case False
      then have "i = N" using R MJoin by (simp add: proc_inv_def)
      then show ?thesis using proc_returns MJoin by blast
    qed
  next
    case (MDone e)
    then show ?thesis using assms(3) by (simp add: running_def)
  qed
qed

theorem lcrq_main_never_stuck_witness:
  "\<exists>s0 s'. lcrq_main fair_env id 1 2 1 [[108], [48]] = Inr s0 \<and> proc_step fair_env id 1 2 s0 s'"
proof -
  let ?s0 = "\<lparr>bp_bench = bench_main id 1 False 2 1, bp_phase = replicate 2 BNone, bp_main = MStart 0, bp_full = 0, bp_printed = None\<rparr>"
  have s0: "lcrq_main fair_env id 1 2 1 [[108], [48]] = Inr ?s0"
    by (simp add: lcrq_main_def scan_simps fair_env_def)
  have "running ?s0" "\<forall>k<2. be_create fair_env k = 0" by (simp_all add: running_def fair_env_def)
  from lcrq_main_never_stuck [OF s0 rtranclp.rtrancl_refl this _ getMemory_id] show ?thesis using s0 by auto
qed

end
