(* ===== verification/Lcrq_Progress.thy ===== *)
theory Lcrq_Progress
  imports Lcrq_Races
begin

text \<open>
  Progress of \<open>enqueue\<close> in \<open>src/snippets/lcrq.c\<close>.  The rings never form a cycle, so the walk of an enqueue to the
  last ring ends; on the last ring every failed attempt draws a ticket further away from the head, until the
  ring is full by the test of the code, is closed and replaced.  Hence an enqueue that is left alone returns, from
  whatever state the other threads stopped in.
\<close>

section \<open>The list of rings has no cycle\<close>

definition next_rel :: "lcrq \<Rightarrow> (addr \<times> addr) set" where
  "next_rel q = {(a, b). \<exists>r. q_mem q a = Some r \<and> rq_next r = Some b}"

lemma next_rel_simps [simp]:
  "next_rel (q\<lparr>q_head := a\<rparr>) = next_rel q" "next_rel (q\<lparr>q_tail := a\<rparr>) = next_rel q"
  "next_rel (q\<lparr>q_allocs := n\<rparr>) = next_rel q"
  by (simp_all add: next_rel_def)

lemma next_rel_put:
  assumes "map_option rq_next (q_mem q a) = Some (rq_next r') \<or> q_mem q a = None \<and> rq_next r' = None"
  shows "next_rel (put_ring a r' q) = next_rel q"
  using assms by (fastforce simp: next_rel_def put_ring_def split: if_splits)

text \<open>No step but the one that links a ring changes a \<open>next\<close> pointer.\<close>

lemma CAS2_next:
  "CAS2 pw a t o1 o2 n1 n2 q = Inr (ok, q') \<Longrightarrow> next_rel q' = next_rel q"
  by (auto simp: CAS2_def ring_def rbind_eq_Inr_iff next_rel_put split: option.splits if_splits)

lemma enq_step_next:
  assumes "enq_step gm pw pc l q = Inr (r, l', q')" and "\<And>rq. pc \<noteq> EAlloc rq \<and> pc \<noteq> ELink rq"
  shows "next_rel q' = next_rel q"
  using assms
  by (cases pc)
    (auto simp: rbind_eq_Inr_iff ring_def Let_def close_crq_def next_rel_put
      dest: CAS2_next split: option.splits if_splits)

lemma fixState_next: "fixState p rq q = Inr (r, q') \<Longrightarrow> next_rel q' = next_rel q"
  by (cases p) (auto simp: rbind_eq_Inr_iff ring_def next_rel_put split: option.splits if_splits)

lemma deq_step_next: "deq_step pw pc q = Inr (r, q') \<Longrightarrow> next_rel q' = next_rel q"
  by (cases pc)
    (auto simp: rbind_eq_Inr_iff ring_def Let_def deq_cas_def next_rel_put
      dest: CAS2_next fixState_next split: option.splits if_splits)

lemma alloc_next:
  assumes "enq_step gm pw (EAlloc rq) l q = Inr (r, l', q')" and "alloc_ok gm q" and "getMemory_ok gm"
  shows "next_rel q' = next_rel q"
proof (cases "l_nrq l")
  case None
  have "gm (q_allocs q) \<notin> dom (q_mem q)"
    using assms(2,3) by (auto simp: alloc_ok_def getMemory_ok_def inj_eq dest!: subsetD)
  with None assms(1) show ?thesis
    by (auto simp: next_rel_put init_ring_def solo_def)
next
  case (Some a)
  with assms(1) show ?thesis
    by (auto simp: rbind_eq_Inr_iff ring_def solo_def next_rel_put split: option.splits)
qed

text \<open>The ring that is linked is a spare one, which has no successor.\<close>

lemma link_next:
  assumes inv: "lcrq_inv gm pw y" and i: "i < length (y_thr y)" and pc: "t_pc (y_thr y ! i) = LEnq (ELink rq)"
    and st: "enq_step gm pw (ELink rq) (t_loc (y_thr y ! i)) (y_q y) = Inr (r, l', q')" and ac: "acyclic (next_rel (y_q y))"
  shows "acyclic (next_rel q')"
proof -
  let ?q = "y_q y" and ?t = "y_thr y ! i" and ?P = "public (y_q y) (y_thr y)"
  have T: "thr_ok pw ?q ?P ?t" using inv i by (simp add: lcrq_inv_def Let_def)
  then have ok: "enq_ok ?q ?P (ELink rq) (t_loc ?t)" using pc by (simp add: thr_ok_def)
  then obtain a where a: "l_nrq (t_loc ?t) = Some a" and rq: "rq \<in> ?P" by (auto simp: enq_ok_def)
  have sp: "a \<in> spare ?t" using a pc by (simp add: spare_def linked_def)
  then have "a \<noteq> rq" using spare_not_public [of ?t "y_thr y" a ?q] i rq by auto
  moreover have "rq_next (the (q_mem ?q a)) = None" using T sp by (auto simp: thr_ok_def)
  then have "(a, b) \<notin> next_rel ?q" for b by (auto simp: next_rel_def)
  ultimately have far: "(a, rq) \<notin> (next_rel ?q)\<^sup>*" by (meson converse_rtranclE)
  obtain rg where rg: "q_mem ?q rq = Some rg" using rq public_dom by blast
  show ?thesis
  proof (cases "rq_next rg")
    case None
    have "next_rel (put_ring rq (rg\<lparr>rq_next := Some a\<rparr>) ?q) = insert (rq, a) (next_rel ?q)"
      using rg None by (auto simp: next_rel_def put_ring_def split: if_splits)
    then show ?thesis using st rg None a ac far by (auto simp: ring_def acyclic_insert)
  next
    case (Some nx)
    then show ?thesis using st rg ac by (auto simp: ring_def)
  qed
qed

lemma acyclic_run:
  assumes inv: "lcrq_inv gm pw y" and i: "i < length (y_thr y)" and gm: "getMemory_ok gm"
    and run: "lcrq_run gm pw i y = Inr y'" and ac: "acyclic (next_rel (y_q y))"
  shows "acyclic (next_rel (y_q y'))"
proof (cases "t_pc (y_thr y ! i)")
  case LIdle
  then show ?thesis using run ac by (simp add: lcrq_run_def)
next
  case (LEnq pc)
  then obtain r l q where st: "enq_step gm pw pc (t_loc (y_thr y ! i)) (y_q y) = Inr (r, l, q)"
    using run by (cases "enq_step gm pw pc (t_loc (y_thr y ! i)) (y_q y)") (auto simp: lcrq_run_def)
  have G: "alloc_ok gm (y_q y)" using inv by (simp add: lcrq_inv_def Let_def)
  have "acyclic (next_rel q)"
  proof (cases "\<exists>rq. pc = ELink rq")
    case True
    then show ?thesis using link_next [OF inv i] LEnq st ac by blast
  next
    case False
    then have "next_rel q = next_rel (y_q y)"
      using enq_step_next [OF st] alloc_next [OF _ G gm] st by blast
    with ac show ?thesis by simp
  qed
  moreover have "y_q y' = q" using run st LEnq by (auto simp: lcrq_run_def split: option.splits)
  ultimately show ?thesis by simp
next
  case (LDeq pc)
  then obtain r q where st: "deq_step pw pc (y_q y) = Inr (r, q)"
    using run by (cases "deq_step pw pc (y_q y)") (auto simp: lcrq_run_def)
  then have "y_q y' = q" using run LDeq by (auto simp: lcrq_run_def Let_def split: deq_out.splits)
  then show ?thesis using deq_step_next [OF st] ac by simp
qed

definition chain_inv :: "(nat \<Rightarrow> addr) \<Rightarrow> nat \<Rightarrow> lsys \<Rightarrow> bool" where
  "chain_inv gm pw y \<longleftrightarrow> lcrq_inv gm pw y \<and> acyclic (next_rel (y_q y))"

lemma chain_inv_run:
  assumes "chain_inv gm pw y" and "i < length (y_thr y)" and "pw < 64" and "getMemory_ok gm"
  shows "\<exists>y'. lcrq_run gm pw i y = Inr y' \<and> chain_inv gm pw y'"
  using inv_run [OF _ assms(2-4)] acyclic_run [OF _ assms(2,4)] assms(1) unfolding chain_inv_def by metis

lemma chain_inv_start: "pw < 64 \<Longrightarrow> chain_inv gm pw (lcrq_start gm pw FULL n)"
proof -
  have "next_rel (SHARED_OBJECT_INIT gm pw FULL) = {}"
    by (auto simp: next_rel_def SHARED_OBJECT_INIT_def init_ring_def Let_def split: if_splits)
  then show "pw < 64 \<Longrightarrow> ?thesis"
    using inv_start [of pw gm FULL n] by (simp add: chain_inv_def lcrq_start_def acyclic_def)
qed

lemma chain_inv_reachable:
  assumes "(lcrq_step gm pw)\<^sup>*\<^sup>* (lcrq_start gm pw FULL n) y" and "pw < 64" and "getMemory_ok gm"
  shows "chain_inv gm pw y"
  using assms
proof (induction rule: rtranclp_induct)
  case (step y z)
  then have y: "chain_inv gm pw y" by blast
  from step(2) show ?case
  proof cases
    case (step_call i call)
    have "y_q z = y_q y" unfolding step_call(1) by (simp add: lcrq_call_def Let_def)
    then show ?thesis using y inv_step [OF step(2) assms(2,3)] by (simp add: chain_inv_def)
  next
    case (step_run i)
    then show ?thesis using chain_inv_run [OF y _ assms(2,3)] by (metis sum.inject(2))
  qed
qed (rule chain_inv_start)

section \<open>An enqueue on its own\<close>

definition enq_returns :: "(nat \<Rightarrow> addr) \<Rightarrow> nat \<Rightarrow> nat \<Rightarrow> enq_pc \<Rightarrow> elocal \<Rightarrow> lcrq \<Rightarrow> bool" where
  "enq_returns gm pw n pc l q \<longleftrightarrow> (\<exists>l' q'. enq_run gm pw n pc l q = Inr (Some (l', q')))"

lemma enq_returns_step:
  "enq_step gm pw pc l q = Inr (Some pc', l', q') \<Longrightarrow> enq_returns gm pw n pc' l' q' \<Longrightarrow> enq_returns gm pw (Suc n) pc l q"
  by (simp add: enq_returns_def)

lemma enq_returns_last: "enq_step gm pw pc l q = Inr (None, l', q') \<Longrightarrow> enq_returns gm pw (Suc n) pc l q"
  by (simp add: enq_returns_def)

lemma enq_returns_mono: "enq_returns gm pw n pc l q \<Longrightarrow> n \<le> m \<Longrightarrow> enq_returns gm pw m pc l q"
  using enq_run_more unfolding enq_returns_def by blast

text \<open>The last ring, seen from an enqueue that runs alone.\<close>

definition last_ring :: "nat \<Rightarrow> elocal \<Rightarrow> lcrq \<Rightarrow> RingQueue \<Rightarrow> bool" where
  "last_ring pw l q r \<longleftrightarrow>
     q_mem q (q_tail q) = Some r \<and> rq_next r = None \<and> length (rq_array r) = 2 ^ pw \<and> set_option (l_nrq l) \<subseteq> dom (q_mem q)"

lemma returns_alloc:
  assumes "q_mem q rq = Some r" and "rq_next r = None" and "set_option (l_nrq l) \<subseteq> dom (q_mem q)"
  shows "enq_returns gm pw 3 (EAlloc rq) l q"
proof -
  obtain a q1 r1 where st: "enq_step gm pw (EAlloc rq) l q = Inr (Some (ELink rq), l\<lparr>l_nrq := Some a\<rparr>, q1)"
    and r1: "q_mem q1 rq = Some r1" "rq_next r1 = None"
  proof (cases "l_nrq l")
    case None
    let ?a = "gm (q_allocs q)"
    let ?q = "put_ring ?a (solo (l_arg l) (init_ring pw)) (q\<lparr>q_allocs := Suc (q_allocs q)\<rparr>)"
    have "\<exists>r1. q_mem ?q rq = Some r1 \<and> rq_next r1 = None"
      using assms(1,2) by (auto simp: put_ring_def init_ring_def solo_def)
    then show thesis using that [of ?a ?q] None by auto
  next
    case (Some a)
    then obtain ra where "q_mem q a = Some ra" using assms(3) by auto
    moreover from this have "\<exists>r1. q_mem (put_ring a (solo (l_arg l) ra) q) rq = Some r1 \<and> rq_next r1 = None"
      using assms(1,2) by (auto simp: put_ring_def solo_def)
    moreover have "l\<lparr>l_nrq := Some a\<rparr> = l" using Some by (cases l) simp
    ultimately show thesis using that [of a "put_ring a (solo (l_arg l) ra) q"] Some by (auto simp: ring_def)
  qed
  show ?thesis
    unfolding numeral_3_eq_3
    by (rule enq_returns_step [OF st], rule enq_returns_step) (auto simp: r1 ring_def intro: enq_returns_last)
qed

text \<open>A closed last ring is replaced.\<close>

lemma returns_closed:
  assumes "last_ring pw l q r" and "crq_is_closed (rq_tail r)"
  shows "enq_returns gm pw 6 EReadTail l q"
proof -
  let ?q = "put_ring (q_tail q) (r\<lparr>rq_tail := rq_tail r + 1\<rparr>) q"
  have "enq_returns gm pw 3 (EAlloc (q_tail q)) l ?q"
    using assms(1) by (intro returns_alloc [where r = "r\<lparr>rq_tail := rq_tail r + 1\<rparr>"]) (auto simp: last_ring_def put_ring_def)
  then have "enq_returns gm pw 4 (ETicket (q_tail q)) l q"
    using assms enq_returns_step [of gm pw "ETicket (q_tail q)" l q _ _ _ 3] by (simp add: last_ring_def ring_def)
  then have "enq_returns gm pw 5 (EReadNext (q_tail q)) l q"
    using assms enq_returns_step [of gm pw "EReadNext (q_tail q)" l q _ _ _ 4] by (simp add: last_ring_def ring_def)
  then show ?thesis using enq_returns_step [of gm pw EReadTail l q _ _ _ 5] by simp
qed

text \<open>
  A full ring is closed.  The close fails only where the ticket was the last one before the closed bit: then
  the ring is closed already.
\<close>

lemma returns_full:
  assumes "last_ring pw l q r" and "rq_tail r = t + 1" and "RING_SIZE pw \<le> t - rq_head r"
  shows "enq_returns gm pw 8 (EFull (q_tail q) t) l q"
proof -
  let ?l = "l\<lparr>l_try := Suc (l_try l)\<rparr>" and ?r = "r\<lparr>rq_tail := (t + 1) OR UNSAFE_BIT\<rparr>"
  let ?q = "put_ring (q_tail q) ?r q"
  have last: "last_ring pw ?l ?q ?r" using assms(1) by (auto simp: last_ring_def put_ring_def)
  have closed: "crq_is_closed (rq_tail ?r)"
    by (auto simp: crq_is_closed_def bit_eq_iff bit_or_iff bit_and_iff intro!: exI [of _ 63])
  have "enq_returns gm pw 6 (EAlloc (q_tail q)) ?l ?q"
    using last by (intro enq_returns_mono [OF returns_alloc [where r = ?r]]) (auto simp: last_ring_def put_ring_def)
  moreover have "enq_returns gm pw 6 EReadTail ?l ?q" by (rule returns_closed [OF last closed])
  moreover have "enq_step gm pw (EClose (q_tail q) t) l q =
      Inr (Some (if Suc (l_try l) < 10 \<or> \<not> crq_is_closed (t + 1) then EAlloc (q_tail q) else EReadTail), ?l, ?q)"
    using assms(1,2) by (simp add: last_ring_def ring_def close_crq_def)
  ultimately have "enq_returns gm pw 7 (EClose (q_tail q) t) l q"
    using enq_returns_step [of gm pw "EClose (q_tail q) t" l q _ _ _ 6] by (simp split: if_splits)
  then show ?thesis
    using assms enq_returns_step [of gm pw "EFull (q_tail q) t" l q _ _ _ 7] by (simp add: last_ring_def ring_def)
qed

text \<open>An attempt on the cell of a ticket returns or leaves the queue as it was.\<close>

lemma returns_attempt:
  assumes "last_ring pw l q r" and "pw < 64" and F: "enq_returns gm pw n (EFull (q_tail q) t) l q"
  shows "enq_returns gm pw (n + 4) (EReadIdx (q_tail q) t) l q"
proof -
  have len: "slot pw t < length (rq_array r)" using assms(1,2) slot_less by (simp add: last_ring_def)
  then obtain c where c: "cell pw q (q_tail q) t = Inr c" "rd (rq_array r) (slot pw t) = Inr c" "ring q (q_tail q) = Inr r"
    using assms(1) by (auto simp: last_ring_def cell_def ring_def)
  have cas: "enq_returns gm pw (Suc n) (ECas (q_tail q) t idx) l q" for idx
  proof (cases "n_val c = - 1 \<and> n_idx c = idx")
    case True
    with c show ?thesis by (auto simp: CAS2_def intro!: enq_returns_last)
  next
    case False
    with c have "enq_step gm pw (ECas (q_tail q) t idx) l q = Inr (Some (EFull (q_tail q) t), l, q)"
      by (auto simp: CAS2_def)
    then show ?thesis using F by (rule enq_returns_step)
  qed
  have full: "enq_returns gm pw (n + k) (EFull (q_tail q) t) l q" for k by (rule enq_returns_mono [OF F]) simp
  have head: "enq_returns gm pw (n + 2) (EReadHead (q_tail q) t idx) l q" for idx
    using c cas [of idx] full [of 1] enq_returns_step [of gm pw "EReadHead (q_tail q) t idx" l q _ _ _ "Suc n"]
    by (cases "rq_head r < t") simp_all
  have "enq_returns gm pw (n + 2) (ECas (q_tail q) t idx) l q" for idx by (rule enq_returns_mono [OF cas]) simp
  then have "enq_returns gm pw (n + 3) (EReadVal (q_tail q) t idx) l q" for idx
    using c head [of idx] full [of 2] enq_returns_step [of gm pw "EReadVal (q_tail q) t idx" l q _ _ _ "n + 2"]
    by (simp add: numeral_3_eq_3 split: if_splits)
  then show ?thesis using c enq_returns_step [of gm pw "EReadIdx (q_tail q) t" l q _ _ _ "n + 3"] by (simp add: add.commute)
qed

lemma unat_next_ticket:
  fixes d :: u64
  assumes "unat d < 2 ^ pw" and "pw < 64"
  shows "unat (d + 1) = Suc (unat d)"
proof -
  have "(2 :: nat) ^ pw < 2 ^ 64" using assms(2) by (intro power_strict_increasing) simp_all
  with assms(1) have "Suc (unat d) < 2 ^ 64" by (meson Suc_leI order_le_less_trans)
  then show ?thesis using unat_word_ariths(1) [of d 1] by simp
qed

text \<open>On the last ring every attempt that fails brings the tail one ticket nearer to a full ring.\<close>

lemma returns_last:
  assumes "last_ring pw l q r" and "pw < 64"
  shows "enq_returns gm pw (15 + 8 * (2 ^ pw - unat (rq_tail r - rq_head r))) EReadTail l q"
  using assms(1)
proof (induction "2 ^ pw - unat (rq_tail r - rq_head r)" arbitrary: q r rule: less_induct)
  case less
  let ?t = "rq_tail r" and ?a = "q_tail q" and ?d = "2 ^ pw - unat (rq_tail r - rq_head r)"
  let ?r = "r\<lparr>rq_tail := rq_tail r + 1\<rparr>"
  let ?q = "put_ring ?a ?r q"
  have last: "last_ring pw l ?q ?r" "q_tail ?q = ?a" using less(2) by (auto simp: last_ring_def put_ring_def)
  have ring: "ring q ?a = Inr r" "ring ?q ?a = Inr ?r" "rq_next r = None" using less(2) last by (simp_all add: last_ring_def ring_def)
  have full: "enq_returns gm pw (8 + 8 * ?d) (EFull ?a ?t) l ?q"
  proof (cases "RING_SIZE pw \<le> ?t - rq_head r")
    case True
    then have "enq_returns gm pw 8 (EFull ?a ?t) l ?q" using returns_full [OF last(1), of ?t] last(2) by simp
    then show ?thesis by (rule enq_returns_mono) simp
  next
    case False
    then have short: "unat (?t - rq_head r) < 2 ^ pw" using unat_ring_size [OF assms(2)] by (simp add: word_le_nat_alt)
    have "?t + 1 - rq_head r = (?t - rq_head r) + 1" by simp
    with unat_next_ticket [OF short assms(2)] have "unat (?t + 1 - rq_head r) = Suc (unat (?t - rq_head r))"
      by (rule subst [rotated, where P = "\<lambda>w. unat w = _", OF _ sym])
    then have d: "2 ^ pw - unat (rq_tail ?r - rq_head ?r) < ?d" "Suc (2 ^ pw - unat (rq_tail ?r - rq_head ?r)) = ?d" using short by simp_all
    have "enq_step gm pw (EFull ?a ?t) l ?q = Inr (Some EReadTail, l, ?q)" using False ring(2) by simp
    then have "enq_returns gm pw (Suc (15 + 8 * (2 ^ pw - unat (rq_tail ?r - rq_head ?r)))) (EFull ?a ?t) l ?q"
      using less(1) [OF d(1) last(1)] by (rule enq_returns_step)
    then show ?thesis unfolding d(2) [symmetric] by (rule enq_returns_mono) simp
  qed
  show ?case
  proof (cases "crq_is_closed ?t")
    case True
    then show ?thesis by (intro enq_returns_mono [OF returns_closed [OF less(2)]]) simp_all
  next
    case False
    have "enq_returns gm pw (12 + 8 * ?d) (EReadIdx ?a ?t) l ?q"
      using returns_attempt [OF last(1) assms(2), of gm "8 + 8 * ?d" ?t] full last(2) by (simp add: add.commute)
    then have "enq_returns gm pw (13 + 8 * ?d) (ETicket ?a) l q"
      using enq_returns_step [of gm pw "ETicket ?a" l q _ _ _ "12 + 8 * ?d"] ring False by (simp add: Let_def)
    then have "enq_returns gm pw (14 + 8 * ?d) (EReadNext ?a) l q"
      using enq_returns_step [of gm pw "EReadNext ?a" l q _ _ _ "13 + 8 * ?d"] ring by simp
    then show ?thesis using enq_returns_step [of gm pw EReadTail l q _ _ _ "14 + 8 * ?d"] by simp
  qed
qed

text \<open>The rings behind a ring; the walk to the last one passes each of them once.\<close>

definition rings_after :: "lcrq \<Rightarrow> addr \<Rightarrow> addr set" where
  "rings_after q a = {b. (a, b) \<in> (next_rel q)\<^sup>+}"

lemma rings_after_dom:
  assumes "mem_ok pw P q"
  shows "rings_after q a \<subseteq> P"
proof -
  have "next_rel q \<subseteq> UNIV \<times> P" using assms by (fastforce simp: next_rel_def mem_ok_def)
  then show ?thesis unfolding rings_after_def by (blast dest: tranclD2)
qed

lemma rings_after_next:
  assumes "acyclic (next_rel q)" and "(a, b) \<in> next_rel q" and "finite (rings_after q a)"
  shows "card (rings_after q b) < card (rings_after q a)"
proof (rule psubset_card_mono [OF assms(3)])
  have "rings_after q b \<subseteq> rings_after q a" using assms(2) by (auto simp: rings_after_def intro: trancl_into_trancl2)
  moreover have "b \<in> rings_after q a" "b \<notin> rings_after q b" using assms(1,2) by (auto simp: rings_after_def acyclic_def)
  ultimately show "rings_after q b \<subset> rings_after q a" by blast
qed

lemma returns_from_tail:
  assumes "mem_ok pw P q" and "P \<subseteq> dom (q_mem q)" and "acyclic (next_rel q)" and "set_option (l_nrq l) \<subseteq> dom (q_mem q)"
    and "pw < 64"
  shows "enq_returns gm pw (15 + 8 * 2 ^ pw + 3 * card (rings_after q (q_tail q))) EReadTail l q"
  using assms
proof (induction "card (rings_after q (q_tail q))" arbitrary: q rule: less_induct)
  case less
  obtain r where r: "ring q (q_tail q) = Inr r" "q_mem q (q_tail q) = Some r" "ring_ok pw r" "set_option (rq_next r) \<subseteq> P"
    using ring_public [OF less(2,3)] less(2) by (metis mem_ok_def)
  show ?case
  proof (cases "rq_next r")
    case None
    then have "last_ring pw l q r" using r less(5) by (simp add: last_ring_def ring_ok_def)
    from returns_last [OF this assms(5)] show ?thesis by (rule enq_returns_mono) simp
  next
    case (Some b)
    let ?q = "q\<lparr>q_tail := b\<rparr>" and ?a = "q_tail q"
    have "finite P" using less(2,3) by (auto simp: mem_ok_def dest: finite_subset)
    then have fin: "finite (rings_after q ?a)" by (rule finite_subset [OF rings_after_dom [OF less(2)]])
    have "(?a, b) \<in> next_rel q" using r Some by (simp add: next_rel_def)
    then have "card (rings_after q b) < card (rings_after q ?a)" by (rule rings_after_next [OF less(4) _ fin])
    then have n: "card (rings_after ?q (q_tail ?q)) < card (rings_after q ?a)" by (simp add: rings_after_def)
    let ?n = "15 + 8 * 2 ^ pw + 3 * card (rings_after ?q (q_tail ?q))"
    have "mem_ok pw P ?q" using less(2) r(4) Some by (auto simp: mem_ok_def)
    then have "enq_returns gm pw ?n EReadTail l ?q" using less(1) [OF n] less(3-6) by simp
    then have "enq_returns gm pw (Suc ?n) (ESwingTail ?a b) l q" by (rule enq_returns_step [rotated]) simp
    then have "enq_returns gm pw (Suc (Suc ?n)) (EReadNext ?a) l q"
      by (rule enq_returns_step [rotated]) (simp add: r Some)
    then have "enq_returns gm pw (Suc (Suc (Suc ?n))) EReadTail l q"
      by (rule enq_returns_step [rotated]) simp
    then show ?thesis by (rule enq_returns_mono) (use n in simp)
  qed
qed

section \<open>A thread on its own\<close>

text \<open>\<open>n\<close> steps of thread \<open>i\<close> while the others stand still; a thread whose call has returned stays idle.\<close>

fun lcrq_alone :: "(nat \<Rightarrow> addr) \<Rightarrow> nat \<Rightarrow> nat \<Rightarrow> nat \<Rightarrow> lsys \<Rightarrow> lsys res" where
  "lcrq_alone gm pw i 0 y = Inr y"
| "lcrq_alone gm pw i (Suc n) y = rbind (lcrq_run gm pw i y) (lcrq_alone gm pw i n)"

lemma alone_idle: "t_pc (y_thr y ! i) = LIdle \<Longrightarrow> lcrq_alone gm pw i n y = Inr y"
  by (induction n) (simp_all add: lcrq_run_def)

definition enq_done :: "(nat \<Rightarrow> addr) \<Rightarrow> nat \<Rightarrow> nat \<Rightarrow> nat \<Rightarrow> lsys \<Rightarrow> bool" where
  "enq_done gm pw i n y \<longleftrightarrow>
     (\<exists>y' t. lcrq_alone gm pw i n y = Inr y' \<and> t_pc t = LIdle \<and> y_thr y' = (y_thr y)[i := t] \<and>
        y_in y' = y_in y @ [l_arg (t_loc (y_thr y ! i))] \<and> y_out y' = y_out y)"

text \<open>One step of the thread, whether it ends the call or not.\<close>

lemma enq_done_step:
  assumes "i < length (y_thr y)" and "t_pc (y_thr y ! i) = LEnq pc"
    and st: "enq_step gm pw pc (t_loc (y_thr y ! i)) (y_q y) = Inr (r, l, q)"
    and r: "\<And>pc'. r = Some pc' \<Longrightarrow> enq_done gm pw i n (after_step i \<lparr>t_pc = LEnq pc', t_loc = l\<rparr> q (y_in y) (y_out y) y)"
  shows "enq_done gm pw i (Suc n) y"
proof (cases r)
  case None
  let ?t = "\<lparr>t_pc = LIdle, t_loc = l\<rparr>"
  have run: "lcrq_run gm pw i y = Inr (after_step i ?t q (y_in y @ [l_arg l]) (y_out y) y)"
    using assms(2) st None by (simp add: lcrq_run_def)
  show ?thesis
    using assms(1) unfolding enq_done_def
    by (intro exI [of _ "after_step i ?t q (y_in y @ [l_arg l]) (y_out y) y"] exI [of _ ?t]) (simp add: run alone_idle enq_step_arg [OF st])
next
  case (Some pc')
  then have "lcrq_run gm pw i y = Inr (after_step i \<lparr>t_pc = LEnq pc', t_loc = l\<rparr> q (y_in y) (y_out y) y)"
    using assms(2) st by (simp add: lcrq_run_def)
  then show ?thesis
    using r [OF Some] assms(1) enq_step_arg [OF st] by (simp add: enq_done_def)
qed

lemma enq_returns_done:
  assumes "enq_returns gm pw n pc (t_loc (y_thr y ! i)) (y_q y)" and "i < length (y_thr y)" and "t_pc (y_thr y ! i) = LEnq pc"
  shows "enq_done gm pw i n y"
  using assms
proof (induction n arbitrary: pc y)
  case 0
  then show ?case by (simp add: enq_returns_def)
next
  case (Suc n)
  then obtain r l q where st: "enq_step gm pw pc (t_loc (y_thr y ! i)) (y_q y) = Inr (r, l, q)"
    by (cases "enq_step gm pw pc (t_loc (y_thr y ! i)) (y_q y)") (auto simp: enq_returns_def)
  show ?case
  proof (rule enq_done_step [OF Suc.prems(2,3) st])
    fix pc'
    assume "r = Some pc'"
    then show "enq_done gm pw i n (after_step i \<lparr>t_pc = LEnq pc', t_loc = l\<rparr> q (y_in y) (y_out y) y)"
      using Suc.prems(1,2) st by (intro Suc.IH [of pc']) (auto simp: enq_returns_def)
  qed
qed

text \<open>
  From any point of a call the thread comes back to the start of the loop, if it does not return.  The rank
  allows for a ring that is allocated on the way.
\<close>

fun enq_rank :: "enq_pc \<Rightarrow> nat" where
  "enq_rank EReadTail = 0"
| "enq_rank (EReadNext rq) = 14"
| "enq_rank (ESwingTail rq next) = 1"
| "enq_rank (ETicket rq) = 13"
| "enq_rank (EReadIdx rq t) = 12"
| "enq_rank (EReadVal rq t idx) = 11"
| "enq_rank (EReadHead rq t idx) = 10"
| "enq_rank (ECas rq t idx) = 9"
| "enq_rank (EFull rq t) = 8"
| "enq_rank (EClose rq t) = 7"
| "enq_rank (EAlloc rq) = 6"
| "enq_rank (ELink rq) = 2"
| "enq_rank (ESwingNew rq) = 1"

lemma enq_rank_le: "enq_rank pc \<le> 14"
  by (cases pc) simp_all

lemma CAS2_allocs: "CAS2 pw a t o1 o2 n1 n2 q = Inr (ok, q') \<Longrightarrow> q_allocs q' = q_allocs q"
  by (auto simp: CAS2_def put_ring_def rbind_eq_Inr_iff split: if_splits)

lemma enq_step_rank:
  assumes "enq_step gm pw pc l q = Inr (Some pc', l', q')" and "pc \<noteq> EReadTail"
  shows "enq_rank pc' + 3 * q_allocs q' < enq_rank pc + 3 * q_allocs q"
  using assms
  by (cases pc)
    (auto simp: rbind_eq_Inr_iff Let_def put_ring_def close_crq_def dest: CAS2_allocs split: option.splits if_splits)

lemma card_rings:
  assumes "lcrq_inv gm pw y"
  shows "card (rings_after (y_q y) a) \<le> q_allocs (y_q y)"
proof -
  let ?P = "public (y_q y) (y_thr y)"
  have "rings_after (y_q y) a \<subseteq> ?P" using assms by (intro rings_after_dom [of pw]) (simp add: lcrq_inv_def Let_def)
  also have "\<dots> \<subseteq> gm ` {..<q_allocs (y_q y)}"
    using assms public_dom [of "y_q y" "y_thr y"] unfolding lcrq_inv_def Let_def alloc_ok_def by (meson subset_trans)
  finally have "rings_after (y_q y) a \<subseteq> gm ` {..<q_allocs (y_q y)}" .
  then have "card (rings_after (y_q y) a) \<le> card (gm ` {..<q_allocs (y_q y)})" by (intro card_mono) simp_all
  also have "\<dots> \<le> q_allocs (y_q y)" using card_image_le [of "{..<q_allocs (y_q y)}" gm] by simp
  finally show ?thesis .
qed

lemma alone_more:
  "lcrq_alone gm pw i n y = Inr y' \<Longrightarrow> t_pc (y_thr y' ! i) = LIdle \<Longrightarrow> lcrq_alone gm pw i (n + k) y = Inr y'"
  by (induction n arbitrary: y) (auto simp: alone_idle rbind_eq_Inr_iff)

lemma enq_done_mono:
  assumes "enq_done gm pw i n y" and "i < length (y_thr y)" and "n \<le> m"
  shows "enq_done gm pw i m y"
proof -
  obtain y' t where y': "lcrq_alone gm pw i n y = Inr y'" "t_pc t = LIdle" "y_thr y' = (y_thr y)[i := t]"
    "y_in y' = y_in y @ [l_arg (t_loc (y_thr y ! i))]" "y_out y' = y_out y"
    using assms(1) by (auto simp: enq_done_def)
  then have "lcrq_alone gm pw i (n + (m - n)) y = Inr y'" using assms(2) by (intro alone_more) simp_all
  then show ?thesis using y' assms(3) by (auto simp: enq_done_def)
qed

lemma enqueue_alone:
  assumes "chain_inv gm pw y" and "i < length (y_thr y)" and "t_pc (y_thr y ! i) = LEnq pc" and "pw < 64" and "getMemory_ok gm"
  shows "enq_done gm pw i (15 + 8 * 2 ^ pw + (enq_rank pc + 3 * q_allocs (y_q y))) y"
  using assms
proof (induction "enq_rank pc + 3 * q_allocs (y_q y)" arbitrary: y pc rule: less_induct)
  case less
  let ?q = "y_q y" and ?l = "t_loc (y_thr y ! i)" and ?P = "public (y_q y) (y_thr y)"
  have inv: "lcrq_inv gm pw y" "acyclic (next_rel ?q)" using less(2) by (simp_all add: chain_inv_def)
  then have M: "mem_ok pw ?P ?q" "set_option (l_nrq ?l) \<subseteq> dom (q_mem ?q)"
    using less(3) by (simp_all add: lcrq_inv_def Let_def thr_ok_def)
  show ?case
  proof (cases "pc = EReadTail")
    case True
    have "enq_returns gm pw (15 + 8 * 2 ^ pw + 3 * card (rings_after ?q (q_tail ?q))) EReadTail ?l ?q"
      by (rule returns_from_tail [OF M(1) public_dom inv(2) M(2) less(5)])
    then have "enq_done gm pw i (15 + 8 * 2 ^ pw + 3 * card (rings_after ?q (q_tail ?q))) y"
      using less(3,4) True by (intro enq_returns_done) simp_all
    then show ?thesis using card_rings [OF inv(1), of "q_tail ?q"] True by (elim enq_done_mono [OF _ less(3)]) simp
  next
    case False
    obtain y' where y': "lcrq_run gm pw i y = Inr y'" "chain_inv gm pw y'" using chain_inv_run [OF less(2,3,5,6)] by blast
    then obtain r l q where st: "enq_step gm pw pc ?l ?q = Inr (r, l, q)"
      using less(4) by (cases "enq_step gm pw pc ?l ?q") (auto simp: lcrq_run_def)
    have "enq_done gm pw i (Suc (14 + 8 * 2 ^ pw + (enq_rank pc + 3 * q_allocs ?q))) y"
    proof (rule enq_done_step [OF less(3,4) st])
      fix pc'
      assume r: "r = Some pc'"
      let ?y = "after_step i \<lparr>t_pc = LEnq pc', t_loc = l\<rparr> q (y_in y) (y_out y) y"
      have y: "y' = ?y" using y'(1) st less(4) r by (simp add: lcrq_run_def)
      have rank: "enq_rank pc' + 3 * q_allocs (y_q ?y) < enq_rank pc + 3 * q_allocs ?q"
        using enq_step_rank [OF st [unfolded r] False] by simp
      then have "enq_done gm pw i (15 + 8 * 2 ^ pw + (enq_rank pc' + 3 * q_allocs (y_q ?y))) ?y"
        using y'(2) less(3,5,6) unfolding y by (intro less(1)) simp_all
      then show "enq_done gm pw i (14 + 8 * 2 ^ pw + (enq_rank pc + 3 * q_allocs ?q)) ?y"
        by (rule enq_done_mono) (use rank less(3) in simp_all)
    qed
    then show ?thesis by (simp add: add.assoc)
  qed
qed

text \<open>
  C23: \<open>enqueue\<close> is obstruction free.  In whatever state any number of threads have stopped, within their calls or
  between them, a thread that is in an enqueue and runs on alone returns within \<open>3 * allocs + 8 * RING_SIZE + 29\<close> of its
  steps, with its value put in and the other threads as they were.
\<close>

theorem enqueue_obstruction_free:
  assumes "(lcrq_step gm pw)\<^sup>*\<^sup>* (lcrq_start gm pw FULL n) y" and "pw < 31" and "getMemory_ok gm"
    and "i < length (y_thr y)" and "t_pc (y_thr y ! i) = LEnq pc"
  shows "\<exists>y' t. lcrq_alone gm pw i (3 * q_allocs (y_q y) + 8 * 2 ^ pw + 29) y = Inr y' \<and> t_pc t = LIdle \<and>
    y_thr y' = (y_thr y)[i := t] \<and> y_in y' = y_in y @ [l_arg (t_loc (y_thr y ! i))] \<and> y_out y' = y_out y"
proof -
  have "chain_inv gm pw y" using chain_inv_reachable [OF assms(1) _ assms(3)] assms(2) by simp
  then have "enq_done gm pw i (15 + 8 * 2 ^ pw + (enq_rank pc + 3 * q_allocs (y_q y))) y"
    using assms by (intro enqueue_alone) simp_all
  then have "enq_done gm pw i (3 * q_allocs (y_q y) + 8 * 2 ^ pw + 29) y"
    by (rule enq_done_mono) (use assms(4) enq_rank_le [of pc] in simp_all)
  then show ?thesis unfolding enq_done_def .
qed

lemma alone_steps: "lcrq_alone gm pw i n y = Inr y' \<Longrightarrow> i < length (y_thr y) \<Longrightarrow> (lcrq_step gm pw)\<^sup>*\<^sup>* y y'"
proof (induction n arbitrary: y)
  case (Suc n)
  then obtain y1 where y1: "lcrq_run gm pw i y = Inr y1" "lcrq_alone gm pw i n y1 = Inr y'" by (auto simp: rbind_eq_Inr_iff)
  have "length (y_thr y1) = length (y_thr y)"
    using y1(1) by (auto simp: lcrq_run_def Let_def rbind_eq_Inr_iff split: lpc.splits option.split deq_out.split)
  then show ?case using Suc.IH [OF y1(2)] Suc.prems(2) step_run_one [OF _ y1(1)] by simp
qed simp

text \<open>Thread 0 has stopped with a ticket that it never uses; thread 1 puts its value in all the same.\<close>

theorem enqueue_obstruction_free_witness:
  "\<exists>y y'. (lcrq_step id 1)\<^sup>*\<^sup>* (lcrq_start id 1 False 2) y \<and> t_pc (y_thr y ! 0) = LEnq (EReadIdx 0 0) \<and>
     lcrq_alone id 1 1 48 y = Inr y' \<and> t_pc (y_thr y' ! 1) = LIdle \<and> y_in y' = [9]"
proof -
  let ?s = "lcrq_start id 1 False 2"
  have s: "0 < length (y_thr ?s)" "t_pc (y_thr ?s ! 0) = LIdle" "length (y_thr (lcrq_call 0 (Some 7) ?s)) = 2"
    by (simp_all add: lcrq_start_def new_lthread_def lcrq_call_def Let_def)
  have "case lcrq_alone id 1 0 3 (lcrq_call 0 (Some 7) ?s) of Inl e \<Rightarrow> False
    | Inr y \<Rightarrow> t_pc (y_thr y ! 0) = LEnq (EReadIdx 0 0) \<and> t_pc (y_thr y ! 1) = LIdle \<and> length (y_thr y) = 2 \<and> y_in y = [] \<and> q_allocs (y_q y) = 1"
    by code_simp
  then obtain y where y: "lcrq_alone id 1 0 3 (lcrq_call 0 (Some 7) ?s) = Inr y" "t_pc (y_thr y ! 0) = LEnq (EReadIdx 0 0)"
    "t_pc (y_thr y ! 1) = LIdle" "length (y_thr y) = 2" "y_in y = []" "q_allocs (y_q y) = 1"
    by (auto split: sum.splits)
  have "(lcrq_step id 1)\<^sup>*\<^sup>* ?s (lcrq_call 0 (Some 7) ?s)" using s by (intro r_into_rtranclp step_call) simp_all
  also have "(lcrq_step id 1)\<^sup>*\<^sup>* (lcrq_call 0 (Some 7) ?s) y" using s(3) by (intro alone_steps [OF y(1)]) simp
  also have "lcrq_step id 1 y (lcrq_call 1 (Some 9) y)" using y by (intro step_call) simp_all
  finally have r: "(lcrq_step id 1)\<^sup>*\<^sup>* ?s (lcrq_call 1 (Some 9) y)" .
  have c: "y_thr (lcrq_call 1 (Some 9) y) ! 1 = \<lparr>t_pc = LEnq EReadTail, t_loc = (t_loc (y_thr y ! 1))\<lparr>l_arg := 9, l_try := 0\<rparr>\<rparr>"
    "length (y_thr (lcrq_call 1 (Some 9) y)) = 2" "y_thr (lcrq_call 1 (Some 9) y) ! 0 = y_thr y ! 0"
    "y_in (lcrq_call 1 (Some 9) y) = []" "q_allocs (y_q (lcrq_call 1 (Some 9) y)) = 1"
    using y by (simp_all add: lcrq_call_def Let_def)
  obtain y' t where "lcrq_alone id 1 1 48 (lcrq_call 1 (Some 9) y) = Inr y'" "t_pc t = LIdle"
    "y_thr y' = (y_thr (lcrq_call 1 (Some 9) y))[1 := t]" "y_in y' = [9]"
    using enqueue_obstruction_free [OF r _ getMemory_id, of 1 EReadTail] c by auto
  then show ?thesis using r c y(2) by (intro exI [of _ "lcrq_call 1 (Some 9) y"] exI [of _ y']) simp
qed

end
