(* ===== verification/Lcrq_Tickets.thy ===== *)
theory Lcrq_Tickets
  imports Lcrq_Races
begin

text \<open>
  The order of the concurrent queue: under every interleaving a dequeue that draws ticket \<open>h\<close> of a ring
  delivers the value of the enqueue that drew ticket \<open>h\<close> of that ring, and no ticket serves twice.

  The runs of \<open>lcrq_step\<close> are annotated with the moments at which a value enters a ring under a ticket
  (\<open>Put\<close>) and leaves it (\<open>Got\<close>).  Tickets are 63 bits wide, so the runs are shorter than \<open>2 ^ 63\<close> steps.
\<close>

unbundle bit_operations_syntax

section \<open>Annotated runs\<close>

datatype qevent = Put addr u64 u64 | Got addr u64 u64

definition enq_event :: "nat \<Rightarrow> enq_pc \<Rightarrow> elocal \<Rightarrow> lcrq \<Rightarrow> qevent list" where
  "enq_event pw pc l q =
     (case pc of
        ECas rq t idx \<Rightarrow>
          (case CAS2 pw rq t (- 1) idx (l_arg l) t q of
             Inr (ok, q1) \<Rightarrow> if ok then [Put rq t (l_arg l)] else [] | Inl err \<Rightarrow> [])
      | ELink rq \<Rightarrow>
          (case ring q rq of
             Inr r \<Rightarrow> (case (rq_next r, l_nrq l) of (None, Some a) \<Rightarrow> [Put a 0 (l_arg l)] | _ \<Rightarrow> []) | Inl err \<Rightarrow> [])
      | _ \<Rightarrow> [])"

definition deq_event :: "nat \<Rightarrow> deq_pc \<Rightarrow> lcrq \<Rightarrow> qevent list" where
  "deq_event pw pc q =
     (case pc of
        DTake rq h r tt cidx v \<Rightarrow>
          (case deq_step pw pc q of Inr (DReturn v', q1) \<Rightarrow> [Got rq h v'] | _ \<Rightarrow> [])
      | _ \<Rightarrow> [])"

definition step_event :: "nat \<Rightarrow> lthread \<Rightarrow> lcrq \<Rightarrow> qevent list" where
  "step_event pw t q =
     (case t_pc t of LIdle \<Rightarrow> [] | LEnq pc \<Rightarrow> enq_event pw pc (t_loc t) q | LDeq pc \<Rightarrow> deq_event pw pc q)"

inductive lcrq_trace :: "(nat \<Rightarrow> addr) \<Rightarrow> nat \<Rightarrow> lsys \<Rightarrow> nat \<Rightarrow> qevent list \<Rightarrow> lsys \<Rightarrow> bool" for gm pw y0 where
  trace_start: "lcrq_trace gm pw y0 0 [] y0"
| trace_call: "lcrq_trace gm pw y0 k es y \<Longrightarrow> i < length (y_thr y) \<Longrightarrow> t_pc (y_thr y ! i) = LIdle \<Longrightarrow>
    call \<noteq> Some (- 1) \<Longrightarrow> lcrq_trace gm pw y0 (Suc k) es (lcrq_call i call y)"
| trace_run: "lcrq_trace gm pw y0 k es y \<Longrightarrow> i < length (y_thr y) \<Longrightarrow> lcrq_run gm pw i y = Inr y' \<Longrightarrow>
    lcrq_trace gm pw y0 (Suc k) (es @ step_event pw (y_thr y ! i) (y_q y)) y'"

text \<open>Every run has its annotation, and an annotated run is one of \<open>lcrq_step\<close>.\<close>

lemma trace_steps: "lcrq_trace gm pw y0 k es y \<Longrightarrow> ((lcrq_step gm pw) ^^ k) y0 y"
  by (induction rule: lcrq_trace.induct) (auto intro: relcomppI lcrq_step.intros)

lemma steps_trace: "((lcrq_step gm pw) ^^ k) y0 y \<Longrightarrow> \<exists>es. lcrq_trace gm pw y0 k es y"
proof (induction k arbitrary: y)
  case 0
  then show ?case by (auto intro: trace_start)
next
  case (Suc k)
  then obtain y1 where y1: "((lcrq_step gm pw) ^^ k) y0 y1" "lcrq_step gm pw y1 y" by auto
  obtain es where "lcrq_trace gm pw y0 k es y1" using Suc.IH [OF y1(1)] by blast
  with y1(2) show ?case by (cases rule: lcrq_step.cases) (blast intro: trace_call trace_run)+
qed

section \<open>What the events say\<close>

definition puts :: "qevent list \<Rightarrow> (addr \<times> u64 \<times> u64) list" where
  "puts es = concat (map (\<lambda>e. case e of Put a t v \<Rightarrow> [(a, t, v)] | Got a h v \<Rightarrow> []) es)"

definition gots :: "qevent list \<Rightarrow> (addr \<times> u64 \<times> u64) list" where
  "gots es = concat (map (\<lambda>e. case e of Put a t v \<Rightarrow> [] | Got a h v \<Rightarrow> [(a, h, v)]) es)"

definition ticket_of :: "addr \<times> u64 \<times> u64 \<Rightarrow> addr \<times> u64" where
  "ticket_of x = (fst x, fst (snd x))"

lemma events_simps [simp]:
  "puts [] = []" "gots [] = []" "puts (es @ es') = puts es @ puts es'" "gots (es @ es') = gots es @ gots es'"
  "puts (Put a t v # es) = (a, t, v) # puts es" "puts (Got a t v # es) = puts es"
  "gots (Put a t v # es) = gots es" "gots (Got a t v # es) = (a, t, v) # gots es" "ticket_of (a, t, v) = (a, t)"
  by (simp_all add: puts_def gots_def ticket_of_def)

lemma puts_iff: "(a, t, v) \<in> set (puts es) \<longleftrightarrow> Put a t v \<in> set es"
  by (induction es) (auto simp: puts_def split: qevent.splits)

text \<open>Every delivery answers an earlier event that put the same value under the same ticket.\<close>

definition answered :: "qevent list \<Rightarrow> bool" where
  "answered es \<longleftrightarrow> (\<forall>j<length es. \<forall>a h v. es ! j = Got a h v \<longrightarrow> Put a h v \<in> set (take j es))"

lemma answered_Nil [simp]: "answered []"
  by (simp add: answered_def)

lemma answered_put: "answered es \<Longrightarrow> answered (es @ [Put a t v])"
  by (simp add: answered_def nth_append less_Suc_eq)

lemma answered_got: "answered es \<Longrightarrow> (a, h, v) \<in> set (puts es) \<Longrightarrow> answered (es @ [Got a h v])"
  by (simp add: answered_def nth_append less_Suc_eq puts_iff)

section \<open>Tickets as numbers\<close>

lemma unat_index: "unat (tail_index t) = unat t mod 2 ^ 63" and node_tail_index: "node_index = tail_index"
proof -
  have "tail_index t = take_bit 63 t"
    by (rule bit_eqI) (auto simp: tail_index_def bit_and_iff bit_not_iff bit_take_bit_iff)
  then show "unat (tail_index t) = unat t mod 2 ^ 63"
    by (simp only: unsigned_take_bit_eq) (simp add: take_bit_eq_mod)
  show "node_index = tail_index" by (simp add: fun_eq_iff node_index_def tail_index_def)
qed

lemma tail_index_small: "unat t < 2 ^ 63 \<Longrightarrow> tail_index t = t"
  by (simp add: word_unat_eq_iff unat_index)

lemma tail_index_bits:
  "tail_index (t OR UNSAFE_BIT) = tail_index t" "tail_index (set_unsafe (tail_index t)) = tail_index t"
  by (auto intro!: bit_eqI simp: tail_index_def set_unsafe_def bit_and_iff bit_or_iff bit_not_iff)

lemma open_tail: "\<not> crq_is_closed t \<Longrightarrow> tail_index t = t"
proof (rule bit_word_eqI)
  fix n
  assume "\<not> crq_is_closed t"
  then have "\<not> bit t 63" by (auto simp: crq_is_closed_def bit_eq_iff bit_and_iff)
  moreover assume "n < LENGTH(64)"
  ultimately show "bit (tail_index t) n = bit t n" by (auto simp: tail_index_def bit_and_iff bit_not_iff)
qed

lemma tail_index_Suc:
  assumes "unat (tail_index t) < 2 ^ 63 - 1"
  shows "unat (tail_index (t + 1)) = Suc (unat (tail_index t))"
proof -
  have "unat (t + 1) mod 2 ^ 63 = (unat t + 1) mod 2 ^ 64 mod 2 ^ 63" by (simp add: unat_word_ariths)
  also have "\<dots> = (unat t + 1) mod 2 ^ 63" by (rule mod_mod_cancel) simp
  also have "\<dots> = Suc (unat t mod 2 ^ 63) mod 2 ^ 63" by (simp add: mod_Suc_eq)
  also have "\<dots> = Suc (unat t mod 2 ^ 63)" using assms by (simp add: unat_index)
  finally show ?thesis by (simp add: unat_index)
qed

lemma ticket_Suc: "unat h < 2 ^ 63 \<Longrightarrow> unat (h + 1) = Suc (unat h)" for h :: u64
  by (simp add: unat_word_ariths)

section \<open>The invariant\<close>

fun enq_ticket :: "enq_pc \<Rightarrow> (addr \<times> u64) multiset" where
  "enq_ticket (EReadIdx rq t) = {#(rq, t)#}"
| "enq_ticket (EReadVal rq t idx) = {#(rq, t)#}"
| "enq_ticket (EReadHead rq t idx) = {#(rq, t)#}"
| "enq_ticket (ECas rq t idx) = {#(rq, t)#}"
| "enq_ticket pc = {#}"

fun deq_ticket :: "deq_pc \<Rightarrow> (addr \<times> u64) multiset" where
  "deq_ticket (DReadIdx rq h r tt) = {#(rq, h)#}"
| "deq_ticket (DReadVal rq h r tt c) = {#(rq, h)#}"
| "deq_ticket (DReadTl rq h r c v) = {#(rq, h)#}"
| "deq_ticket (DTake rq h r tt c v) = {#(rq, h)#}"
| "deq_ticket (DMark rq h r tt c v) = {#(rq, h)#}"
| "deq_ticket (DSkipUnsafe rq h r tt c v) = {#(rq, h)#}"
| "deq_ticket (DSkip rq h r tt c v) = {#(rq, h)#}"
| "deq_ticket pc = {#}"

definition put_ticket :: "lthread \<Rightarrow> (addr \<times> u64) multiset" where
  "put_ticket t = (case t_pc t of LEnq pc \<Rightarrow> enq_ticket pc | _ \<Rightarrow> {#})"

definition got_ticket :: "lthread \<Rightarrow> (addr \<times> u64) multiset" where
  "got_ticket t = (case t_pc t of LDeq pc \<Rightarrow> deq_ticket pc | _ \<Rightarrow> {#})"

text \<open>The tickets drawn: those that have served and those the threads hold.\<close>

definition served :: "(addr \<times> u64 \<times> u64) list \<Rightarrow> (addr \<times> u64) multiset" where
  "served xs = mset (map ticket_of xs)"

definition drawn :: "(lthread \<Rightarrow> (addr \<times> u64) multiset) \<Rightarrow> (addr \<times> u64 \<times> u64) list \<Rightarrow> lthread list \<Rightarrow> (addr \<times> u64) multiset" where
  "drawn f xs thr = served xs + (\<Sum>i<length thr. f (thr ! i))"

definition once :: "'a multiset \<Rightarrow> bool" where
  "once M \<longleftrightarrow> (\<forall>x. count M x \<le> 1)"

lemma once_sub: "once M \<Longrightarrow> M' \<subseteq># M \<Longrightarrow> once M'"
  by (meson mset_subset_eq_count once_def order_trans)

lemma once_add: "once M \<Longrightarrow> x \<notin># M \<Longrightarrow> once (add_mset x M)"
  by (simp add: once_def not_in_iff)

lemma once_distinct: "once (mset xs) \<Longrightarrow> distinct xs"
proof (induction xs)
  case (Cons x xs)
  have "once (mset xs)" by (rule once_sub [OF Cons.prems]) simp
  moreover have "x \<notin> set xs"
    using Cons.prems by (auto simp: once_def dest!: spec [of _ x])
  ultimately show ?case using Cons.IH by simp
qed (simp add: once_def)

lemma drawn_update:
  assumes "i < length thr"
  shows "drawn f xs (thr[i := t']) + f (thr ! i) = drawn f xs thr + f t'"
proof -
  have "(\<Sum>j<length thr. f (thr[i := t'] ! j)) + f (thr ! i) = (\<Sum>j<length thr. f (thr ! j)) + f t'"
    using assms by (simp add: sum.remove [of _ i] ac_simps)
  then show ?thesis unfolding drawn_def by (simp add: ac_simps)
qed

text \<open>Every ticket once, and all of them satisfy \<open>B\<close>.\<close>

definition accounted :: "('k \<Rightarrow> bool) \<Rightarrow> 'k multiset \<Rightarrow> bool" where
  "accounted B M \<longleftrightarrow> once M \<and> (\<forall>k. k \<in># M \<longrightarrow> B k)"

definition below_tail :: "addr set \<Rightarrow> lcrq \<Rightarrow> addr \<times> u64 \<Rightarrow> bool" where
  "below_tail P q k \<longleftrightarrow> fst k \<in> P \<and>
     (\<exists>r. q_mem q (fst k) = Some r \<and> unat (snd k) < unat (tail_index (rq_tail r)))"

lemma below_tailI: "a \<in> P \<Longrightarrow> q_mem q a = Some r \<Longrightarrow> unat t < unat (tail_index (rq_tail r)) \<Longrightarrow> below_tail P q (a, t)"
  by (simp add: below_tail_def)

definition below_head :: "addr set \<Rightarrow> lcrq \<Rightarrow> addr \<times> u64 \<Rightarrow> bool" where
  "below_head P q k \<longleftrightarrow> fst k \<in> P \<and> (\<exists>r. q_mem q (fst k) = Some r \<and> unat (snd k) < unat (rq_head r))"

text \<open>After \<open>N\<close> steps: the counters are small, and every value in a cell was put under the ticket that is the index of the cell.\<close>

definition ring_tick :: "nat \<Rightarrow> qevent list \<Rightarrow> addr \<Rightarrow> RingQueue \<Rightarrow> bool" where
  "ring_tick N es a r \<longleftrightarrow>
     unat (rq_head r) \<le> N \<and> unat (tail_index (rq_tail r)) \<le> N \<and>
     (\<forall>n \<in> set (rq_array r). n_val n \<noteq> - 1 \<longrightarrow> (a, tail_index (n_idx n), n_val n) \<in> set (puts es))"

definition rings_tick :: "nat \<Rightarrow> qevent list \<Rightarrow> addr set \<Rightarrow> lcrq \<Rightarrow> bool" where
  "rings_tick N es P q \<longleftrightarrow> (\<forall>a \<in> P. \<forall>r. q_mem q a = Some r \<longrightarrow> ring_tick N es a r)"

definition head_reaches :: "lcrq \<Rightarrow> addr \<Rightarrow> u64 \<Rightarrow> bool" where
  "head_reaches q a h \<longleftrightarrow> (\<exists>r. q_mem q a = Some r \<and> unat h \<le> unat (rq_head r))"

definition deq_tick :: "lcrq \<Rightarrow> deq_pc \<Rightarrow> bool" where
  "deq_tick q pc \<longleftrightarrow>
     (case pc of
        DReadTl rq h r c v \<Rightarrow> v = - 1
      | DTake rq h r tt c v \<Rightarrow> tail_index c = h
      | DSkipUnsafe rq h r tt c v \<Rightarrow> v = - 1
      | DSkip rq h r tt c v \<Rightarrow> v = - 1
      | DFix rq (FTest t h) \<Rightarrow> head_reaches q rq h
      | DFix rq (FCas t h) \<Rightarrow> head_reaches q rq h \<and> t < h
      | _ \<Rightarrow> True)"

text \<open>A spare ring has not been dequeued from; before it is linked it is as the solo enqueue left it.\<close>

definition thr_tick :: "lcrq \<Rightarrow> lthread \<Rightarrow> bool" where
  "thr_tick q t \<longleftrightarrow>
     (\<forall>a \<in> spare t. rq_head (the (q_mem q a)) = 0) \<and>
     (case t_pc t of
        LEnq (ELink rq) \<Rightarrow> \<forall>a. l_nrq (t_loc t) = Some a \<longrightarrow> (\<exists>r. q_mem q a = Some (solo (l_arg (t_loc t)) r))
      | LDeq pc \<Rightarrow> deq_tick q pc
      | _ \<Rightarrow> True)"

definition tick_inv :: "nat \<Rightarrow> qevent list \<Rightarrow> lsys \<Rightarrow> bool" where
  "tick_inv N es y \<longleftrightarrow>
     (let q = y_q y; thr = y_thr y; P = public q thr in
      rings_tick N es P q \<and> (\<forall>t \<in> set thr. thr_tick q t) \<and> answered es \<and>
      accounted (below_tail P q) (drawn put_ticket (puts es) thr) \<and>
      accounted (below_head P q) (drawn got_ticket (gots es) thr) \<and>
      map (snd \<circ> snd) (gots es) = filter (\<lambda>v. v \<noteq> - 1) (y_out y) \<and>
      mset (map (snd \<circ> snd) (puts es)) = mset (y_in y) + pending thr)"

section \<open>Steps keep the invariant\<close>

text \<open>Counters only grow.\<close>

definition grows :: "addr set \<Rightarrow> lcrq \<Rightarrow> lcrq \<Rightarrow> bool" where
  "grows P q q' \<longleftrightarrow> (\<forall>a \<in> P. \<forall>r. q_mem q a = Some r \<longrightarrow> (\<exists>r'. q_mem q' a = Some r' \<and>
     unat (rq_head r) \<le> unat (rq_head r') \<and> unat (tail_index (rq_tail r)) \<le> unat (tail_index (rq_tail r'))))"

lemma grows_same: "q_mem q' = q_mem q \<Longrightarrow> grows P q q'"
  by (simp add: grows_def)

lemma below_tail_grows: "below_tail P q k \<Longrightarrow> grows P q q' \<Longrightarrow> P \<subseteq> P' \<Longrightarrow> below_tail P' q' k"
  unfolding below_tail_def grows_def by (meson order_less_le_trans subsetD)

lemma below_head_grows: "below_head P q k \<Longrightarrow> grows P q q' \<Longrightarrow> P \<subseteq> P' \<Longrightarrow> below_head P' q' k"
  unfolding below_head_def grows_def by (meson order_less_le_trans subsetD)

lemma head_reaches_grows: "head_reaches q a h \<Longrightarrow> a \<in> P \<Longrightarrow> grows P q q' \<Longrightarrow> head_reaches q' a h"
  unfolding head_reaches_def grows_def by (meson order_trans)

lemma ring_tick_mono: "ring_tick N es a r \<Longrightarrow> N \<le> N' \<Longrightarrow> ring_tick N' (es @ es') a r"
  by (auto simp: ring_tick_def)

lemma rings_tick_mono: "rings_tick N es P q \<Longrightarrow> N \<le> N' \<Longrightarrow> rings_tick N' (es @ es') P q"
  using ring_tick_mono by (fastforce simp: rings_tick_def)

lemma rings_tick_same: "q_mem q' = q_mem q \<Longrightarrow> rings_tick N es P q' = rings_tick N es P q"
  by (simp add: rings_tick_def)

lemma put_tick:
  assumes "rings_tick N es P q" and "q_mem q a = Some r" and "N \<le> N'" and "ring_tick N' (es @ es') a r'"
    and "unat (rq_head r) \<le> unat (rq_head r')" and "unat (tail_index (rq_tail r)) \<le> unat (tail_index (rq_tail r'))"
  shows "rings_tick N' (es @ es') P (put_ring a r' q)" and "grows P q (put_ring a r' q)"
  using assms rings_tick_mono [OF assms(1,3), of es'] by (auto simp: rings_tick_def grows_def put_ring_def)

lemma CAS2_tick:
  assumes T: "rings_tick N es P q" and a: "a \<in> P" and cas: "CAS2 pw a t o1 o2 n1 n2 q = Inr (ok, q1)"
    and new: "ok \<Longrightarrow> n1 \<noteq> - 1 \<Longrightarrow> (o1 \<noteq> - 1 \<Longrightarrow> (a, tail_index o2, o1) \<in> set (puts es)) \<Longrightarrow>
      (a, tail_index n2, n1) \<in> set (puts (es @ es'))"
  shows "rings_tick (Suc N) (es @ es') P q1" and "grows P q q1"
    and "ok \<Longrightarrow> o1 \<noteq> - 1 \<Longrightarrow> (a, tail_index o2, o1) \<in> set (puts es)"
proof -
  obtain r n where r: "q_mem q a = Some r" "slot pw t < length (rq_array r)" "n = rq_array r ! slot pw t"
    "(ok, q1) = (if n_val n = o1 \<and> n_idx n = o2
      then (True, put_ring a (r\<lparr>rq_array := (rq_array r)[slot pw t := \<lparr>n_val = n1, n_idx = n2\<rparr>]\<rparr>) q) else (False, q))"
    using cas by (auto simp: CAS2_def ring_def rd_def rbind_eq_Inr_iff split: option.splits if_splits)
  have R: "ring_tick N es a r" using T a r(1) by (simp add: rings_tick_def)
  have "n \<in> set (rq_array r)" using r(2,3) by simp
  then have old: "(a, tail_index o2, o1) \<in> set (puts es)" if "ok" "o1 \<noteq> - 1"
    using R r(4) that by (auto simp: ring_tick_def split: if_splits)
  then show "ok \<Longrightarrow> o1 \<noteq> - 1 \<Longrightarrow> (a, tail_index o2, o1) \<in> set (puts es)" .
  have "rings_tick (Suc N) (es @ es') P q1 \<and> grows P q q1"
  proof (cases ok)
    case True
    let ?r = "r\<lparr>rq_array := (rq_array r)[slot pw t := \<lparr>n_val = n1, n_idx = n2\<rparr>]\<rparr>"
    have "ring_tick (Suc N) (es @ es') a ?r"
      using R new [OF True _ old [OF True]] ring_tick_mono [OF R, of "Suc N" es']
      by (auto simp: ring_tick_def dest!: set_update_subset_insert [THEN subsetD])
    then show ?thesis
      using put_tick [OF T r(1), of "Suc N" es' ?r] r(4) True by (auto split: if_splits)
  next
    case False
    then have "q1 = q" using r(4) by (auto split: if_splits)
    then show ?thesis using rings_tick_mono [OF T, of "Suc N" es'] grows_same by auto
  qed
  then show "rings_tick (Suc N) (es @ es') P q1" "grows P q q1" by blast+
qed

text \<open>
  What a step does to the tickets: some of the ticket held is kept or serves, or a new one is drawn.
\<close>

definition draws :: "('k \<Rightarrow> bool) \<Rightarrow> ('k \<Rightarrow> bool) \<Rightarrow> 'k multiset \<Rightarrow> 'k multiset \<Rightarrow> 'k multiset \<Rightarrow> bool" where
  "draws B B' T E T' \<longleftrightarrow> E + T' \<subseteq># T \<or> T = {#} \<and> (\<exists>k. E + T' = {#k#} \<and> \<not> B k \<and> B' k)"

lemma served_simps [simp]: "served [] = {#}" "served (x # xs) = add_mset (ticket_of x) (served xs)"
  "served (xs @ ys) = served xs + served ys"
  by (simp_all add: served_def)

lemma enq_tick:
  assumes ok: "enq_ok q P pc l" and T: "rings_tick N es P q" and N: "Suc N < 2 ^ 63"
    and held: "\<And>k. k \<in># enq_ticket pc \<Longrightarrow> below_tail P q k"
    and pub: "\<And>rq. pc \<noteq> EAlloc rq \<and> pc \<noteq> ELink rq \<and> pc \<noteq> ESwingNew rq"
    and st: "enq_step gm pw pc l q = Inr (r, l', q')"
  shows "rings_tick (Suc N) (es @ enq_event pw pc l q) P q' \<and> grows P q q' \<and>
    draws (below_tail P q) (below_tail P q') (enq_ticket pc) (served (puts (enq_event pw pc l q)))
      (case r of None \<Rightarrow> {#} | Some pc' \<Rightarrow> enq_ticket pc')"
    (is "?R \<and> ?G \<and> draws ?B ?B' ?T ?E ?T'")
proof -
  note L = enq_ok_local [OF ok]
  have quiet: ?thesis if "q_mem q' = q_mem q" "enq_event pw pc l q = []" "?T' \<subseteq># ?T"
    using that rings_tick_mono [OF T, of "Suc N" "[]"] grows_same [of q' q P]
    by (simp add: draws_def rings_tick_same [of q' q])
  show ?thesis
  proof (cases pc)
    case (ETicket rq)
    then obtain r0 where mem: "q_mem q rq = Some r0"
      using st by (cases "q_mem q rq") (simp_all add: ring_def)
    then have r0: "q_mem q rq = Some r0" "q' = put_ring rq (r0\<lparr>rq_tail := rq_tail r0 + 1\<rparr>) q"
      "r = Some (if crq_is_closed (rq_tail r0) then EAlloc rq else EReadIdx rq (rq_tail r0))"
      using st ETicket by (simp_all add: ring_def Let_def)
    have rq: "rq \<in> P" using L ETicket by simp
    have R: "ring_tick N es rq r0" using T rq r0(1) by (simp add: rings_tick_def)
    then have S: "unat (tail_index (rq_tail r0 + 1)) = Suc (unat (tail_index (rq_tail r0)))"
      using N by (intro tail_index_Suc) (simp add: ring_tick_def)
    have "ring_tick (Suc N) (es @ []) rq (r0\<lparr>rq_tail := rq_tail r0 + 1\<rparr>)"
      using R S by (auto simp: ring_tick_def)
    then have "?R" "?G"
      using put_tick [OF T r0(1), of "Suc N" "[]" "r0\<lparr>rq_tail := rq_tail r0 + 1\<rparr>"] S r0(2) ETicket
      by (simp_all add: enq_event_def)
    moreover have "draws ?B ?B' ?T ?E ?T'"
      using open_tail [of "rq_tail r0"] r0 S rq ETicket
      by (auto simp: draws_def enq_event_def below_tail_def put_ring_def)
    ultimately show ?thesis by blast
  next
    case (ECas rq t idx)
    then obtain b where cas: "CAS2 pw rq t (- 1) idx (l_arg l) t q = Inr (b, q')" "r = (if b then None else Some (EFull rq t))"
      using st by (auto simp: rbind_eq_Inr_iff)
    have rq: "rq \<in> P" using L ECas by simp
    have ev: "enq_event pw pc l q = (if b then [Put rq t (l_arg l)] else [])"
      using cas(1) ECas by (simp add: enq_event_def)
    have "below_tail P q (rq, t)" using held ECas by simp
    then have "unat t < 2 ^ 63" using T N by (auto simp: below_tail_def rings_tick_def ring_tick_def)
    then have "tail_index t = t" by (rule tail_index_small)
    then have new: "(rq, tail_index t, l_arg l) \<in> set (puts (es @ enq_event pw pc l q))" if b
      using that by (simp add: ev)
    have "?R" "?G" by (rule CAS2_tick [OF T rq cas(1)], erule new)+
    then show ?thesis using ev cas(2) ECas by (simp add: draws_def)
  next
    case (EClose rq t)
    then obtain r0 where r0: "q_mem q rq = Some r0"
      using st by (cases "q_mem q rq") (simp_all add: close_crq_def ring_def)
    have rq: "rq \<in> P" using L EClose by simp
    have R: "ring_tick N es rq r0" using T rq r0 by (simp add: rings_tick_def)
    have put: "rings_tick (Suc N) (es @ []) P (put_ring rq (r0\<lparr>rq_tail := rq_tail r0 OR UNSAFE_BIT\<rparr>) q) \<and>
        grows P q (put_ring rq (r0\<lparr>rq_tail := rq_tail r0 OR UNSAFE_BIT\<rparr>) q)"
      using put_tick [OF T r0, of "Suc N" "[]" "r0\<lparr>rq_tail := rq_tail r0 OR UNSAFE_BIT\<rparr>"] R
      by (simp add: tail_index_bits ring_tick_def)
    have "q' = q \<or> q' = put_ring rq (r0\<lparr>rq_tail := rq_tail r0 OR UNSAFE_BIT\<rparr>) q"
      using st r0 EClose by (auto simp: rbind_eq_Inr_iff close_crq_def ring_def split: if_splits)
    then have "?R \<and> ?G"
      using put rings_tick_mono [OF T, of "Suc N" "[]"] grows_same [of q q P] EClose by (auto simp: enq_event_def)
    moreover have "?T' = {#}" using st EClose by (auto simp: rbind_eq_Inr_iff)
    ultimately show ?thesis using EClose by (simp add: draws_def enq_event_def)
  qed (use pub st quiet in \<open>auto simp: enq_event_def rbind_eq_Inr_iff split: option.splits if_splits\<close>)
qed

text \<open>The compare-and-swap steps of \<open>dequeue\<close>, and \<open>fixState\<close>.\<close>

lemma deq_cas_tick:
  assumes T: "rings_tick N es P q" and rq: "rq \<in> P"
    and st: "deq_cas pw rq h r tt o1 o2 n1 n2 out q = Inr (res, q')"
    and keep: "n1 = - 1 \<or> n1 = o1 \<and> tail_index n2 = tail_index o2"
  shows "rings_tick (Suc N) es P q'" and "grows P q q'" and "res = out \<or> res = DGo (DReadIdx rq h r tt)"
    and "res = out \<Longrightarrow> out \<noteq> DGo (DReadIdx rq h r tt) \<Longrightarrow> o1 \<noteq> - 1 \<Longrightarrow> (rq, tail_index o2, o1) \<in> set (puts es)"
proof -
  obtain b where cas: "CAS2 pw rq h o1 o2 n1 n2 q = Inr (b, q')" "res = (if b then out else DGo (DReadIdx rq h r tt))"
    using st by (auto simp: deq_cas_def rbind_eq_Inr_iff)
  have new: "(rq, tail_index n2, n1) \<in> set (puts (es @ []))"
    if "n1 \<noteq> - 1" "o1 \<noteq> - 1 \<Longrightarrow> (rq, tail_index o2, o1) \<in> set (puts es)" using keep that by auto
  have C: "rings_tick (Suc N) (es @ []) P q'" "grows P q q'"
    "b \<Longrightarrow> o1 \<noteq> - 1 \<Longrightarrow> (rq, tail_index o2, o1) \<in> set (puts es)"
    using CAS2_tick [OF T rq cas(1), of "[]"] new by blast+
  with cas(2) show "rings_tick (Suc N) es P q'" "grows P q q'" "res = out \<or> res = DGo (DReadIdx rq h r tt)"
    "res = out \<Longrightarrow> out \<noteq> DGo (DReadIdx rq h r tt) \<Longrightarrow> o1 \<noteq> - 1 \<Longrightarrow> (rq, tail_index o2, o1) \<in> set (puts es)"
    by (auto split: if_splits)
qed

lemma fixState_tick:
  assumes T: "rings_tick N es P q" and rq: "rq \<in> P" and N: "Suc N < 2 ^ 63" and p: "deq_tick q (DFix rq p)"
    and st: "fixState p rq q = Inr (r, q')"
  shows "rings_tick (Suc N) es P q' \<and> grows P q q' \<and> (case r of None \<Rightarrow> True | Some p' \<Rightarrow> deq_tick q' (DFix rq p'))"
proof -
  obtain r0 where r0: "q_mem q rq = Some r0" using st by (cases "q_mem q rq"; cases p) (simp_all add: ring_def)
  have R: "ring_tick N es rq r0" using T rq r0 by (simp add: rings_tick_def)
  have same: "rings_tick (Suc N) es P q \<and> grows P q q"
    using rings_tick_mono [OF T, of "Suc N" "[]"] grows_same [of q q P] by simp
  show ?thesis
  proof (cases "\<exists>t h. p = FCas t h \<and> rq_tail r0 = t")
    case True
    then obtain t h where p': "p = FCas t h" "rq_tail r0 = t" by blast
    then have q': "q' = put_ring rq (r0\<lparr>rq_tail := h\<rparr>) q" "r = None" using st r0 by (simp_all add: ring_def)
    have h: "unat h \<le> unat (rq_head r0)" "t < h" using p p'(1) r0 by (simp_all add: deq_tick_def head_reaches_def)
    moreover have "unat (rq_head r0) \<le> N" using R by (simp add: ring_tick_def)
    ultimately have "unat h \<le> N" "unat t < unat h" by (simp_all add: word_less_nat_alt)
    then have "tail_index h = h" "tail_index t = t" "unat h \<le> N" "unat t < unat h"
      using N by (simp_all add: tail_index_small)
    then show ?thesis
      using put_tick [OF T r0, of "Suc N" "[]" "r0\<lparr>rq_tail := h\<rparr>"] R p'(2) q' by (simp add: ring_tick_def)
  next
    case False
    then have "q' = q" using st r0 by (cases p) (auto simp: ring_def split: if_splits)
    then show ?thesis
      using same st r0 p False by (cases p) (auto simp: ring_def deq_tick_def head_reaches_def split: if_splits)
  qed
qed

lemma deq_tick_step:
  assumes ok: "deq_ok P pc" and T: "rings_tick N es P q" and N: "Suc N < 2 ^ 63" and tick: "deq_tick q pc"
    and st: "deq_step pw pc q = Inr (out, q')"
  shows "rings_tick (Suc N) es P q' \<and> grows P q q' \<and> (\<forall>pc'. out = DGo pc' \<longrightarrow> deq_tick q' pc') \<and>
    set (gots (deq_event pw pc q)) \<subseteq> set (puts es) \<and>
    draws (below_head P q) (below_head P q') (deq_ticket pc) (served (gots (deq_event pw pc q)))
      (case out of DGo pc' \<Rightarrow> deq_ticket pc' | DReturn v \<Rightarrow> {#})"
    (is "?R \<and> ?G \<and> ?D \<and> ?S \<and> draws ?B ?B' ?T ?E ?T'")
proof -
  have L: "deq_rings pc \<subseteq> P" using ok by (simp add: deq_ok_def)
  have quiet: ?thesis if "q_mem q' = q_mem q" "deq_event pw pc q = []" "?T' \<subseteq># ?T" ?D
    using that rings_tick_mono [OF T, of "Suc N" "[]"] grows_same [of q' q P]
    by (simp add: draws_def rings_tick_same [of q' q])
  have ev: "deq_event pw pc q = []" if "\<And>rq h r tt c v. pc \<noteq> DTake rq h r tt c v"
    using that by (simp add: deq_event_def split: deq_pc.split)
  have go: ?thesis if "?R" "?G" "deq_event pw pc q = []" "?T' \<subseteq># ?T" ?D
    using that by (simp add: draws_def)
  show ?thesis
  proof (cases pc)
    case (DTicket rq)
    then obtain r0 where r0: "q_mem q rq = Some r0" using st by (cases "q_mem q rq") (simp_all add: ring_def)
    then have q': "q' = put_ring rq (r0\<lparr>rq_head := rq_head r0 + 1\<rparr>) q" "out = DGo (DReadIdx rq (rq_head r0) 0 0)"
      using st DTicket by (simp_all add: ring_def Let_def)
    have rq: "rq \<in> P" using L DTicket by simp
    have R: "ring_tick N es rq r0" using T rq r0 by (simp add: rings_tick_def)
    then have S: "unat (rq_head r0 + 1) = Suc (unat (rq_head r0))" using N by (intro ticket_Suc) (simp add: ring_tick_def)
    then have "?R" "?G"
      using put_tick [OF T r0, of "Suc N" "[]" "r0\<lparr>rq_head := rq_head r0 + 1\<rparr>"] R q'(1) by (auto simp: ring_tick_def)
    moreover have "draws ?B ?B' ?T ?E ?T'"
      using S r0 rq q' ev DTicket by (simp add: draws_def below_head_def put_ring_def)
    moreover have "?D" using q'(2) by (simp add: deq_tick_def)
    ultimately show ?thesis using ev DTicket by simp
  next
    case (DReadVal rq h r tt c)
    then obtain n where n: "cell pw q rq h = Inr n" using st by (auto simp: rbind_eq_Inr_iff)
    then have "q' = q" using st DReadVal by (simp add: Let_def)
    moreover have "?D" "?T' \<subseteq># ?T"
      using st DReadVal n by (auto simp: Let_def deq_empty_def deq_tick_def is_empty_def node_tail_index)
    ultimately show ?thesis using quiet ev DReadVal by simp
  next
    case (DReadTl rq h r c v)
    then have "q' = q" "?D" "?T' \<subseteq># ?T"
      using st tick by (auto simp: rbind_eq_Inr_iff deq_empty_def deq_tick_def)
    then show ?thesis using quiet ev DReadTl by simp
  next
    case (DTake rq h r tt c v)
    have rq: "rq \<in> P" and v: "v \<noteq> - 1" using ok DTake by (simp_all add: deq_ok_def)
    have cas: "deq_cas pw rq h r tt v c (- 1) (node_unsafe c OR (h + RING_SIZE pw)) (DReturn v) q = Inr (out, q')"
      using st DTake by simp
    note C = deq_cas_tick [OF T rq cas]
    have c: "tail_index c = h" using tick DTake by (simp add: deq_tick_def)
    have "deq_event pw pc q = (if out = DReturn v then [Got rq h v] else [])"
      using st C(3) DTake by (auto simp: deq_event_def)
    then show ?thesis using C v c DTake by (auto simp: draws_def deq_tick_def)
  next
    case (DMark rq h r tt c v)
    then have cas: "deq_cas pw rq h r tt v c v (set_unsafe (node_index c)) (DGo (DCheck rq h)) q = Inr (out, q')"
      using st by simp
    show ?thesis
      using deq_cas_tick [OF T _ cas] L DMark ev go by (auto simp: deq_tick_def node_tail_index tail_index_bits)
  next
    case (DSkipUnsafe rq h r tt c v)
    then have cas: "deq_cas pw rq h r tt v c v (node_unsafe c OR (h + RING_SIZE pw)) (DGo (DCheck rq h)) q = Inr (out, q')"
      using st by simp
    show ?thesis using deq_cas_tick [OF T _ cas] L DSkipUnsafe tick ev go by (auto simp: deq_tick_def)
  next
    case (DSkip rq h r tt c v)
    then have cas: "deq_cas pw rq h r tt v (node_index c) v (h + RING_SIZE pw) (DGo (DCheck rq h)) q = Inr (out, q')"
      using st by simp
    show ?thesis using deq_cas_tick [OF T _ cas] L DSkip tick ev go by (auto simp: deq_tick_def)
  next
    case (DFix rq p)
    then obtain r where r: "fixState p rq q = Inr (r, q')" "out = DGo (case r of None \<Rightarrow> DNext rq | Some p' \<Rightarrow> DFix rq p')"
      using st by (auto simp: rbind_eq_Inr_iff)
    have "?R \<and> ?G \<and> ?D" "?T' = {#}"
      using fixState_tick [OF T _ N _ r(1)] r(2) L DFix tick by (auto simp: deq_tick_def split: option.splits)
    then show ?thesis using go ev DFix by simp
  qed ((rule quiet; use st in \<open>auto simp: rbind_eq_Inr_iff deq_tick_def deq_event_def split: option.splits if_splits\<close>)+)
qed

section \<open>The system\<close>

lemma draws_accounted:
  assumes D: "accounted B (drawn f xs thr)" and i: "i < length thr"
    and d: "draws B B' (f (thr ! i)) (served ys) (f t')" and mono: "\<And>k. B k \<Longrightarrow> B' k"
  shows "accounted B' (drawn f (xs @ ys) (thr[i := t']))"
proof -
  let ?D = "drawn f xs thr" and ?D' = "drawn f (xs @ ys) (thr[i := t'])" and ?T = "f (thr ! i)"
  have D': "once ?D" "\<forall>k. k \<in># ?D \<longrightarrow> B' k" using D mono by (auto simp: accounted_def)
  have "?D' = served ys + drawn f xs (thr[i := t'])" by (simp add: drawn_def ac_simps)
  then have eq: "?D' + ?T = ?D + (served ys + f t')"
    using drawn_update [OF i, of f xs t'] by (simp add: ac_simps)
  show ?thesis
  proof (cases "served ys + f t' \<subseteq># ?T")
    case True
    then obtain Y where "?T = served ys + f t' + Y" by (metis mset_subset_eq_exists_conv)
    with eq have "?D = ?D' + Y" by (simp add: ac_simps)
    then have "?D' \<subseteq># ?D" by simp
    then have "once ?D'" "set_mset ?D' \<subseteq> set_mset ?D" by (rule once_sub [OF D'(1)], rule set_mset_mono)
    with D'(2) show ?thesis by (auto simp: accounted_def)
  next
    case False
    then obtain k where k: "?T = {#}" "served ys + f t' = {#k#}" "\<not> B k" "B' k" using d by (auto simp: draws_def)
    then have "?D' = add_mset k ?D" using eq by simp
    moreover have "k \<notin># ?D" using D k(3) unfolding accounted_def by blast
    ultimately show ?thesis using once_add [OF D'(1)] D'(2) k(4) by (simp add: accounted_def)
  qed
qed

lemma thr_tick_mono:
  assumes "thr_tick q t" and "thr_ok pw q P t" and "grows P q q'" and "\<And>a. a \<in> spare t \<Longrightarrow> q_mem q' a = q_mem q a"
  shows "thr_tick q' t"
proof (cases "t_pc t")
  case (LEnq pc)
  with assms(1,4) show ?thesis by (cases pc) (auto simp: thr_tick_def spare_def linked_def)
next
  case (LDeq pc)
  then have "deq_rings pc \<subseteq> P" using assms(2) by (simp add: thr_ok_def deq_ok_def)
  moreover have "deq_tick q pc" using assms(1) LDeq by (simp add: thr_tick_def)
  ultimately have "deq_tick q' pc"
    using head_reaches_grows [OF _ _ assms(3)]
    by (simp add: deq_tick_def split: deq_pc.splits fix_pc.splits)
  with assms(1,4) LDeq show ?thesis by (simp add: thr_tick_def)
qed (use assms(1,4) in \<open>simp add: thr_tick_def\<close>)

lemma tick_update:
  assumes inv: "tick_inv N es y" and linv: "lcrq_inv gm pw y" and i: "i < length (y_thr y)"
    and P: "public (y_q y) (y_thr y) \<subseteq> public q' ((y_thr y)[i := t'])"
    and G: "grows (public (y_q y) (y_thr y)) (y_q y) q'"
    and R: "rings_tick (Suc N) (es @ ev) (public q' ((y_thr y)[i := t'])) q'"
    and others: "\<And>u a. u \<in> set (y_thr y) \<Longrightarrow> a \<in> spare u \<Longrightarrow>
      a \<notin> set_option (l_nrq (t_loc (y_thr y ! i))) \<Longrightarrow> q_mem q' a = q_mem (y_q y) a"
    and self: "thr_tick q' t'" and ans: "answered (es @ ev)"
    and put: "draws (below_tail (public (y_q y) (y_thr y)) (y_q y)) (below_tail (public q' ((y_thr y)[i := t'])) q')
      (put_ticket (y_thr y ! i)) (served (puts ev)) (put_ticket t')"
    and got: "draws (below_head (public (y_q y) (y_thr y)) (y_q y)) (below_head (public q' ((y_thr y)[i := t'])) q')
      (got_ticket (y_thr y ! i)) (served (gots ev)) (got_ticket t')"
    and outs: "filter (\<lambda>v. v \<noteq> - 1) outs = filter (\<lambda>v. v \<noteq> - 1) (y_out y) @ map (snd \<circ> snd) (gots ev)"
    and ins: "mset ins + pend t' = mset (y_in y) + pend (y_thr y ! i) + mset (map (snd \<circ> snd) (puts ev))"
  shows "tick_inv (Suc N) (es @ ev) (after_step i t' q' ins outs y)"
proof -
  let ?thr = "y_thr y" and ?q = "y_q y"
  let ?P = "public ?q ?thr" and ?P' = "public q' (?thr[i := t'])"
  note I = inv [unfolded tick_inv_def Let_def] and L = linv [unfolded lcrq_inv_def Let_def]
  have "thr_tick q' (?thr ! j)" if j: "j < length ?thr" "j \<noteq> i" for j
  proof (rule thr_tick_mono [OF _ _ G])
    show "thr_tick ?q (?thr ! j)" "thr_ok pw ?q ?P (?thr ! j)" using I L j by simp_all
    fix a assume a: "a \<in> spare (?thr ! j)"
    then have "a \<notin> set_option (l_nrq (t_loc (?thr ! i)))"
      using spare_of_others [OF linv i] j by auto
    with a show "q_mem q' a = q_mem ?q a" using others [of "?thr ! j"] nth_mem [OF j(1)] by blast
  qed
  then have "thr_tick q' (?thr[i := t'] ! j)" if "j < length ?thr" for j
    using self i that by (cases "j = i") simp_all
  then have thr: "\<forall>t \<in> set (?thr[i := t']). thr_tick q' t" by (auto simp: in_set_conv_nth)
  have tails: "below_tail ?P' q' k" if "below_tail ?P ?q k" for k by (rule below_tail_grows [OF that G P])
  have heads: "below_head ?P' q' k" if "below_head ?P ?q k" for k by (rule below_head_grows [OF that G P])
  have acc: "accounted (below_tail ?P' q') (drawn put_ticket (puts es @ puts ev) (?thr[i := t']))"
    "accounted (below_head ?P' q') (drawn got_ticket (gots es @ gots ev) (?thr[i := t']))"
    using I by (blast intro: draws_accounted [OF _ i put tails] draws_accounted [OF _ i got heads])+
  have "mset ins + pending (?thr[i := t']) = mset (map (snd \<circ> snd) (puts (es @ ev)))"
  proof -
    have "(mset ins + pending (?thr[i := t'])) + pend (?thr ! i) = mset ins + (pending ?thr + pend t')"
      using pending_update [OF i, of t'] by (simp add: add.assoc)
    also have "\<dots> = (mset ins + pend t') + pending ?thr" by (simp add: ac_simps)
    also have "\<dots> = (mset (map (snd \<circ> snd) (puts (es @ ev)))) + pend (?thr ! i)"
      unfolding ins using I by (simp add: ac_simps)
    finally show ?thesis by simp
  qed
  then show ?thesis
    using I R thr ans acc outs by (simp add: tick_inv_def Let_def)
qed

text \<open>A step that changes public rings only.\<close>

lemma tick_public:
  assumes inv: "tick_inv N es y" and linv: "lcrq_inv gm pw y" and i: "i < length (y_thr y)"
    and q: "public_change (public (y_q y) (y_thr y)) (y_q y) q'"
    and t: "l_nrq (t_loc t') = l_nrq (t_loc (y_thr y ! i))" "\<not> linked (t_pc t')" "\<not> linked (t_pc (y_thr y ! i))"
    and G: "grows (public (y_q y) (y_thr y)) (y_q y) q'"
    and R: "rings_tick (Suc N) (es @ ev) (public (y_q y) (y_thr y)) q'"
    and self: "case t_pc t' of LIdle \<Rightarrow> True | LEnq pc \<Rightarrow> (\<forall>rq. pc \<noteq> ELink rq) | LDeq pc \<Rightarrow> deq_tick q' pc"
    and ans: "answered (es @ ev)"
    and put: "draws (below_tail (public (y_q y) (y_thr y)) (y_q y)) (below_tail (public (y_q y) (y_thr y)) q')
      (put_ticket (y_thr y ! i)) (served (puts ev)) (put_ticket t')"
    and got: "draws (below_head (public (y_q y) (y_thr y)) (y_q y)) (below_head (public (y_q y) (y_thr y)) q')
      (got_ticket (y_thr y ! i)) (served (gots ev)) (got_ticket t')"
    and outs: "filter (\<lambda>v. v \<noteq> - 1) outs = filter (\<lambda>v. v \<noteq> - 1) (y_out y) @ map (snd \<circ> snd) (gots ev)"
    and ins: "mset ins = mset (y_in y) + mset (map (snd \<circ> snd) (puts ev))"
  shows "tick_inv (Suc N) (es @ ev) (after_step i t' q' ins outs y)"
proof -
  let ?P = "public (y_q y) (y_thr y)" and ?t = "y_thr y ! i"
  have sp: "spare t' = spare ?t" using t by (simp add: spare_def)
  have P: "public q' ((y_thr y)[i := t']) = ?P"
    using q by (intro public_update [OF i sp]) (simp add: public_change_def)
  have outside: "q_mem q' a = q_mem (y_q y) a" if "u \<in> set (y_thr y)" "a \<in> spare u" for u a
    using q spare_not_public [OF that] unfolding public_change_def by blast
  have "thr_tick (y_q y) ?t" using inv i by (simp add: tick_inv_def Let_def)
  then have "thr_tick q' t'"
    using self sp outside [OF nth_mem [OF i]]
    by (auto simp: thr_tick_def split: lpc.splits enq_pc.splits)
  then show ?thesis
    using G R outside ans put got outs ins t(2,3)
    by (intro tick_update [OF inv linv i]) (simp_all add: P pend_def)
qed

lemma draws_none [simp]: "draws B B' {#} {#} {#}"
  by (simp add: draws_def)

lemma put_got_tickets:
  "t_pc t = LEnq pc \<Longrightarrow> put_ticket t = enq_ticket pc" "t_pc t = LEnq pc \<Longrightarrow> got_ticket t = {#}"
  "t_pc t = LDeq pd \<Longrightarrow> put_ticket t = {#}" "t_pc t = LDeq pd \<Longrightarrow> got_ticket t = deq_ticket pd"
  "t_pc t = LIdle \<Longrightarrow> put_ticket t = {#}" "t_pc t = LIdle \<Longrightarrow> got_ticket t = {#}"
  by (simp_all add: put_ticket_def got_ticket_def)

lemma tick_call:
  assumes inv: "tick_inv N es y" and linv: "lcrq_inv gm pw y" and i: "i < length (y_thr y)"
    and pc: "t_pc (y_thr y ! i) = LIdle"
  shows "tick_inv (Suc N) es (lcrq_call i call y)"
proof -
  define t' where "t' = (case call of None \<Rightarrow> (y_thr y ! i)\<lparr>t_pc := LDeq DReadHead\<rparr>
    | Some v \<Rightarrow> (y_thr y ! i)\<lparr>t_pc := LEnq EReadTail, t_loc := (t_loc (y_thr y ! i))\<lparr>l_arg := v, l_try := 0\<rparr>\<rparr>)"
  have call: "lcrq_call i call y = after_step i t' (y_q y) (y_in y) (y_out y) y"
    by (simp add: lcrq_call_def Let_def t'_def)
  have tickets: "put_ticket t' = {#}" "got_ticket t' = {#}" "l_nrq (t_loc t') = l_nrq (t_loc (y_thr y ! i))"
    "\<not> linked (t_pc t')"
    "case t_pc t' of LIdle \<Rightarrow> True | LEnq pc \<Rightarrow> (\<forall>rq. pc \<noteq> ELink rq) | LDeq pc \<Rightarrow> deq_tick (y_q y) pc"
    by (simp_all add: t'_def put_got_tickets linked_def deq_tick_def split: option.split)
  have "rings_tick (Suc N) (es @ []) (public (y_q y) (y_thr y)) (y_q y)" "answered es"
    using inv rings_tick_mono [of N es _ _ "Suc N" "[]"] by (simp_all add: tick_inv_def Let_def)
  then have "tick_inv (Suc N) (es @ []) (after_step i t' (y_q y) (y_in y) (y_out y) y)"
    using tickets pc
    by (intro tick_public [OF inv linv i]) (simp_all add: grows_same put_got_tickets linked_def)
  then show ?thesis by (simp add: call)
qed

text \<open>What the events of a step say about the values that enter and leave.\<close>

lemma enq_event_values:
  assumes "\<And>rq. pc \<noteq> EAlloc rq \<and> pc \<noteq> ELink rq \<and> pc \<noteq> ESwingNew rq" and "enq_step gm pw pc l q = Inr (r, l', q')"
  shows "gots (enq_event pw pc l q) = []"
    and "map (snd \<circ> snd) (puts (enq_event pw pc l q)) = (case r of None \<Rightarrow> [l_arg l] | Some pc' \<Rightarrow> [])"
    and "answered es \<Longrightarrow> answered (es @ enq_event pw pc l q)"
    and "\<And>pc'. r = Some pc' \<Longrightarrow> pc' \<noteq> ELink rq"
  using assms
  by (cases pc; auto simp: enq_event_def rbind_eq_Inr_iff Let_def answered_put split: option.splits if_splits)+

lemma deq_event_values:
  assumes "deq_ok P pc" and "deq_step pw pc q = Inr (out, q')"
  shows "puts (deq_event pw pc q) = []"
    and "filter (\<lambda>v. v \<noteq> - 1) (outs @ (case out of DGo pc' \<Rightarrow> [] | DReturn v \<Rightarrow> [v])) =
      filter (\<lambda>v. v \<noteq> - 1) outs @ map (snd \<circ> snd) (gots (deq_event pw pc q))"
    and "answered es \<Longrightarrow> set (gots (deq_event pw pc q)) \<subseteq> set (puts es) \<Longrightarrow> answered (es @ deq_event pw pc q)"
  using assms
  by (cases pc; auto simp: deq_event_def deq_ok_def deq_cas_def rbind_eq_Inr_iff Let_def answered_got
      split: option.splits if_splits deq_out.splits)+

lemma tick_deq:
  assumes inv: "tick_inv N es y" and linv: "lcrq_inv gm pw y" and i: "i < length (y_thr y)" and pw: "pw < 64"
    and N: "Suc N < 2 ^ 63" and pc: "t_pc (y_thr y ! i) = LDeq pc" and run: "lcrq_run gm pw i y = Inr y'"
  shows "tick_inv (Suc N) (es @ step_event pw (y_thr y ! i) (y_q y)) y'"
proof -
  let ?q = "y_q y" and ?t = "y_thr y ! i" and ?ev = "step_event pw (y_thr y ! i) (y_q y)"
  let ?P = "public ?q (y_thr y)"
  have M: "mem_ok pw ?P ?q" and "thr_ok pw ?q ?P ?t" using linv i by (simp_all add: lcrq_inv_def Let_def)
  then have ok: "deq_ok ?P pc" using pc by (simp add: thr_ok_def)
  obtain out q' where st: "deq_step pw pc ?q = Inr (out, q')" "deq_result pw ?P ?q (out, q')"
    using deq_step_public [OF M public_dom pw ok] by fastforce
  have ev: "?ev = deq_event pw pc ?q" using pc by (simp add: step_event_def)
  have I: "rings_tick N es ?P ?q" "thr_tick ?q ?t" "answered es" using inv i by (simp_all add: tick_inv_def Let_def)
  then have tick: "deq_tick ?q pc" using pc by (simp add: thr_tick_def)
  note D = deq_tick_step [OF ok I(1) N tick st(1)] and V = deq_event_values [OF ok st(1)]
  have "rings_tick (Suc N) (es @ ?ev) ?P q'"
    using D rings_tick_mono [of "Suc N" es ?P q' "Suc N" ?ev] by simp
  moreover have "answered (es @ ?ev)" using V(3) I(3) D ev by simp
  ultimately show ?thesis
    using run st D V(1) V(2) [of "y_out y"] pc ev
    by (cases out; auto simp: lcrq_run_def Let_def deq_result_def put_got_tickets linked_def
        intro!: tick_public [OF inv linv i])
qed

lemma tick_enq:
  assumes inv: "tick_inv N es y" and linv: "lcrq_inv gm pw y" and i: "i < length (y_thr y)" and pw: "pw < 64"
    and N: "Suc N < 2 ^ 63" and pc: "t_pc (y_thr y ! i) = LEnq pc"
    and pub: "\<And>rq. pc \<noteq> EAlloc rq \<and> pc \<noteq> ELink rq \<and> pc \<noteq> ESwingNew rq" and run: "lcrq_run gm pw i y = Inr y'"
  shows "tick_inv (Suc N) (es @ step_event pw (y_thr y ! i) (y_q y)) y'"
proof -
  let ?q = "y_q y" and ?t = "y_thr y ! i" and ?ev = "step_event pw (y_thr y ! i) (y_q y)"
  let ?P = "public ?q (y_thr y)"
  have M: "mem_ok pw ?P ?q" and "thr_ok pw ?q ?P ?t" using linv i by (simp_all add: lcrq_inv_def Let_def)
  then have ok: "enq_ok ?q ?P pc (t_loc ?t)" using pc by (simp add: thr_ok_def)
  obtain r l' q' where st: "enq_step gm pw pc (t_loc ?t) ?q = Inr (r, l', q')" "enq_result pw ?P (t_loc ?t) ?q (r, l', q')"
    using enq_step_public [OF M public_dom pw ok pub] by fastforce
  have nl: "\<not> linked (t_pc ?t)" using pub pc by (auto simp: linked_def split: enq_pc.split)
  have ev: "?ev = enq_event pw pc (t_loc ?t) ?q" using pc by (simp add: step_event_def)
  have I: "rings_tick N es ?P ?q" "answered es" "accounted (below_tail ?P ?q) (drawn put_ticket (puts es) (y_thr y))"
    using inv by (simp_all add: tick_inv_def Let_def)
  have "put_ticket ?t \<subseteq># drawn put_ticket (puts es) (y_thr y)"
    using i by (simp add: drawn_def sum.remove [of _ i] ac_simps)
  then have held: "below_tail ?P ?q k" if "k \<in># enq_ticket pc" for k
    using I(3) that put_got_tickets(1) [OF pc] unfolding accounted_def by (metis mset_subset_eqD)
  note D = enq_tick [OF ok I(1) N held pub st(1)] and V = enq_event_values [OF pub st(1)]
  show ?thesis
    using run st D V I(2) pc ev nl
    by (cases r; auto simp: lcrq_run_def Let_def enq_result_def put_got_tickets linked_def
        intro!: tick_public [OF inv linv i])
qed

lemma tick_alloc:
  assumes inv: "tick_inv N es y" and linv: "lcrq_inv gm pw y" and i: "i < length (y_thr y)" and pw: "pw < 64"
    and gm: "getMemory_ok gm" and pc: "t_pc (y_thr y ! i) = LEnq (EAlloc rq)" and run: "lcrq_run gm pw i y = Inr y'"
  shows "tick_inv (Suc N) (es @ step_event pw (y_thr y ! i) (y_q y)) y'"
proof -
  let ?q = "y_q y" and ?t = "y_thr y ! i" and ?l = "t_loc (y_thr y ! i)"
  let ?P = "public ?q (y_thr y)"
  obtain a r q' where A: "enq_step gm pw (EAlloc rq) ?l ?q = Inr (Some (ELink rq), ?l\<lparr>l_nrq := Some a\<rparr>, q')"
    "q_mem q' = (q_mem ?q)(a \<mapsto> solo (l_arg ?l) r)"
    "a \<in> spare ?t \<and> q_mem ?q a = Some r \<or> spare ?t = {} \<and> a \<notin> dom (q_mem ?q) \<and> r = init_ring pw"
    by (rule alloc_step [OF linv i pw gm pc])
  let ?t' = "\<lparr>t_pc = LEnq (ELink rq), t_loc = ?l\<lparr>l_nrq := Some a\<rparr>\<rparr>"
  have out: "a \<notin> ?P" using A(3) spare_not_public [of ?t "y_thr y" a ?q] i by (auto simp: public_def)
  have sp': "spare ?t' = {a}" by (simp add: spare_def linked_def)
  have "spare ?t \<subseteq> spare ?t'" using A(3) sp' by (auto simp: spare_def split: if_splits)
  then have P: "public q' ((y_thr y)[i := ?t']) = ?P"
    using public_spare_update [OF i, of ?t' q'] sp' A(2) out by (auto simp: public_def)
  have I: "rings_tick N es ?P ?q" "thr_tick ?q ?t" "answered es" using inv i by (simp_all add: tick_inv_def Let_def)
  have "rq_head r = 0" using A(3) I(2) by (auto simp: thr_tick_def init_ring_def)
  then have "thr_tick q' ?t'" using A(2) by (auto simp: thr_tick_def sp' solo_def)
  moreover have "grows ?P ?q q'" using A(2) out by (auto simp: grows_def)
  moreover have "rings_tick (Suc N) (es @ []) ?P q'"
    using rings_tick_mono [OF I(1), of "Suc N" "[]"] A(2) out by (auto simp: rings_tick_def split: if_splits)
  moreover have "q_mem q' b = q_mem ?q b" if "u \<in> set (y_thr y)" "b \<in> spare u" "b \<notin> set_option (l_nrq ?l)" for u b
    using A(2,3) that linv by (auto simp: lcrq_inv_def Let_def thr_ok_def spare_def split: if_splits)
  ultimately have "tick_inv (Suc N) (es @ []) (after_step i ?t' q' (y_in y) (y_out y) y)"
    using I(3) pc by (intro tick_update [OF inv linv i]) (simp_all add: P put_got_tickets pend_def linked_def)
  then show ?thesis using run pc A(1) by (simp add: lcrq_run_def Let_def step_event_def enq_event_def)
qed

text \<open>The ring a thread links holds one value, under ticket 0.\<close>

lemma linked_ring_tick:
  assumes r: "ra = solo arg r" and ok: "ring_ok pw ra" "spare_ok pw ra" and h: "rq_head ra = 0" and ev: "Put a 0 arg \<in> set es"
  shows "ring_tick (Suc N) es a ra"
proof -
  have "(a, tail_index (n_idx n), n_val n) \<in> set (puts es)" if n: "n \<in> set (rq_array ra)" "n_val n \<noteq> - 1" for n
  proof -
    obtain j where j: "j < 2 ^ pw" "n = rq_array ra ! j" using n(1) ok(1) by (auto simp: in_set_conv_nth ring_ok_def)
    then have "j = 0" using n(2) ok(2) by (auto simp: spare_ok_def)
    moreover have "0 < length (rq_array r)" using ok(1) by (simp add: r ring_ok_def solo_def)
    ultimately have "n = \<lparr>n_val = arg, n_idx = 0\<rparr>" using j(2) by (simp add: r solo_def)
    then show ?thesis using ev by (simp add: puts_iff tail_index_def)
  qed
  then show ?thesis using h by (simp add: ring_tick_def r solo_def tail_index_small)
qed

lemma tick_link:
  assumes inv: "tick_inv N es y" and linv: "lcrq_inv gm pw y" and i: "i < length (y_thr y)"
    and pc: "t_pc (y_thr y ! i) = LEnq (ELink rq)" and run: "lcrq_run gm pw i y = Inr y'"
  shows "tick_inv (Suc N) (es @ step_event pw (y_thr y ! i) (y_q y)) y'"
proof -
  let ?q = "y_q y" and ?t = "y_thr y ! i" and ?l = "t_loc (y_thr y ! i)"
  let ?P = "public ?q (y_thr y)"
  have M: "mem_ok pw ?P ?q" and T: "thr_ok pw ?q ?P ?t" using linv i by (simp_all add: lcrq_inv_def Let_def)
  then have ok: "enq_ok ?q ?P (ELink rq) ?l" using pc by (simp add: thr_ok_def)
  then obtain a ra where a: "l_nrq ?l = Some a" "q_mem ?q a = Some ra" by (auto simp: enq_ok_def)
  have rq: "rq \<in> ?P" using ok by (simp add: enq_ok_def)
  obtain r where r: "ring ?q rq = Inr r" "q_mem ?q rq = Some r" by (rule ring_public [OF M public_dom rq])
  have I: "rings_tick N es ?P ?q" "thr_tick ?q ?t" "answered es" using inv i by (simp_all add: tick_inv_def Let_def)
  show ?thesis
  proof (cases "rq_next r")
    case (Some nx)
    have "tick_inv (Suc N) (es @ []) (after_step i \<lparr>t_pc = LEnq EReadTail, t_loc = ?l\<rparr> ?q (y_in y) (y_out y) y)"
      using rings_tick_mono [OF I(1), of "Suc N" "[]"] I(3) pc
      by (intro tick_public [OF inv linv i]) (simp_all add: linked_def grows_same put_got_tickets)
    then show ?thesis using Some run pc r(1) by (simp add: lcrq_run_def Let_def step_event_def enq_event_def)
  next
    case None
    let ?q' = "put_ring rq (r\<lparr>rq_next := Some a\<rparr>) ?q" and ?t' = "\<lparr>t_pc = LEnq (ESwingNew rq), t_loc = ?l\<rparr>"
    let ?ev = "[Put a 0 (l_arg ?l)]"
    have mem': "q_mem ?q' = (q_mem ?q)(rq \<mapsto> r\<lparr>rq_next := Some a\<rparr>)" by (simp add: put_ring_def)
    then have dom': "dom (q_mem ?q') = dom (q_mem ?q)" using r(2) by auto
    have sp: "spare ?t = {a}" using a(1) pc by (simp add: spare_def linked_def)
    have out: "a \<notin> ?P" using spare_not_public [of ?t "y_thr y" a ?q] sp i by simp
    have sp': "spare ?t' = {}" by (simp add: spare_def linked_def)
    have "a \<in> dom (q_mem ?q)" using a(2) by blast
    then have P: "public ?q' ((y_thr y)[i := ?t']) = insert a ?P"
      by (rule public_release [OF i sp' dom' sp _ spare_of_others [OF linv i a(1)]])
    have S: "ring_ok pw ra" "spare_ok pw ra" "rq_head ra = 0"
      using M T I(2) a(2) sp by (auto simp: mem_ok_def thr_ok_def thr_tick_def)
    obtain r0 where r0: "ra = solo (l_arg ?l) r0" using I(2) pc a by (auto simp: thr_tick_def)
    have ra: "ring_tick (Suc N) (es @ ?ev) a ra" by (rule linked_ring_tick [OF r0 S]) simp
    have rq': "ring_tick (Suc N) (es @ ?ev) rq (r\<lparr>rq_next := Some a\<rparr>)"
      using I(1) rq r(2) ring_tick_mono [of N es rq r "Suc N" ?ev] by (simp add: rings_tick_def ring_tick_def)
    then have R: "rings_tick (Suc N) (es @ ?ev) ?P ?q'" "grows ?P ?q ?q'"
      using put_tick [OF I(1) r(2), of "Suc N" ?ev "r\<lparr>rq_next := Some a\<rparr>"] by simp_all
    have mem_a: "q_mem ?q' a = Some ra" using a(2) out rq mem' by auto
    then have "rings_tick (Suc N) (es @ ?ev) (insert a ?P) ?q'" using R(1) ra by (simp add: rings_tick_def)
    moreover have "below_tail (insert a ?P) ?q' (a, 0)"
      by (rule below_tailI [OF _ mem_a]) (simp_all add: r0 solo_def tail_index_small)
    then have "draws (below_tail ?P ?q) (below_tail (insert a ?P) ?q') {#} (served (puts ?ev)) {#}"
      using out by (simp add: draws_def) (simp add: below_tail_def)
    moreover have "thr_tick ?q' ?t'" by (simp add: thr_tick_def sp')
    moreover have "q_mem ?q' b = q_mem ?q b" if "u \<in> set (y_thr y)" "b \<in> spare u" for u b
      using spare_not_public [OF that] rq mem' by auto
    ultimately have "tick_inv (Suc N) (es @ ?ev) (after_step i ?t' ?q' (y_in y) (y_out y) y)"
      using R(2) answered_put [OF I(3)] pc
      by (intro tick_update [OF inv linv i]) (simp_all add: P put_got_tickets pend_def linked_def subset_insertI)
    then show ?thesis using None run pc r(1) a(1) by (simp add: lcrq_run_def Let_def step_event_def enq_event_def)
  qed
qed

lemma tick_swing_new:
  assumes inv: "tick_inv N es y" and linv: "lcrq_inv gm pw y" and i: "i < length (y_thr y)"
    and pc: "t_pc (y_thr y ! i) = LEnq (ESwingNew rq)" and run: "lcrq_run gm pw i y = Inr y'"
  shows "tick_inv (Suc N) (es @ step_event pw (y_thr y ! i) (y_q y)) y'"
proof -
  let ?q = "y_q y" and ?t = "y_thr y ! i" and ?l = "t_loc (y_thr y ! i)"
  let ?P = "public ?q (y_thr y)"
  obtain a where a: "l_nrq ?l = Some a" using run pc by (cases "l_nrq ?l") (auto simp: lcrq_run_def Let_def)
  let ?q' = "if q_tail ?q = rq then ?q\<lparr>q_tail := a\<rparr> else ?q" and ?t' = "\<lparr>t_pc = LIdle, t_loc = ?l\<lparr>l_nrq := None\<rparr>\<rparr>"
  have mem': "q_mem ?q' = q_mem ?q" by simp
  have "spare ?t' = spare ?t" using pc by (simp add: spare_def linked_def)
  then have P: "public ?q' ((y_thr y)[i := ?t']) = ?P" by (rule public_update [OF i]) simp
  have I: "rings_tick N es ?P ?q" "answered es" using inv i by (simp_all add: tick_inv_def Let_def)
  have "rings_tick (Suc N) (es @ []) ?P ?q'" "grows ?P ?q ?q'"
    using rings_tick_mono [OF I(1), of "Suc N" "[]"] rings_tick_same [OF mem'] grows_same [OF mem'] by simp_all
  moreover have "thr_tick ?q' ?t'" by (simp add: thr_tick_def spare_def)
  ultimately have "tick_inv (Suc N) (es @ []) (after_step i ?t' ?q' (y_in y @ [l_arg ?l]) (y_out y) y)"
    using I(2) pc mem' unfolding P [symmetric]
    by (intro tick_update [OF inv linv i]) (simp_all only: P, simp_all add: put_got_tickets pend_def linked_def)
  then show ?thesis using run pc a by (simp add: lcrq_run_def Let_def step_event_def enq_event_def)
qed

lemma tick_start: "tick_inv 0 [] (lcrq_start gm pw False n)"
proof -
  have thr: "t_pc (replicate n new_lthread ! j) = LIdle" if "j < n" for j
    using that by (simp add: new_lthread_def)
  have "drawn put_ticket [] (replicate n new_lthread) = {#}" "drawn got_ticket [] (replicate n new_lthread) = {#}"
    using thr by (simp_all add: drawn_def put_got_tickets)
  moreover have "thr_tick q new_lthread" for q by (simp add: thr_tick_def new_lthread_def spare_def linked_def)
  moreover have "ring_tick 0 [] a (init_ring pw)" for a by (auto simp: ring_tick_def init_ring_def tail_index_small)
  moreover have "pending (replicate n new_lthread) = {#}"
    by (simp add: pending_def filter_replicate new_lthread_def linked_def)
  ultimately show ?thesis
    by (auto simp: tick_inv_def Let_def lcrq_start_def SHARED_OBJECT_INIT_def rings_tick_def accounted_def once_def
        split: if_splits)
qed

lemma tick_run:
  assumes "tick_inv N es y" and "lcrq_inv gm pw y" and "i < length (y_thr y)" and "pw < 64" and "getMemory_ok gm"
    and N: "Suc N < 2 ^ 63" and run: "lcrq_run gm pw i y = Inr y'"
  shows "tick_inv (Suc N) (es @ step_event pw (y_thr y ! i) (y_q y)) y'"
proof (cases "t_pc (y_thr y ! i)")
  case LIdle
  then have "y' = y" using run by (simp add: lcrq_run_def Let_def)
  with LIdle assms(1) rings_tick_mono [of N es _ _ "Suc N" "[]"] show ?thesis
    by (simp add: step_event_def tick_inv_def Let_def)
next
  case (LEnq pc)
  then show ?thesis
    using tick_alloc [OF assms(1-5) _ run] tick_link [OF assms(1-3) _ run] tick_swing_new [OF assms(1-3) _ run]
      tick_enq [OF assms(1-4) N LEnq _ run]
    by metis
next
  case (LDeq pc)
  then show ?thesis by (rule tick_deq [OF assms(1-4) N _ run])
qed

lemma trace_tick:
  assumes "lcrq_trace gm pw (lcrq_start gm pw False n) k es y" and "k < 2 ^ 63" and "pw < 64" and "getMemory_ok gm"
  shows "tick_inv k es y"
  using assms(1,2)
proof (induction rule: lcrq_trace.induct)
  case trace_start
  show ?case by (rule tick_start)
next
  case (trace_call k es y i call)
  have "lcrq_inv gm pw y"
    by (rule lcrq_reachable [OF relpowp_imp_rtranclp [OF trace_steps [OF trace_call(1)]] assms(3,4)])
  with trace_call show ?case by (intro tick_call) simp_all
next
  case (trace_run k es y i y')
  have "lcrq_inv gm pw y"
    by (rule lcrq_reachable [OF relpowp_imp_rtranclp [OF trace_steps [OF trace_run(1)]] assms(3,4)])
  with trace_run assms(3,4) show ?case by (intro tick_run) simp_all
qed

section \<open>Properties\<close>

text \<open>
  C20: the order of the concurrent queue under every interleaving of any number of threads, as long as fewer than
  \<open>2 ^ 63\<close> steps are made: a value that leaves a ring under a ticket was put into that ring under the same
  ticket before, no ticket of a ring serves two enqueues or two dequeues, the tickets drawn from then on, which start
  at tail and head of the ring, are larger, the values the dequeues return are those that left, in this order,
  and the values put in are those of the enqueues that have returned or are about to.
\<close>

theorem lcrq_tickets_match:
  assumes "lcrq_trace gm pw (lcrq_start gm pw False n) k es y" and "k < 2 ^ 63" and "pw < 64" and "getMemory_ok gm"
  shows "(\<forall>j<length es. \<forall>a h v. es ! j = Got a h v \<longrightarrow> Put a h v \<in> set (take j es)) \<and>
    distinct (map ticket_of (puts es)) \<and> distinct (map ticket_of (gots es)) \<and>
    list_all (\<lambda>(a, t, v). \<exists>r. q_mem (y_q y) a = Some r \<and> t < tail_index (rq_tail r)) (puts es) \<and>
    list_all (\<lambda>(a, h, v). \<exists>r. q_mem (y_q y) a = Some r \<and> h < rq_head r) (gots es) \<and>
    map (snd \<circ> snd) (gots es) = filter (\<lambda>v. v \<noteq> - 1) (y_out y) \<and>
    mset (map (snd \<circ> snd) (puts es)) = mset (y_in y) + pending (y_thr y)"
proof -
  note I = trace_tick [OF assms, unfolded tick_inv_def Let_def accounted_def]
  have "distinct (map ticket_of xs)" if "once (drawn f xs thr)" for f thr and xs :: "(addr \<times> u64 \<times> u64) list"
    using once_sub [OF that, of "served xs"] by (intro once_distinct) (simp add: drawn_def served_def)
  then have "distinct (map ticket_of (puts es))" "distinct (map ticket_of (gots es))" using I by blast+
  moreover have "ticket_of x \<in># drawn f xs thr" if "x \<in> set xs" for f thr xs and x :: "addr \<times> u64 \<times> u64"
    using that by (simp add: drawn_def served_def)
  then have "\<forall>x \<in> set (puts es). below_tail (public (y_q y) (y_thr y)) (y_q y) (ticket_of x)"
    "\<forall>x \<in> set (gots es). below_head (public (y_q y) (y_thr y)) (y_q y) (ticket_of x)"
    using I by blast+
  then have "list_all (\<lambda>(a, t, v). \<exists>r. q_mem (y_q y) a = Some r \<and> t < tail_index (rq_tail r)) (puts es)"
    "list_all (\<lambda>(a, h, v). \<exists>r. q_mem (y_q y) a = Some r \<and> h < rq_head r) (gots es)"
    by (fastforce simp: list_all_iff below_tail_def below_head_def word_less_nat_alt)+
  ultimately show ?thesis using I by (simp add: answered_def)
qed

text \<open>Executing a schedule: \<open>Some call\<close> begins a call of the thread, \<open>None\<close> lets it make a step.\<close>

fun sched_run :: "(nat \<Rightarrow> addr) \<Rightarrow> nat \<Rightarrow> (nat \<times> u64 option option) list \<Rightarrow> lsys \<Rightarrow> (qevent list \<times> lsys) option" where
  "sched_run gm pw [] y = Some ([], y)"
| "sched_run gm pw ((i, Some call) # sch) y =
     (if i < length (y_thr y) \<and> t_pc (y_thr y ! i) = LIdle \<and> call \<noteq> Some (- 1) then sched_run gm pw sch (lcrq_call i call y)
      else None)"
| "sched_run gm pw ((i, None) # sch) y =
     (if i < length (y_thr y) then
        (case lcrq_run gm pw i y of
           Inr y' \<Rightarrow> map_option (\<lambda>(es, z). (step_event pw (y_thr y ! i) (y_q y) @ es, z)) (sched_run gm pw sch y')
         | Inl err \<Rightarrow> None)
      else None)"

lemma sched_trace:
  "sched_run gm pw sch y = Some (es', z) \<Longrightarrow> lcrq_trace gm pw y0 k es y \<Longrightarrow>
    lcrq_trace gm pw y0 (k + length sch) (es @ es') z"
proof (induction gm pw sch y arbitrary: k es es' rule: sched_run.induct)
  case (2 gm pw i call sch y)
  then show ?case using trace_call [of gm pw y0 k es y i call] by (fastforce split: if_splits)
next
  case (3 gm pw i sch y)
  then obtain y' es1 where y': "i < length (y_thr y)" "lcrq_run gm pw i y = Inr y'" "sched_run gm pw sch y' = Some (es1, z)"
    "es' = step_event pw (y_thr y ! i) (y_q y) @ es1"
    by (auto split: if_splits sum.splits)
  then show ?case using 3(1) [OF y'(1,2,3) trace_run [OF 3(3) y'(1,2)]] by simp
qed simp

lemma demo_trace:
  "\<exists>y. lcrq_trace id 1 (lcrq_start id 1 False 2) 13 [Put 0 0 7, Got 0 0 7] y \<and> y_out y = [7]"
proof -
  let ?y0 = "lcrq_start id 1 False 2"
  let ?sch = "[(0, Some (Some 7)), (1, Some None), (0, None), (0, None), (0, None), (0, None), (0, None),
    (1, None), (0, None), (1, None), (1, None), (1, None), (1, None)] :: (nat \<times> u64 option option) list"
  have "map_option (\<lambda>(es, y). (es, y_out y)) (sched_run id 1 ?sch ?y0) = Some ([Put 0 0 7, Got 0 0 7], [7])"
    by code_simp
  then obtain y where y: "sched_run id 1 ?sch ?y0 = Some ([Put 0 0 7, Got 0 0 7], y)" "y_out y = [7]" by auto
  have "lcrq_trace id 1 ?y0 (0 + length ?sch) ([] @ [Put 0 0 7, Got 0 0 7]) y" by (rule sched_trace [OF y(1) trace_start])
  moreover have "0 + length ?sch = 13" by simp
  ultimately show ?thesis using y(2) by (metis append_Nil)
qed

lemma lcrq_tickets_match_witness:
  "\<exists>y es. lcrq_trace id 1 (lcrq_start id 1 False 2) 13 es y \<and> es = [Put 0 0 7, Got 0 0 7] \<and>
    (\<forall>j<length es. \<forall>a h v. es ! j = Got a h v \<longrightarrow> Put a h v \<in> set (take j es)) \<and>
    distinct (map ticket_of (puts es)) \<and> distinct (map ticket_of (gots es)) \<and>
    list_all (\<lambda>(a, t, v). \<exists>r. q_mem (y_q y) a = Some r \<and> t < tail_index (rq_tail r)) (puts es) \<and>
    list_all (\<lambda>(a, h, v). \<exists>r. q_mem (y_q y) a = Some r \<and> h < rq_head r) (gots es) \<and>
    map (snd \<circ> snd) (gots es) = filter (\<lambda>v. v \<noteq> - 1) (y_out y) \<and>
    mset (map (snd \<circ> snd) (puts es)) = mset (y_in y) + pending (y_thr y)"
proof -
  obtain y where "lcrq_trace id 1 (lcrq_start id 1 False 2) 13 [Put 0 0 7, Got 0 0 7] y" using demo_trace by blast
  then show ?thesis using lcrq_tickets_match [OF _ _ _ getMemory_id] by fastforce
qed

end
