(* ===== verification/Spec2Isabelle.thy ===== *)
theory Spec2Isabelle
  imports Program Rope Hex_Trie Filemagic Lcrq_Main Lcrq_Progress Lcrq_Tickets
begin

text \<open>
  A verification development for ssearcher, a multi-threaded text search program in C.

  \<^bold>\<open>The program.\<close>  \<open>main\<close> parses the command line, creates pipes and starts three threads
  (\<open>src/src/main.c\<close>).  The dispatcher walks the current directory, leaves out version-control
  directories, special files and files that start with a known binary signature, and writes a record
  for every other file to a pipe.  Two workers read records from the pipe under a mutex, map the
  file, search it for the pattern with a KMP-style matcher, collect the matching lines with line
  numbers and highlighting in a thread-local buffer, and print the buffer under a second mutex.

  \<^bold>\<open>Theories\<close>, with the code they model and what they show:

  \<^item> \<open>Prelude\<close>: results and errors (\<open>'a res\<close>, \<open>cerror\<close>: every undefined behaviour, failed assertion
    and \<open>exit\<close> is a value), machine integers with their wrap-around or overflow, bytes, checked
    array accesses, occurrences of a pattern in a text.
  \<^item> \<open>Match\<close> (\<open>match.c\<close>): \<open>kmp_prepare\<close>, \<open>kmp_match\<close>, \<open>kmp_finish\<close> over the thread-local pattern and table.
    The table holds borders; a search is memory safe, ends and is sound; it finds the first
    occurrence for the patterns in \<open>kmp_exact\<close>, and counts lines exactly for \<open>no_restart\<close> patterns.
    Concrete searches show that both can fail for other patterns.
  \<^item> \<open>Scan\<close> (inner loop of \<open>worker_thread\<close>): the successive searches of a file.  The matcher is used
    through the locale \<open>matcher\<close>, of which \<open>kmp_match\<close> is an instance; the reference definition is
    \<open>greedy\<close>, the leftmost non-overlapping occurrences.
  \<^item> \<open>Trie\<close> (\<open>util.c\<close>): the trie on a heap with allocation failures; abstraction to a set of keys, the
    invariant \<open>trie_wf\<close>, insertion, lookup, prefix scan and destruction.  The contract \<open>prefix_store\<close>
    is a locale with the trie as its instance.
  \<^item> \<open>Magic\<close> (\<open>magic.c\<close>): the signature table and its named constants, and the classification of files, over
    \<open>prefix_store\<close>.
  \<^item> \<open>Buffer\<close> (\<open>buffer.c\<close> from line 131): the growing result buffer; every writing function refines
    "append to the text" under \<open>buf_inv\<close> (locale \<open>append_sink\<close>), with the inputs on which it leaves its
    block or copies overlapping memory.
  \<^item> \<open>Rope\<close> (\<open>buffer.c\<close> up to line 129, list macros of \<open>util.h\<close>): the doubly linked list of ropes on a
    heap: writes and dump, destruction.
  \<^item> \<open>File\<close> (\<open>file.c\<close>): \<open>map_file\<close>, \<open>unmap_file\<close>; the kernel is a parameter, relied on through \<open>os_serves\<close>.
  \<^item> \<open>Worker\<close> (\<open>thread.c\<close>, lines 34 to 157): \<open>begin_of_line\<close>, \<open>worker_writebuffer\<close>, the search loop, one
    file, a whole worker thread; an instance of \<open>append_sink\<close> prints matches.  \<open>search_result\<close> is what is shown of
    the matches for any pattern, \<open>report_ok\<close> and \<open>reports_ok\<close> what is printed for them, and \<open>reports\<close> the output
    in closed form for patterns whose first byte does not come back.
  \<^item> \<open>Dispatch\<close> (\<open>thread.c\<close>, lines 159 to 283): both variants of the dispatcher over a tree of files; the
    contract of a loop body over \<open>fts_read\<close> is the locale \<open>tree_visitor\<close>.
  \<^item> \<open>Options\<close> (\<open>options.c\<close>): \<open>parse_options\<close> over the results of \<open>getopt_long\<close>.
  \<^item> \<open>System\<close> (\<open>test_procon\<close> of \<open>main.c\<close> and the sharing in \<open>thread.c\<close>): the interleaving of the threads over the
    pipe, standard output and the descriptor table as the step relation \<open>sys_step\<close>, with a measure.  A call that never
    returns is a step that can be repeated for ever.
  \<^item> \<open>System_Inv\<close>: the invariant of that relation (which descriptor refers to which file, what has still to be
    reported, whose name copies are allocated), its preservation, progress, a bound on the steps, and the final state.
  \<^item> \<open>Program\<close> (the rest of \<open>main.c\<close>): \<open>sf_init\<close>, \<open>sf_exit\<close>, \<open>main\<close> as the relation \<open>main_run\<close> from the command
    line to the ways the program can end, and the poll loop \<open>sf_check_buffer\<close>.
  \<^item> \<open>Hex_Trie\<close> (\<open>snippets/trie.c\<close>): the draft of the trie with 16 children to a node; it agrees with
    \<open>Trie\<close> through the map \<open>view\<close> of its heap.
  \<^item> \<open>Lcrq\<close> (\<open>snippets/lcrq.c\<close>): the concurrent queue of linked rings; \<open>enqueue\<close>, \<open>dequeue\<close>, \<open>fixState\<close> and
    \<open>close_crq\<close> as steps of threads, one for each access to shared memory (\<open>enq_step\<close>, \<open>deq_step\<close>,
    \<open>lcrq_step\<close>), and whole calls without interference.
  \<^item> \<open>Lcrq_Safety\<close>: an invariant of all interleavings: ownership of the rings, the residues of cell indices, and
    the balance of values.
  \<^item> \<open>Lcrq_Fifo\<close>: calls one at a time refine a FIFO queue over any number of rings; the contract \<open>fifo_queue\<close> is a
    locale with the queue as its instance.
  \<^item> \<open>Lcrq_Races\<close>: the properties of the queue, with two defects: values lost in a race, and a new
    queue that is never found empty.
  \<^item> \<open>Lcrq_Tickets\<close>: runs annotated with the moments at which a value enters and leaves a ring; under every
    interleaving a value leaves under the ticket it was put under.
  \<^item> \<open>Lcrq_Progress\<close>: the list of rings has no cycle, and an enqueue that is left alone returns within a bound, from
    whatever state the other threads stopped in.
  \<^item> \<open>Lcrq_Bench\<close> (the loop of \<open>Execute\<close> in \<open>snippets/lcrq.c\<close>): the benchmark as a client of the queue.
  \<^item> \<open>Lcrq_Main\<close> (\<open>main\<close>, \<open>StartThread\<close> and the rest of \<open>Execute\<close>): the benchmark's process with its argument, barrier
    and threads (\<open>proc_step\<close>); what holds when it returns 0, that it does not deadlock, and what happens when a
    thread cannot be created.
  \<^item> \<open>Filemagic\<close> (\<open>snippets/filemagic.c\<close>): what it prints for a file.
  \<^item> this theory: the properties that span components: the program end to end, termination of all runs,
    absence of deadlock, release of all files, the descriptors in use.

  \<^bold>\<open>Conventions.\<close>  A struct is a record, a thread-local or global variable a field of the state of its
  component.  A memory block is a list of bytes and every access to it is checked; heaps are maps
  from addresses.  \<open>int\<close> has 32 bits, \<open>size_t\<close> 64, and the conversions are written out.  The build is
  the one without \<open>DEBUG\<close>.

  \<^bold>\<open>Loops and bounds.\<close>  Loops are recursive functions with a termination proof, or partial functions into
  \<open>option\<close> whose value \<open>None\<close> is "never returns" (\<open>grow_cap\<close>, \<open>search_loop\<close>, \<open>dump_loop\<close>, \<open>destroy_loop\<close>);
  for these it is proved that they return.  \<open>trie_destroy\<close> has a bound on its recursion; the number of
  addresses ever handed out is enough (\<open>trie_destroy_ok\<close>, \<open>path_length\<close>).  A call of the concurrent queue is run for a
  number of steps; without interference 10 are enough for \<open>enqueue\<close> and 20 for \<open>dequeue\<close> (\<open>enqueue_rep\<close>,
  \<open>dequeue_rep\<close>, \<open>dequeue_empty_rep\<close>), and from any state \<open>3 * allocs + 8 * RING_SIZE + 29\<close> are enough for an \<open>enqueue\<close> on its
  own (\<open>enqueue_alone\<close>).

  \<^bold>\<open>Parameters.\<close>  The allocators (\<open>memalign\<close>, the quota of the heaps, the limit \<open>b_lim\<close> of the buffer,
  \<open>getMemory\<close>), the kernel (\<open>os\<close>, \<open>denv\<close> with the descriptor limit, the pipes of \<open>menv\<close>), the results of the \<open>pthread\<close> functions (\<open>benv\<close>),
  \<open>getopt_long\<close> and the contents of uninitialised memory.  What is assumed of them is stated as named predicates: \<open>memalign_ok\<close>,
  \<open>getMemory_ok\<close>, \<open>os_serves\<close>, \<open>denv_ok\<close>, \<open>pipes_ok\<close>; \<open>cfg_ok\<close> and \<open>main_ok\<close> collect them for a run.

  \<^bold>\<open>Conditions on the files.\<close>  \<open>cfg_ok\<close> and \<open>main_ok\<close> also restrict the files that are searched (\<open>paths_ok\<close>, \<open>file_ok\<close>,
  \<open>searchable\<close>, \<open>printable\<close> in \<open>Worker\<close>), because the code has undefined behaviour or prints something else on
  other files: the size and one plus twice the number of newlines fit an \<open>int\<close>; an occurrence of the pattern ends within the first 1024 bytes of
  its line (beyond it \<open>writeline_color_buffer\<close> can write past the block); it is not on an unterminated last line, shorter
  than 1024 bytes, of a file of whole pages (there the scan for the end of the line leaves the mapping); \<open>realloc\<close>
  delivers 2140 bytes for each byte of the file; and, without \<open>-l\<close>, the text of the matches has no zero byte and a
  length that is not a multiple of 4096 (it is printed as a string).  The properties of whole runs and of
  the worker hold under these conditions; those of the dispatcher, the matcher, the tries and the queue do not
  need them.

  \<^bold>\<open>Not modelled.\<close>  The messages written to standard output and standard error by \<open>parse_options\<close>, \<open>perror\<close> and
  \<open>die\<close>; the \<open>DEBUG\<close> build; \<open>fts\<close> entries for errors and for symbolic links, which the tree of files does not have;
  the unlocked sharing of the static variables \<open>nll\<close> and \<open>cnt\<close> by the workers, whose values are shown not to matter;
  descriptors that \<open>fts\<close> itself holds while it walks a tree; memory weaker
  than sequentially consistent; the hazard pointers and statistics of \<open>lcrq.c\<close>, which are compiled out, and its
  counter \<open>try_close\<close> beyond the range of an \<open>int\<close>, its clock and processor counters; \<open>config.h\<close> and \<open>debug.h\<close>, which hold
  type names, widths (used throughout) and macros for messages.  \<open>snippets/file-mt.c\<close> does not compile.  The workers of
  \<open>snippets/test_worker.c\<close> wait on a condition variable with a mutex they do not hold, which has no defined meaning;
  \<open>snippets/test_pipe.c\<close> is an early form of the pipe that \<open>System\<close> models from \<open>thread.c\<close>.  The tests and the Perl script that
  generates the signature table are not C.
\<close>

section \<open>The program as a whole\<close>

text \<open>
  C1: the program end to end, under \<open>main_ok\<close>.  That is: the command line names a nonempty pattern; there are
  enough descriptors and memory (\<open>realloc\<close> delivers 2140 bytes for each byte of a file); the kernel serves the
  files; and every nonempty file that is searched meets \<open>file_ok\<close>: its size and
  one plus twice the number of its newlines fit an \<open>int\<close>; each occurrence of the pattern in it ends within the first 1024 bytes of its
  line, and is not on an unterminated last line, shorter than 1024 bytes, of a file whose size is a multiple
  of the page size; and, without \<open>-l\<close>, the text of its matches has no zero byte and a length that is not a
  multiple of 4096.
  For other files the search has undefined behaviour or prints something else.  Under these conditions the
  program can run to the end, no run gets into a call that never returns, and every way it ends, whatever
  the interleaving of the three threads, is
  a return of 0 from \<open>main\<close> whose output consists of one report for every text file of the tree in which
  the search finds the pattern, in some order: its name and increasing, non-overlapping occurrences, all the
  leftmost ones if \<open>kmp_exact\<close> holds of the pattern.  For a pattern whose first byte does not come back the
  reports are exactly those of all files that contain the pattern, with exact line numbers.
\<close>

theorem main_reports_tree:
  assumes "main_ok M opt p"
  shows "(\<exists>r. main_run M r) \<and>
    (\<forall>r. main_run M r \<longrightarrow> (\<exists>s paths. r = MainReturn 0 s \<and>
       mset paths = mset (searched_paths (me_env M) (root_items (me_tree M))) \<and>
       reports_ok (o_list_matching_files opt) p (de_content (me_env M)) paths (s_out s) \<and>
       (no_restart p \<longrightarrow> mset (s_out s) =
         mset (reports (o_list_matching_files opt) p (de_content (me_env M))
                 (searched_paths (me_env M) (root_items (me_tree M)))))))"
proof -
  obtain c s0 tab where S: "main_start M = Inr (c, s0)" "cfg_ok c p tab (tree_paths c (me_tree M))"
    "sys_inv c p tab (tree_paths c (me_tree M)) s0" "c_opt c = opt" "c_env c = me_env M"
    by (rule main_start_ok [OF assms])
  obtain s where "(sys_step c)\<^sup>*\<^sup>* s0 s" "finished s" using sys_reaches_end [OF S(3,2)] by blast
  then have "\<exists>r. main_run M r" using main_returns [OF S(1)] by blast
  moreover have "\<exists>s paths. r = MainReturn 0 s \<and> mset paths = mset (tree_paths c (me_tree M)) \<and> reported c p paths (s_out s)"
    if "main_run M r" for r
    using that
  proof (cases rule: main_run.cases)
    case (main_dies c' s0' s err)
    then have "(sys_step c)\<^sup>*\<^sup>* s0 s" using S(1) by simp
    then have "s_died s = None" using sys_steps_inv [OF _ S(2,3)] by (simp add: inv_defs)
    with main_dies show ?thesis by simp
  next
    case (main_hangs c' s0' s)
    then have "(sys_step c)\<^sup>*\<^sup>* s0 s" "spins c s" using S(1) by simp_all
    then show ?thesis using no_spinning [OF sys_steps_inv [OF _ S(2,3)] S(2)] by blast
  next
    case (main_returns c' s0' s)
    then have "(sys_step c)\<^sup>*\<^sup>* s0 s" "finished s" using S(1) by simp_all
    with main_returns(1) show ?thesis using finished_state(1) [OF sys_steps_inv [OF _ S(2,3)] S(2)] by (auto dest: reports_with_ok)
  qed (use S(1) in simp)
  ultimately show ?thesis
    using S(4,5) reports_ok_unique [of p] reports_mset unfolding tree_paths_def by metis
qed

definition demo_env :: "byte list \<Rightarrow> menv" where
  "demo_env content =
     \<lparr>me_argv = [[115], [97, 98]], me_getopt = [], me_optind = 1, me_opt = no_options,
      me_pipes = (\<lambda>i. Some (3 + 2 * int i, 4 + 2 * int i)), me_tree = FDir [46] [FReg [102]],
      me_magic = fresh_detector, me_os = one_file_os content, me_env = all_files_env 100 (\<lambda>path. content),
      me_memalign = (\<lambda>n. Some [0, 0]), me_lim = 1000000, me_cap = 5\<rparr>"

definition demo_opt :: cli_options where
  "demo_opt = no_options\<lparr>o_search_pattern := Some [97, 98], o_search_patlen := 2\<rparr>"

lemma demo_file_ok: "file_ok False 1000000 [97, 98] [97, 98, 10]"
proof -
  have "searchable [97, 98] [97, 98, 10]"
    by (auto simp: searchable_def match_fits_def newlines_def newline_def INT_MAX_def PAGE_SIZE_def line_ends_def
        dvd_eq_mod_eq_0)
  moreover have "printable [97, 98] [97, 98, 10]"
  proof (rule printable_no_restart)
    show "\<not> DEFAULT_SIZE dvd length (report_text [97, 98, 10] (length [97, 98 :: byte]) (file_matches [97, 98] [97, 98, 10]))"
      by code_simp
  qed (simp_all add: no_restart_def)
  ultimately show ?thesis by (simp add: file_ok_def)
qed

lemma demo_ok: "main_ok (demo_env [97, 98, 10]) demo_opt [97, 98]"
proof -
  have "parse_options [[115], [97, 98]] [] 1 no_options = Inr demo_opt"
    by (simp add: parse_options_def Let_def demo_opt_def no_options_def int_limits)
  moreover have "paths_ok (one_file_os [97, 98, 10]) False 1000000 [97, 98] (\<lambda>path. [97, 98, 10]) paths" for paths
    by (simp add: paths_ok_def one_file_os_serves demo_file_ok list_all_iff)
  moreover have "o_list_matching_files demo_opt = False" by (simp add: demo_opt_def no_options_def)
  moreover have "pipes_ok (\<lambda>i. Some (3 + 2 * int i, 4 + 2 * int i))" by (simp add: pipes_ok_def)
  ultimately show ?thesis
    unfolding main_ok_def demo_env_def
    by (simp add: demo_opt_def int_limits memalign_ok_def DEFAULT_SIZE_def fresh_detector_fresh
        all_files_env_ok) (simp add: all_files_env_def BASE_FDS_def NCPU_def)
qed

theorem main_reports_tree_witness:
  "\<exists>s paths. main_run (demo_env [97, 98, 10]) (MainReturn 0 s) \<and>
     mset paths = mset (searched_paths (me_env (demo_env [97, 98, 10])) (root_items (me_tree (demo_env [97, 98, 10])))) \<and>
     reports_ok (o_list_matching_files demo_opt) [97, 98] (de_content (me_env (demo_env [97, 98, 10]))) paths (s_out s) \<and>
     (no_restart [97, 98] \<longrightarrow> mset (s_out s) =
       mset (reports (o_list_matching_files demo_opt) [97, 98] (de_content (me_env (demo_env [97, 98, 10])))
         (searched_paths (me_env (demo_env [97, 98, 10])) (root_items (me_tree (demo_env [97, 98, 10]))))))"
  using main_reports_tree [OF demo_ok] by blast

text \<open>
  C9: there is no endless run, under \<open>main_ok\<close>: a nonempty pattern, enough descriptors and memory, and
  files within the limits of \<open>file_ok\<close> (every occurrence ends within the first 1024 bytes of its line and is not
  on a short unterminated last line of a file of whole pages; the report can be printed).  Whatever the
  interleaving, the threads take at most seven steps, six per regular file, two per directory and one per
  special file, and each of these steps is a call that returns: a search that never ended would be a
  step that can be repeated for ever (\<open>thread_spins\<close>), and the bound excludes it.
\<close>

theorem system_runs_end:
  assumes "main_ok M opt p" and "main_start M = Inr (c, s0)" and "((sys_step c) ^^ n) s0 s"
  shows "n \<le> 7 + node_work (me_tree M) \<and> \<not> spins c s"
proof -
  obtain tab where C: "cfg_ok c p tab (tree_paths c (me_tree M))" and I: "sys_inv c p tab (tree_paths c (me_tree M)) s0"
    by (rule main_reachable [OF assms(1,2) rtranclp.rtrancl_refl])
  have "sys_inv c p tab (tree_paths c (me_tree M)) s"
    by (rule sys_steps_inv [OF relpowp_imp_rtranclp [OF assms(3)] C I])
  then show ?thesis
    using sys_steps_bound [OF assms(3) C I] main_start_work [OF assms(2)] no_spinning C by simp
qed

theorem system_runs_end_witness:
  "\<exists>c s0. main_start (demo_env [97, 98, 10]) = Inr (c, s0) \<and>
     (\<forall>n s. ((sys_step c) ^^ n) s0 s \<longrightarrow> n \<le> 7 + node_work (me_tree (demo_env [97, 98, 10])) \<and> \<not> spins c s)"
proof -
  obtain c s0 where "main_start (demo_env [97, 98, 10]) = Inr (c, s0)" by (rule main_start_ok [OF demo_ok])
  then show ?thesis using system_runs_end [OF demo_ok] by blast
qed

text \<open>
  C8: the threads never block each other for good, under \<open>main_ok\<close> (a nonempty pattern, enough descriptors
  and memory, files within the limits of \<open>file_ok\<close>): in every state a run can reach before all threads have returned, some thread can take a step that changes the state (the pipe may
  hold as little as one record).
\<close>

theorem system_never_stuck:
  assumes "main_ok M opt p" and "main_start M = Inr (c, s0)" and "(sys_step c)\<^sup>*\<^sup>* s0 s"
  shows "finished s \<or> (\<exists>s'. sys_step c s s' \<and> s' \<noteq> s)"
proof -
  obtain tab where "cfg_ok c p tab (tree_paths c (me_tree M))" "sys_inv c p tab (tree_paths c (me_tree M)) s"
    by (rule main_reachable [OF assms])
  then show ?thesis using sys_progress sys_step_decreases by blast
qed

theorem system_never_stuck_witness:
  "\<exists>c s0. main_start (demo_env [97, 98, 10]) = Inr (c, s0) \<and>
     (\<forall>s. (sys_step c)\<^sup>*\<^sup>* s0 s \<longrightarrow> finished s \<or> (\<exists>s'. sys_step c s s' \<and> s' \<noteq> s))"
proof -
  obtain c s0 where "main_start (demo_env [97, 98, 10]) = Inr (c, s0)" by (rule main_start_ok [OF demo_ok])
  then show ?thesis using system_never_stuck [OF demo_ok] by blast
qed

text \<open>
  C4: when \<open>main\<close> returns, under \<open>main_ok\<close> (a nonempty pattern, enough descriptors and memory, files within
  the limits of \<open>file_ok\<close>), every file has been closed and unmapped, and of the
  pipes exactly the read ends of the two result pipes are open, which are two different descriptors.  The
  copies of file names left allocated are exactly those of the searched files that got no report.
\<close>

theorem main_releases_files:
  assumes "main_ok M opt p" and "main_run M (MainReturn n s)"
  shows "\<exists>r1 w1 r2 w2 paths. me_pipes M 1 = Some (r1, w1) \<and> me_pipes M 2 = Some (r2, w2) \<and>
    distinct [0, 1, 2, r1, r2] \<and> dom (p_open (s_proc s)) = {0, 1, 2, r1, r2} \<and> p_maps (s_proc s) = 0 \<and>
    mset paths = mset (searched_paths (me_env M) (root_items (me_tree M))) \<and>
    reports_with (o_list_matching_files opt) p (de_content (me_env M)) paths (s_out s) (p_names (s_proc s))"
proof -
  obtain c s0 tab where S: "main_start M = Inr (c, s0)" "cfg_ok c p tab (tree_paths c (me_tree M))"
    "sys_inv c p tab (tree_paths c (me_tree M)) s0" "c_opt c = opt" "c_env c = me_env M"
    and E: "\<exists>r1 w1 r2 w2. me_pipes M 1 = Some (r1, w1) \<and> me_pipes M 2 = Some (r2, w2) \<and> distinct [0, 1, 2, r1, r2] \<and>
      dom tab - insert (snd (c_pipefd c)) (snd ` set (c_result c)) - {fst (c_pipefd c)} = {0, 1, 2, r1, r2}"
    by (rule main_start_ok [OF assms(1)])
  obtain s1 where s1: "(sys_step c)\<^sup>*\<^sup>* s0 s1" "finished s1" "s = s1\<lparr>s_proc := sf_exit (c_pipefd c) (s_proc s1)\<rparr>"
    using assms(2) S(1) by (auto elim: main_runE)
  have inv: "sys_inv c p tab (tree_paths c (me_tree M)) s1" by (rule sys_steps_inv [OF s1(1) S(2,3)])
  note F = finished_state [OF inv S(2) s1(2)]
  have "dom (p_open (s_proc s)) = dom tab - insert (snd (c_pipefd c)) (snd ` set (c_result c)) - {fst (c_pipefd c)}"
    "p_maps (s_proc s) = 0"
    unfolding s1(3) using F(2,3) by simp_all
  moreover obtain paths where "mset paths = mset (searched_paths (me_env M) (root_items (me_tree M)))"
    "reports_with (o_list_matching_files opt) p (de_content (me_env M)) paths (s_out s) (p_names (s_proc s))"
    using F(1) S(4,5) unfolding s1(3) tree_paths_def by auto
  ultimately show ?thesis using E by metis
qed

theorem main_releases_files_witness:
  "\<exists>n s r1 w1 r2 w2 paths. main_run (demo_env [97, 98, 10]) (MainReturn n s) \<and>
     me_pipes (demo_env [97, 98, 10]) 1 = Some (r1, w1) \<and> me_pipes (demo_env [97, 98, 10]) 2 = Some (r2, w2) \<and>
     distinct [0, 1, 2, r1, r2] \<and> dom (p_open (s_proc s)) = {0, 1, 2, r1, r2} \<and> p_maps (s_proc s) = 0 \<and>
     mset paths = mset (searched_paths (me_env (demo_env [97, 98, 10])) (root_items (me_tree (demo_env [97, 98, 10])))) \<and>
     reports_with (o_list_matching_files demo_opt) [97, 98] (de_content (me_env (demo_env [97, 98, 10]))) paths (s_out s)
       (p_names (s_proc s))"
proof -
  obtain c s0 tab where S: "main_start (demo_env [97, 98, 10]) = Inr (c, s0)"
    "cfg_ok c [97, 98] tab (tree_paths c (me_tree (demo_env [97, 98, 10])))"
    "sys_inv c [97, 98] tab (tree_paths c (me_tree (demo_env [97, 98, 10]))) s0"
    by (rule main_start_ok [OF demo_ok])
  obtain s where "(sys_step c)\<^sup>*\<^sup>* s0 s" "finished s" using sys_reaches_end [OF S(3,2)] by blast
  then have "main_run (demo_env [97, 98, 10]) (MainReturn 0 (s\<lparr>s_proc := sf_exit (c_pipefd c) (s_proc s)\<rparr>))"
    by (rule main_returns [OF S(1)])
  then show ?thesis using main_releases_files [OF demo_ok] by meson
qed

text \<open>
  C5: the descriptors stay consistent although the dispatcher opens files while the workers close
  others and numbers are used again.  Under \<open>main_ok\<close> (a nonempty pattern, enough descriptors and memory, and
  files within the limits of \<open>file_ok\<close>: every occurrence ends within the first 1024 bytes of its line and is not
  on a short unterminated last line of a file of whole pages; the report can be printed), in every reachable state no thread has failed, none is in a call that fails or never returns, no two records
  carry the same descriptor, and each record in the pipe or with a worker carries a descriptor that
  is open and refers to the file named in the record.
\<close>

theorem descriptors_consistent:
  assumes "main_ok M opt p" and "main_start M = Inr (c, s0)" and "(sys_step c)\<^sup>*\<^sup>* s0 s"
  shows "s_died s = None \<and> (\<forall>err. \<not> disp_fails c s err \<and> \<not> work_fails c s err) \<and>
    records_open (p_open (s_proc s)) (s_pipe s @ busy (s_thr s))"
proof -
  obtain tab where C: "cfg_ok c p tab (tree_paths c (me_tree M))" and I: "sys_inv c p tab (tree_paths c (me_tree M)) s"
    by (rule main_reachable [OF assms])
  have "0 \<in> dom tab" using C by (simp add: cfg_ok_def)
  with I have "s_died s = None \<and> records_open (p_open (s_proc s)) (s_pipe s @ busy (s_thr s))"
    by (auto simp: inv_defs records_open_def list_all_iff own_fds_def records_def)
  then show ?thesis using no_failure [OF I C] by blast
qed

theorem descriptors_consistent_witness:
  "\<exists>c s0. main_start (demo_env [97, 98, 10]) = Inr (c, s0) \<and>
     (\<forall>s. (sys_step c)\<^sup>*\<^sup>* s0 s \<longrightarrow>
        s_died s = None \<and> (\<forall>err. \<not> disp_fails c s err \<and> \<not> work_fails c s err) \<and>
        records_open (p_open (s_proc s)) (s_pipe s @ busy (s_thr s)))"
proof -
  obtain c s0 where "main_start (demo_env [97, 98, 10]) = Inr (c, s0)" by (rule main_start_ok [OF demo_ok])
  then show ?thesis using descriptors_consistent [OF demo_ok] by blast
qed

text \<open>
  C6: under \<open>main_ok\<close> (a nonempty pattern, enough descriptors and memory, files within the limits of
  \<open>file_ok\<close>) the program never uses more descriptors than the nine of its start, one for
  every record the pipe holds, one for each worker and one for the dispatcher.
\<close>

theorem descriptors_bounded:
  assumes "main_ok M opt p" and "main_start M = Inr (c, s0)" and "(sys_step c)\<^sup>*\<^sup>* s0 s"
  shows "card (dom (p_open (s_proc s))) \<le> BASE_FDS + me_cap M + NCPU + 1"
proof -
  obtain tab where C: "cfg_ok c p tab (tree_paths c (me_tree M))" and I: "sys_inv c p tab (tree_paths c (me_tree M)) s"
    and b: "card (dom tab) = BASE_FDS" "c_cap c = me_cap M"
    by (rule main_reachable [OF assms])
  have "finite (dom tab)" using C by (simp add: cfg_ok_def)
  moreover have "length (scan_fds (s_disp s)) + length (disp_records (s_disp s)) \<le> 1"
    by (cases "s_disp s") (simp_all add: scan_fds_def disp_records_def)
  ultimately show ?thesis using fds_in_use [OF I] b by simp
qed

theorem descriptors_bounded_witness:
  "\<exists>c s0. main_start (demo_env [97, 98, 10]) = Inr (c, s0) \<and>
     (\<forall>s. (sys_step c)\<^sup>*\<^sup>* s0 s \<longrightarrow> card (dom (p_open (s_proc s))) \<le> BASE_FDS + me_cap (demo_env [97, 98, 10]) + NCPU + 1)"
proof -
  obtain c s0 where "main_start (demo_env [97, 98, 10]) = Inr (c, s0)" by (rule main_start_ok [OF demo_ok])
  then show ?thesis using descriptors_bounded [OF demo_ok] by blast
qed

text \<open>
  C7: with too few descriptors a file is lost without a message.  When the process may open one file
  more than its standard streams and pipes, the dispatcher may try to open the second of two readable
  text files before a worker has closed the first one: it then ends having sent only the first, and the
  second is neither in the pipe, nor with a worker, nor printed.
\<close>

theorem descriptor_limit_loses_file:
  assumes "main_start M = Inr (c, s0)" and "me_tree M = FDir n [FReg a, FReg b]"
    and "searched_paths (me_env M) (root_items (me_tree M)) = [pa, pb]"
    and "de_limit (me_env M) = BASE_FDS + 1" and "pipes_ok (me_pipes M)" and "magic_fresh (me_magic M)"
    and "denv_ok (me_env M)" and "0 < me_cap M"
  shows "\<exists>s. (sys_step c)\<^sup>*\<^sup>* s0 s \<and> s_died s = None \<and> s_disp s = DExited \<and>
    s_out s = [] \<and> map fi_filename (s_pipe s @ busy (s_thr s)) = [pa]"
proof -
  obtain r0 w0 r1 w1 r2 w2 pr where P: "sf_init (me_pipes M) std_proc = Inr ((r0, w0), [(r1, w1), (r2, w2)], pr)"
    "dom (p_open pr) = {0, 1, 2, r0, w0, r1, w1, r2, w2}" "distinct [0, 1, 2, r0, w0, r1, w1, r2, w2]"
    by (rule sf_init_ok [OF assms(5)])
  have card: "card (dom (p_open pr)) = BASE_FDS" unfolding P(2) using P(3) by (simp add: BASE_FDS_def)
  obtain opt where c: "c = main_cfg M opt (r0, w0) [(r1, w1), (r2, w2)]"
    and s0: "s0 = test_procon c (me_tree M) (me_magic M) pr"
    using assms(1) P(1) by (auto simp: main_start_def res_iffs Let_def)
  have env: "c_env c = me_env M" "c_cap c = me_cap M" by (simp_all add: c main_cfg_def)
  let ?sent = "\<lambda>f. sent_paths (me_env M) (entry f (child_path (bytes ''.'') f) True)"
  have "\<not> vcs_name n" "?sent a @ ?sent b = [pa, pb]"
    using assms(3) by (auto simp: assms(2) root_items_def searched_paths_def items_files_def split: if_splits)
  then have names: "\<not> vcs_name n" "\<not> vcs_name a" "\<not> vcs_name b" "pa = child_path (bytes ''.'') a"
    "de_can_open (me_env M) pa" "\<not> looks_binary (me_env M) pa"
    by (auto simp: sent_paths_def entry_def split: if_splits)
  have fin: "finite (dom (p_open pr))" unfolding P(2) by simp
  obtain s where "(sys_step c)\<^sup>*\<^sup>* s0 s" "s_died s = None" "s_disp s = DExited" "s_out s = s_out s0"
    "s_thr s = s_thr s0" "map fi_filename (s_pipe s) = [pa]"
    using descriptors_run_out [of s0 n a b c pa] names fin card assms(4,6-8) env
    by (auto simp: s0 test_procon_def assms(2))
  then show ?thesis by (intro exI [of _ s]) (simp add: s0 test_procon_def)
qed

lemma ascii_not_binary: "\<not> looks_binary (all_files_env k (\<lambda>path. [97, 98])) path"
proof -
  have "\<forall>row \<in> set magic_index. \<exists>b bs n. row = b # bs \<and> b \<noteq> 97 \<and> unat (row ! 8) = Suc n"
    by (simp add: magic_index_def)
  then have "\<not> prefix (signature row) (97 # ys)" if "row \<in> set magic_index" for row ys
    using that by (fastforce simp: signature_def)
  then show ?thesis by (simp add: looks_binary_def all_files_env_def signatures_def read_into_def numeral_eq_Suc)
qed

theorem descriptor_limit_loses_file_witness:
  "\<exists>c s0 s. main_start ((demo_env [97, 98])\<lparr>me_tree := FDir [46] [FReg [102], FReg [103]],
       me_env := all_files_env 10 (\<lambda>path. [97, 98])\<rparr>) = Inr (c, s0) \<and>
     (sys_step c)\<^sup>*\<^sup>* s0 s \<and> s_died s = None \<and> s_disp s = DExited \<and>
     s_out s = [] \<and> map fi_filename (s_pipe s @ busy (s_thr s)) = [[46, 47, 102]]"
proof -
  let ?M = "(demo_env [97, 98])\<lparr>me_tree := FDir [46] [FReg [102], FReg [103]], me_env := all_files_env 10 (\<lambda>path. [97, 98])\<rparr>"
  have pipes: "pipes_ok (me_pipes ?M)" by (simp add: demo_env_def pipes_ok_def)
  obtain r w ps pr where "sf_init (me_pipes ?M) std_proc = Inr ((r, w), ps, pr)" by (rule sf_init_ok [OF pipes])
  moreover have "parse_options (me_argv ?M) (me_getopt ?M) (me_optind ?M) (me_opt ?M) = Inr demo_opt"
    by (simp add: demo_env_def parse_options_def Let_def demo_opt_def no_options_def int_limits)
  ultimately obtain c s0 where start: "main_start ?M = Inr (c, s0)" by (simp add: main_start_def Let_def)
  have "searched_paths (all_files_env 10 (\<lambda>path. [97, 98])) (root_items (FDir [46] [FReg [102], FReg [103]])) =
      [[46, 47, 102], [46, 47, 103]]"
    using ascii_not_binary [of 10]
    by (simp add: searched_paths_def items_files_def root_items_def sent_paths_def entry_def vcs_name_def child_path_def
        bytes_def) (simp add: all_files_env_def)
  then show ?thesis
    using descriptor_limit_loses_file [OF start, of "[46]" "[102]" "[103]" "[46, 47, 102]" "[46, 47, 103]"] pipes start
    by (auto simp: demo_env_def all_files_env_ok fresh_detector_fresh) (auto simp: all_files_env_def BASE_FDS_def)
qed

end
